(* ===== verification/Estuary_Prelude.thy ===== *)
theory Estuary_Prelude
  imports Main "HOL-Library.Word"
begin

text \<open>
  Shared material of the development: the machine types of the C code, the errno values it
  returns, the way a transport library pulls bytes out of a data callback (used by the upload
  callbacks of \<^verbatim>\<open>s3_callback.c\<close> and by \<^verbatim>\<open>growbuffer_read\<close>), the retry loops that
  \<^verbatim>\<open>should_retry\<close> and the \<^verbatim>\<open>msg_resend\<close> labels build, and the list facts the component
  proofs use.
\<close>

section \<open>Machine types and constants\<close>

type_synonym byte = "8 word"
type_synonym u32 = "32 word"
type_synonym u64 = "64 word"

named_theorems estuary_defs \<open>definitions unfolded together in component proofs\<close>
named_theorems step_simps \<open>how one step of a machine changes its state\<close>

text \<open>The errno values the code uses (asm-generic numbering).\<close>

definition EIO :: int where "EIO = 5"
definition E2BIG :: int where "E2BIG = 7"
definition ENOMEM :: int where "ENOMEM = 12"
definition EINVAL :: int where "EINVAL = 22"
definition ENAMETOOLONG :: int where "ENAMETOOLONG = 36"
definition EPROTO :: int where "EPROTO = 71"
definition ESHUTDOWN :: int where "ESHUTDOWN = 108"
definition ETIMEDOUT :: int where "ETIMEDOUT = 110"
definition ECANCELED :: int where "ECANCELED = 125"

lemmas errno_defs = EIO_def E2BIG_def ENOMEM_def EINVAL_def ENAMETOOLONG_def EPROTO_def
  ESHUTDOWN_def ETIMEDOUT_def ECANCELED_def

section \<open>Words\<close>

lemma u64_bound: "unat (x :: u64) < 2 ^ 64"
  using unsigned_less [of x, where ?'a = nat] by simp

lemma u64_add: "unat (x :: u64) + unat y < 2 ^ 64 \<Longrightarrow> unat (x + y) = unat x + unat y"
  by (simp add: unat_word_ariths)

lemma u64_sub: "(y :: u64) \<le> x \<Longrightarrow> unat (x - y) = unat x - unat y"
  by (simp add: unat_sub)

lemma u64_of_nat: "n < 2 ^ 64 \<Longrightarrow> unat (of_nat n :: u64) = n"
  using take_bit_nat_eq_self [of n 64] unsigned_of_nat [of n, where ?'b = 64 and ?'a = nat] by simp

lemma u64_pow2:
  assumes "k < 64"
  shows "unat ((2 :: u64) ^ k) = 2 ^ k"
proof -
  have "(2 :: nat) ^ k < 2 ^ 64" using assms by (intro power_strict_increasing) auto
  then have "unat (of_nat (2 ^ k) :: u64) = 2 ^ k" by (rule u64_of_nat)
  then show ?thesis by simp
qed

section \<open>C library functions on strings\<close>

text \<open>\<^verbatim>\<open>snprintf\<close>: the length of the whole output, and what fits the buffer.\<close>

definition snprintf :: "nat \<Rightarrow> string \<Rightarrow> int \<times> string" where
  "snprintf sz out = (int (length out), take (sz - 1) out)"

text \<open>\<^verbatim>\<open>strstr\<close> and \<^verbatim>\<open>strrchr\<close>: the index of the match.\<close>

fun strstr :: "string \<Rightarrow> string \<Rightarrow> nat option" where
  "strstr [] needle = (if needle = [] then Some 0 else None)"
| "strstr (c # cs) needle =
     (if take (length needle) (c # cs) = needle then Some 0 else map_option Suc (strstr cs needle))"

fun strrchr :: "string \<Rightarrow> char \<Rightarrow> nat option" where
  "strrchr [] c = None"
| "strrchr (x # xs) c =
     (case strrchr xs c of Some i \<Rightarrow> Some (Suc i) | None \<Rightarrow> if x = c then Some 0 else None)"

text \<open>\<^verbatim>\<open>strncpy\<close> into a buffer: copy, pad with NUL up to the count, keep the rest.\<close>

definition strncpy :: "string \<Rightarrow> string \<Rightarrow> nat \<Rightarrow> string" where
  "strncpy dst src n = take n (src @ replicate n (CHR 0x00)) @ drop n dst"

definition bytes_of :: "string \<Rightarrow> byte list" where
  "bytes_of str = map of_char str"

lemma bytes_of_append: "bytes_of (a @ b) = bytes_of a @ bytes_of b"
  by (simp add: bytes_of_def)

lemma length_bytes_of: "length (bytes_of a) = length a"
  by (simp add: bytes_of_def)

text \<open>\<^verbatim>\<open>%d\<close> of a number that is not negative\<close>

fun dec :: "nat \<Rightarrow> string" where
  "dec n = (if n < 10 then [''0123456789'' ! n] else dec (n div 10) @ [''0123456789'' ! (n mod 10)])"

declare dec.simps [simp del]

section \<open>Lists\<close>

lemma drop_take_append: "take n xs @ take m (drop n xs) = take (n + m) xs"
  by (simp add: take_add)

lemma front_of_take:
  assumes "a @ b = take m xs"
  shows "a = take (length a) xs"
proof -
  have "length a + length b \<le> m" using assms by (metis length_append length_take min.cobounded2)
  moreover have "a = take (length a) (take m xs)" using assms by (metis append_eq_conv_conj)
  ultimately show ?thesis by (simp add: min_def)
qed

lemma map_upt_nth_take:
  "a + n \<le> length xs \<Longrightarrow> map (\<lambda>i. xs ! i) [a..<a + n] = take n (drop a xs)"
  by (rule nth_equalityI) auto

lemma map_upt_eqI:
  "length xs = n \<Longrightarrow> (\<And>i. i < n \<Longrightarrow> f (a + i) = xs ! i) \<Longrightarrow> map f [a..<a + n] = xs"
  by (rule nth_equalityI) auto

lemma map_upt_split: "a \<le> b \<Longrightarrow> b \<le> c \<Longrightarrow> map f [a..<c] = map f [a..<b] @ map f [b..<c]"
proof -
  assume "a \<le> b" "b \<le> c"
  then have "[a..<c] = [a..<b] @ [b..<c]"
    using upt_add_eq_append [of a b "c - b"] by simp
  then show ?thesis by simp
qed

text \<open>Cutting a list into parts of the same size.\<close>

definition parts_of :: "nat \<Rightarrow> nat \<Rightarrow> 'a list \<Rightarrow> 'a list list" where
  "parts_of c n xs = map (\<lambda>i. take c (drop (i * c) xs)) [0..<n]"

lemma length_parts_of [simp]: "length (parts_of c n xs) = n"
  by (simp add: parts_of_def)

lemma concat_parts_of: "concat (parts_of c n xs) = take (n * c) xs"
proof (induction n)
  case 0
  then show ?case by (simp add: parts_of_def)
next
  case (Suc n)
  have "concat (parts_of c (Suc n) xs) = concat (parts_of c n xs) @ take c (drop (n * c) xs)"
    by (simp add: parts_of_def)
  then show ?case using Suc.IH by (simp add: drop_take_append add.commute)
qed

lemma ceiling_parts:
  assumes "0 < c" and "n = (len + c - 1) div (c :: nat)"
  shows "len \<le> n * c" and "(n - 1) * c \<le> len"
proof -
  have m: "n * c + (len + c - 1) mod c = len + c - 1" using assms(2) by simp
  moreover have "(len + c - 1) mod c < c" using assms(1) by simp
  ultimately show "len \<le> n * c" by linarith
  have "n * c \<le> len + c - 1" using m by linarith
  then show "(n - 1) * c \<le> len" using assms(1) by (simp add: diff_mult_distrib)
qed

section \<open>Pulling bytes through a data callback\<close>

text \<open>
  A transport (curl below libs3) asks for the body of a request by calling a data callback with
  the size of its buffer, over and over, until the callback returns no byte, which means the end
  of the data. \<open>pull_all cb ns s\<close> is what successive calls with buffer sizes \<open>ns\<close>
  hand over, and the state they leave behind; \<open>None\<close> is a call that ends the process.
\<close>

fun pull_all :: "(nat \<Rightarrow> 's \<Rightarrow> (byte list \<times> 's) option) \<Rightarrow> nat list \<Rightarrow> 's \<Rightarrow> (byte list \<times> 's) option" where
  "pull_all cb [] s = Some ([], s)"
| "pull_all cb (n # ns) s =
     (case cb n s of
        None \<Rightarrow> None
      | Some (bs, s') \<Rightarrow>
         if bs = [] then Some ([], s')
         else map_option (\<lambda>(rest, s''). (bs @ rest, s'')) (pull_all cb ns s'))"

text \<open>
  The contract of a data callback: called in a good state it returns, and the bytes it hands over,
  if any, are the front of what is still to be sent and fit the buffer.
\<close>

locale byte_source =
  fixes pull :: "nat \<Rightarrow> 's \<Rightarrow> (byte list \<times> 's) option"
    and pending :: "'s \<Rightarrow> byte list"
    and inv :: "'s \<Rightarrow> bool"
  assumes pull_returns: "inv s \<Longrightarrow> pull n s \<noteq> None"
    and pull_front: "inv s \<Longrightarrow> pull n s = Some (bs, s') \<Longrightarrow> bs \<noteq> [] \<Longrightarrow>
           inv s' \<and> bs @ pending s' = pending s \<and> length bs \<le> n"
begin

lemma pull_all_prefix:
  assumes "inv s"
  shows "\<exists>bs s' rest. pull_all pull ns s = Some (bs, s') \<and> pending s = bs @ rest"
  using assms
proof (induction ns arbitrary: s)
  case Nil
  then show ?case by simp
next
  case (Cons n ns)
  obtain bs s' where p: "pull n s = Some (bs, s')" using pull_returns [OF Cons.prems] by fastforce
  show ?case
  proof (cases "bs = []")
    case True
    then show ?thesis using p by simp
  next
    case False
    then have "inv s'" and f: "bs @ pending s' = pending s" using pull_front [OF Cons.prems p] by auto
    then obtain cs s'' rest where "pull_all pull ns s' = Some (cs, s'')" "pending s' = cs @ rest"
      using Cons.IH by blast
    then show ?thesis using p False f [symmetric] by auto
  qed
qed

lemma pull_all_full:
  assumes "inv s" and "pull_all pull ns s = Some (bs, s')"
  shows "length bs \<le> length (pending s)" and "length bs = length (pending s) \<Longrightarrow> bs = pending s"
  using pull_all_prefix [OF assms(1), of ns] assms(2) by auto

end

text \<open>A source that always makes progress: asked often enough it hands over everything.\<close>

locale live_source = byte_source +
  assumes pull_progress: "inv s \<Longrightarrow> 0 < n \<Longrightarrow> pending s \<noteq> [] \<Longrightarrow> pull n s = Some (bs, s') \<Longrightarrow> bs \<noteq> []"
begin

lemma pull_all_drains:
  assumes "inv s" and "\<forall>n \<in> set ns. 0 < n" and "length (pending s) \<le> length ns"
  shows "\<exists>s'. pull_all pull ns s = Some (pending s, s')"
  using assms
proof (induction ns arbitrary: s)
  case Nil
  then show ?case by simp
next
  case (Cons n ns)
  obtain bs s' where p: "pull n s = Some (bs, s')" using pull_returns [OF Cons.prems(1)] by fastforce
  show ?case
  proof (cases "bs = []")
    case True
    then have "pending s = []" using pull_progress [OF Cons.prems(1) _ _ p] Cons.prems(2) by auto
    then show ?thesis using p True by simp
  next
    case False
    then have inv: "inv s'" and f: "bs @ pending s' = pending s"
      using pull_front [OF Cons.prems(1) p] by auto
    have "length bs + length (pending s') = length (pending s)" using f by (metis length_append)
    then have "length (pending s') \<le> length ns" using Cons.prems(3) False by (cases bs) auto
    then obtain s'' where "pull_all pull ns s' = Some (pending s', s'')"
      using Cons.IH inv Cons.prems(2) by fastforce
    then show ?thesis using p False f by auto
  qed
qed

end

section \<open>Relations that operations keep\<close>

text \<open>
  Something an operation never destroys, as a relation between the state before and after. It holds of
  sequences and loops when it holds of their steps.
\<close>

locale kept =
  fixes rel :: "'s \<Rightarrow> 's \<Rightarrow> bool"
  assumes kept_refl: "rel s s"
    and kept_trans: "rel s t \<Longrightarrow> rel t u \<Longrightarrow> rel s u"
begin

lemma kept_funpow:
  assumes "\<And>s. rel s (f s)"
  shows "rel s ((f ^^ n) s)"
proof (induction n)
  case (Suc n)
  then show ?case using kept_trans [OF Suc assms] by simp
qed (simp add: kept_refl)

lemma kept_fold:
  assumes "\<And>x s. rel s (f x s)"
  shows "rel s (fold f xs s)"
proof (induction xs arbitrary: s)
  case (Cons x xs)
  show ?case using kept_trans [OF assms Cons.IH] by simp
qed (simp add: kept_refl)

end

section \<open>Retry loops\<close>

text \<open>
  \<^verbatim>\<open>should_retry\<close> (\<^verbatim>\<open>ct_common.c\<close>) tests the counter before it decrements it. The random
  pause it makes has no effect on the state.
\<close>

definition should_retry :: "int \<Rightarrow> bool \<times> int" where
  "should_retry retry_count = (retry_count \<noteq> 0, retry_count - 1)"

text \<open>
  \<^verbatim>\<open>do { body } while (again && should_retry(&retry_count))\<close>: the body runs once and then
  once more for every decrement of the counter, as long as it asks for it. A body that
  ends the process (\<open>None\<close>) ends the loop.
\<close>

function do_retry :: "('s \<Rightarrow> (bool \<times> 's) option) \<Rightarrow> nat \<Rightarrow> 's \<Rightarrow> 's option" where
  "do_retry body k s =
     (case body s of
        None \<Rightarrow> None
      | Some (again, s') \<Rightarrow>
         if again \<and> fst (should_retry (int k)) then do_retry body (nat (snd (should_retry (int k)))) s'
         else Some s')"
  by pat_completeness auto
termination
  by (relation "measure (\<lambda>(body, k, s). k)") (auto simp: should_retry_def)

declare do_retry.simps [simp del]

lemma do_retry_0: "do_retry body 0 s = map_option snd (body s)"
  by (simp add: do_retry.simps [of body 0 s] should_retry_def split: option.splits)

lemma do_retry_Suc:
  "do_retry body (Suc k) s =
     (case body s of None \<Rightarrow> None | Some (again, s') \<Rightarrow> if again then do_retry body k s' else Some s')"
  by (simp add: do_retry.simps [of body "Suc k" s] should_retry_def split: option.splits)

lemmas do_retry_unfold = do_retry_0 do_retry_Suc

text \<open>
  The rule for such a loop: the invariant holds before every run, each run returns, keeps it if
  there is to be another run, and gives the postcondition.
\<close>

lemma do_retry_total:
  assumes init: "I s"
    and body: "\<And>s. I s \<Longrightarrow> \<exists>again s'. body s = Some (again, s') \<and> (again \<longrightarrow> I s') \<and> Q again s'"
  shows "\<exists>again s'. do_retry body k s = Some s' \<and> Q again s'"
  using init
proof (induction k arbitrary: s)
  case 0
  then show ?case using body [OF 0] by (auto simp: do_retry_0)
next
  case (Suc k)
  obtain again s' where b: "body s = Some (again, s')" "again \<longrightarrow> I s'" "Q again s'"
    using body [OF Suc.prems] by auto
  then show ?case using Suc.IH [of s'] by (cases again) (auto simp: do_retry_Suc)
qed

lemma do_retry_inv:
  assumes "do_retry body k s = Some s'" and "I s" and "\<And>s again s'. I s \<Longrightarrow> body s = Some (again, s') \<Longrightarrow> I s'"
  shows "I s'"
  using assms(1,2)
proof (induction k arbitrary: s)
  case 0
  then show ?case using assms(3) by (auto simp: do_retry_0)
next
  case (Suc k)
  then show ?case using assms(3) by (auto simp: do_retry_Suc split: option.splits if_splits)
qed

text \<open>
  The \<^verbatim>\<open>msg_resend\<close> loops count down from \<open>max_retry\<close> and resend while the counter is not
  negative, so the call is made up to \<open>max_retry + 2\<close> times.
\<close>

function resend :: "('s \<Rightarrow> bool \<times> 's) \<Rightarrow> int \<Rightarrow> 's \<Rightarrow> 's" where
  "resend body retrys s =
     (let (failed, s') = body s in
      if failed \<and> retrys \<ge> 0 then resend body (retrys - 1) s' else s')"
  by pat_completeness auto
termination
  by (relation "measure (\<lambda>(body, retrys, s). nat (retrys + 1))") auto

declare resend.simps [simp del]

lemma resend_neg: "r < 0 \<Longrightarrow> resend body r s = snd (body s)"
  by (simp add: resend.simps [of body r s] split_beta)

lemma resend_nonneg:
  "0 \<le> r \<Longrightarrow> resend body r s =
     (if fst (body s) then resend body (r - 1) (snd (body s)) else snd (body s))"
  by (simp add: resend.simps [of body r s] split_beta)

lemma resend_rule:
  assumes init: "P s"
    and step: "\<And>s. P s \<Longrightarrow> P (snd (body s))"
  shows "P (resend body r s)"
  using init
proof (induction "nat (r + 1)" arbitrary: r s)
  case 0
  then show ?case by (simp add: resend_neg step)
next
  case (Suc n)
  then have "0 \<le> r" and n: "n = nat (r - 1 + 1)" by linarith+
  then show ?case
    using Suc.hyps(1) [OF n] Suc.prems by (simp add: resend_nonneg step)
qed

end
