(* ===== verification/Growbuffer.thy ===== *)
theory Growbuffer
  imports Estuary_Prelude
begin

text \<open>
  \<^verbatim>\<open>growbuffer.c\<close>: a byte queue kept in a circular, doubly linked list of 64 KiB blocks. The
  blocks live in an explicit heap (addresses to nodes, address 0 is \<^verbatim>\<open>NULL\<close>), because what
  the code does is pointer surgery. Reading or writing through an address that is not
  allocated, copying past the end of a block and freeing twice are faults (\<open>None\<close>).
  \<^verbatim>\<open>malloc\<close> is an argument: it gives a block, or fails. A ring predicate relates the heap
  to the list of blocks; the theorems say that the operations never fault on a ring, that append
  adds to the back and read takes from the front of the bytes stored, that destroy frees
  every block exactly once, and where append goes wrong: after a partial read.
\<close>

section \<open>State\<close>

type_synonym addr = nat

abbreviation (input) NULL :: addr where "NULL \<equiv> 0"

record growbuffer =
  gsize :: nat
  gstart :: nat
  gdata :: "nat \<Rightarrow> byte"
  gprev :: addr
  gnext :: addr

type_synonym gbheap = "addr \<rightharpoonup> growbuffer"
type_synonym allocator = "gbheap \<Rightarrow> (addr \<times> (nat \<Rightarrow> byte)) option"

definition GB_DATA :: nat where "GB_DATA = 64 * 1024"

lemma GB_DATA_pos [simp]: "0 < GB_DATA"
  by (simp add: GB_DATA_def)

text \<open>What \<^verbatim>\<open>malloc\<close> promises: memory that is not in use, at a non-null address.\<close>

definition fresh_alloc :: "allocator \<Rightarrow> bool" where
  "fresh_alloc al \<longleftrightarrow> (\<forall>h a junk. al h = Some (a, junk) \<longrightarrow> a \<noteq> NULL \<and> a \<notin> dom h)"

definition never_fails :: "allocator \<Rightarrow> bool" where
  "never_fails al \<longleftrightarrow> (\<forall>h. finite (dom h) \<longrightarrow> al h \<noteq> None)"

section \<open>growbuffer\_append\<close>

datatype 'a alloc_result = OutOfMemory | Got 'a

text \<open>
  The choice of the block to write to (the first half of the loop body): the tail of the ring,
  or a new block when there is no ring or the tail is full. The result is the heap, the new
  \<^verbatim>\<open>*gb\<close> and the block.
\<close>

definition append_target :: "allocator \<Rightarrow> gbheap \<Rightarrow> addr \<Rightarrow> (gbheap \<times> addr \<times> addr) alloc_result option" where
  "append_target al h gb =
     (case (if gb = NULL then Some NULL else map_option gprev (h gb)) of
        None \<Rightarrow> None
      | Some buf \<Rightarrow>
         (case (if buf = NULL then Some True else map_option (\<lambda>b. gsize b = GB_DATA) (h buf)) of
            None \<Rightarrow> None
          | Some False \<Rightarrow> Some (Got (h, gb, buf))
          | Some True \<Rightarrow>
             (case al h of
                None \<Rightarrow> Some OutOfMemory
              | Some (new, junk) \<Rightarrow>
                 (if buf \<noteq> NULL then
                    (let h1 = h(new \<mapsto> \<lparr>gsize = 0, gstart = 0, gdata = junk, gprev = buf, gnext = gb\<rparr>) in
                     case h1 buf of None \<Rightarrow> None
                     | Some t \<Rightarrow>
                        (let h2 = h1(buf \<mapsto> t\<lparr>gnext := new\<rparr>) in
                         case h2 gb of None \<Rightarrow> None
                         | Some f \<Rightarrow> Some (Got (h2(gb \<mapsto> f\<lparr>gprev := new\<rparr>), gb, new))))
                  else
                    Some (Got (h(new \<mapsto> \<lparr>gsize = 0, gstart = 0, gdata = junk,
                                          gprev = new, gnext = new\<rparr>), new, new))))))"

text \<open>\<^verbatim>\<open>memcpy\<close> into the block at its current size.\<close>

definition block_put :: "growbuffer \<Rightarrow> byte list \<Rightarrow> growbuffer" where
  "block_put b bs =
     b\<lparr>gdata := (\<lambda>i. if gsize b \<le> i \<and> i < gsize b + length bs then bs ! (i - gsize b) else gdata b i),
       gsize := gsize b + length bs\<rparr>"

function append_loop :: "allocator \<Rightarrow> gbheap \<Rightarrow> addr \<Rightarrow> byte list \<Rightarrow> (bool \<times> gbheap \<times> addr) option" where
  "append_loop al h gb data =
     (if data = [] then Some (True, h, gb)
      else case append_target al h gb of
        None \<Rightarrow> None
      | Some OutOfMemory \<Rightarrow> Some (False, h, gb)
      | Some (Got (h', gb', buf)) \<Rightarrow>
         (case h' buf of None \<Rightarrow> None
          | Some b \<Rightarrow>
             (let toCopy = min (GB_DATA - gsize b) (length data) in
              if GB_DATA \<le> gsize b then None
              else append_loop al (h'(buf \<mapsto> block_put b (take toCopy data))) gb' (drop toCopy data))))"
  by pat_completeness auto
termination
  by (relation "measure (\<lambda>(al, h, gb, data). length data)") auto

declare append_loop.simps [simp del]

text \<open>The whole function: the number of bytes appended, or 0 when memory runs out.\<close>

definition growbuffer_append :: "allocator \<Rightarrow> gbheap \<Rightarrow> addr \<Rightarrow> byte list \<Rightarrow> (nat \<times> gbheap \<times> addr) option" where
  "growbuffer_append al h gb data =
     (case append_loop al h gb data of
        None \<Rightarrow> None
      | Some (ok, h', gb') \<Rightarrow> Some (if ok then length data else 0, h', gb'))"

section \<open>growbuffer\_read\<close>

definition growbuffer_read :: "gbheap \<Rightarrow> addr \<Rightarrow> nat \<Rightarrow> (byte list \<times> gbheap \<times> addr) option" where
  "growbuffer_read h gb amt =
     (if gb = NULL then Some ([], h, gb)
      else case h gb of None \<Rightarrow> None
      | Some buf \<Rightarrow>
         (let amtReturn = (if gsize buf > amt then amt else gsize buf);
              out = map (gdata buf) [gstart buf..<gstart buf + amtReturn];
              buf' = buf\<lparr>gstart := gstart buf + amtReturn, gsize := gsize buf - amtReturn\<rparr>;
              h1 = h(gb \<mapsto> buf')
          in
          if gstart buf + amtReturn > GB_DATA then None
          else if gsize buf' = 0 then
            (if gnext buf' = gb then Some (out, h1(gb := None), NULL)
             else case h1 (gprev buf') of None \<Rightarrow> None
               | Some p \<Rightarrow>
                  (let h2 = h1(gprev buf' \<mapsto> p\<lparr>gnext := gnext buf'\<rparr>) in
                   case h2 (gnext buf') of None \<Rightarrow> None
                   | Some n \<Rightarrow> Some (out, (h2(gnext buf' \<mapsto> n\<lparr>gprev := gprev buf'\<rparr>))(gb := None), gnext buf')))
          else Some (out, h1, gb)))"

section \<open>growbuffer\_destroy\<close>

partial_function (option) destroy_loop :: "gbheap \<Rightarrow> addr \<Rightarrow> addr \<Rightarrow> gbheap option" where
  "destroy_loop h start gb =
     (if gb = NULL then Some h
      else case h gb of None \<Rightarrow> None
      | Some b \<Rightarrow> destroy_loop (h(gb := None)) start (if gnext b = start then NULL else gnext b))"

definition growbuffer_destroy :: "gbheap \<Rightarrow> addr \<Rightarrow> gbheap option" where
  "growbuffer_destroy h gb = destroy_loop h gb gb"

section \<open>The ring in the heap\<close>

definition block_bytes :: "growbuffer \<Rightarrow> byte list" where
  "block_bytes b = map (gdata b) [gstart b..<gstart b + gsize b]"

text \<open>
  \<open>seg h p as n\<close>: the blocks at \<open>as\<close> are allocated and linked in this order, the first
  one back to \<open>p\<close> and the last one on to \<open>n\<close>.
\<close>

fun seg :: "gbheap \<Rightarrow> addr \<Rightarrow> addr list \<Rightarrow> addr \<Rightarrow> bool" where
  "seg h p [] n = True"
| "seg h p (a # as) n =
     (\<exists>b. h a = Some b \<and> gprev b = p \<and> gnext b = (if as = [] then n else hd as) \<and> seg h a as n)"

definition ring :: "gbheap \<Rightarrow> addr \<Rightarrow> addr list \<Rightarrow> bool" where
  "ring h gb as \<longleftrightarrow>
     (if as = [] then gb = NULL
      else gb = hd as \<and> distinct as \<and> NULL \<notin> set as \<and> seg h (last as) as (hd as))"

text \<open>
  Every block of a queue is in bounds and, apart from the last, not empty; the last block is
  empty only if the code has just allocated it.
\<close>

definition blocks_ok :: "gbheap \<Rightarrow> addr list \<Rightarrow> bool" where
  "blocks_ok h as \<longleftrightarrow>
     (\<forall>a \<in> set as. \<exists>b. h a = Some b \<and> gstart b + gsize b \<le> GB_DATA \<and> 0 < gsize b)"

fun contents :: "gbheap \<Rightarrow> addr list \<Rightarrow> byte list" where
  "contents h [] = []"
| "contents h (a # as) = (case h a of None \<Rightarrow> [] | Some b \<Rightarrow> block_bytes b) @ contents h as"

definition gb_queue :: "gbheap \<Rightarrow> addr \<Rightarrow> addr list \<Rightarrow> bool" where
  "gb_queue h gb as \<longleftrightarrow> ring h gb as \<and> blocks_ok h as"

text \<open>The tail has not been read from: the condition under which append is correct.\<close>

definition tail_unread :: "gbheap \<Rightarrow> addr list \<Rightarrow> bool" where
  "tail_unread h as \<longleftrightarrow> (as \<noteq> [] \<longrightarrow> gstart (the (h (last as))) = 0)"

section \<open>Facts about rings\<close>

lemma seg_append:
  "seg h p (as @ bs) n \<longleftrightarrow>
     seg h p as (if bs = [] then n else hd bs) \<and> seg h (if as = [] then p else last as) bs n"
  by (induction as arbitrary: p) auto

lemma seg_upd_other [simp]: "a \<notin> set as \<Longrightarrow> seg (h(a := x)) p as n = seg h p as n"
  by (induction as arbitrary: p) auto

lemma seg_relink:
  "h a = Some b \<Longrightarrow> gprev b' = gprev b \<Longrightarrow> gnext b' = gnext b \<Longrightarrow>
     seg (h(a \<mapsto> b')) p as n = seg h p as n"
  by (induction as arbitrary: p) auto

lemma seg_allocated: "seg h p as n \<Longrightarrow> a \<in> set as \<Longrightarrow> \<exists>b. h a = Some b"
  by (induction as arbitrary: p) auto

lemma contents_append [simp]: "contents h (as @ bs) = contents h as @ contents h bs"
  by (induction as) auto

lemma contents_upd_other [simp]: "a \<notin> set as \<Longrightarrow> contents (h(a := x)) as = contents h as"
  by (induction as) auto

lemma contents_cong:
  "(\<And>a. a \<in> set as \<Longrightarrow> map_option block_bytes (h' a) = map_option block_bytes (h a)) \<Longrightarrow>
     contents h' as = contents h as"
proof (induction as)
  case (Cons a as)
  then have "map_option block_bytes (h' a) = map_option block_bytes (h a)" by simp
  with Cons show ?case by (cases "h' a"; cases "h a") auto
qed simp

lemma ring_relink:
  "ring h gb as \<Longrightarrow> h a = Some b \<Longrightarrow> gprev b' = gprev b \<Longrightarrow> gnext b' = gnext b \<Longrightarrow>
     ring (h(a \<mapsto> b')) gb as"
  by (auto simp: ring_def seg_relink simp del: fun_upd_apply split: if_splits)

lemma ring_head: "ring h gb as \<Longrightarrow> gb \<noteq> NULL \<longleftrightarrow> as \<noteq> []"
  using hd_in_set [of as] by (cases "hd as = NULL") (auto simp: ring_def split: if_splits)

lemma ring_tail:
  assumes "ring h gb as" and "as \<noteq> []"
  obtains b where "h gb = Some b" and "gprev b = last as"
  using assms by (cases as) (auto simp: ring_def)

lemma ring_members:
  assumes "ring h gb as" and "as \<noteq> []"
  shows "gb = hd as" "gb \<in> set as" "gb \<noteq> NULL" "last as \<noteq> NULL"
proof -
  have r: "gb = hd as" "NULL \<notin> set as" using assms by (auto simp: ring_def)
  then show "gb = hd as" "gb \<in> set as" "gb \<noteq> NULL" "last as \<noteq> NULL"
    using assms(2) hd_in_set [OF assms(2)] last_in_set [OF assms(2)] by metis+
qed

lemma blocks_okE:
  assumes "blocks_ok h as" and "a \<in> set as"
  obtains b where "h a = Some b" "gstart b + gsize b \<le> GB_DATA" "0 < gsize b"
  using assms by (auto simp: blocks_ok_def)

lemma block_bytes_links [simp]:
  "block_bytes (b\<lparr>gprev := p\<rparr>) = block_bytes b" "block_bytes (b\<lparr>gnext := n\<rparr>) = block_bytes b"
  by (simp_all add: block_bytes_def)

lemma block_bytes_put:
  "gstart b = 0 \<Longrightarrow> block_bytes (block_put b bs) = block_bytes b @ bs"
proof -
  assume 0: "gstart b = 0"
  have "block_bytes (block_put b bs)
      = map (gdata (block_put b bs)) [0..<gsize b] @ map (gdata (block_put b bs)) [gsize b..<gsize b + length bs]"
    using 0 map_upt_split [of 0 "gsize b" "gsize b + length bs"]
    by (simp add: block_bytes_def block_put_def)
  also have "map (gdata (block_put b bs)) [0..<gsize b] = block_bytes b"
    using 0 by (simp add: block_bytes_def block_put_def)
  also have "map (gdata (block_put b bs)) [gsize b..<gsize b + length bs] = bs"
    by (rule map_upt_eqI) (simp_all add: block_put_def)
  finally show ?thesis .
qed

lemma block_put_links [simp]:
  "gprev (block_put b bs) = gprev b" "gnext (block_put b bs) = gnext b"
  "gstart (block_put b bs) = gstart b" "gsize (block_put b bs) = gsize b + length bs"
  by (simp_all add: block_put_def)

section \<open>Append\<close>

text \<open>A new block at the end of a ring: the three pointer updates close the ring again.\<close>

lemma ring_snoc:
  assumes ring: "ring h gb as" and ne: "as \<noteq> []" and new: "new \<notin> set as" "new \<noteq> NULL"
    and b: "gprev b = last as" "gnext b = gb"
    and t: "h (last as) = Some t" and f: "((h(new \<mapsto> b))(last as \<mapsto> t\<lparr>gnext := new\<rparr>)) gb = Some f"
  shows "ring (((h(new \<mapsto> b))(last as \<mapsto> t\<lparr>gnext := new\<rparr>))(gb \<mapsto> f\<lparr>gprev := new\<rparr>)) gb (as @ [new])"
    (is "ring ?h _ _")
proof (cases as rule: rev_cases)
  case Nil
  with ne show ?thesis by simp
next
  case (snoc xs x)
  have gb: "gb = hd as" and dist: "distinct as" and nn: "NULL \<notin> set as"
    and seg: "seg h (last as) as (hd as)"
    using ring ne by (auto simp: ring_def)
  show ?thesis
  proof (cases xs)
    case Nil
    then have "as = [x]" "gb = x" using snoc gb by auto
    then show ?thesis using new b t f nn seg by (auto simp: ring_def)
  next
    case (Cons y ys)
    then have gby: "gb = y" "last as = x" and as: "as = y # ys @ [x]" using snoc gb by auto
    have d: "y \<noteq> x" "y \<notin> set ys" "x \<notin> set ys" "new \<noteq> x" "new \<noteq> y" "new \<notin> set ys"
      using dist new as by auto
    have "seg ?h y (ys @ [x]) new \<and> seg ?h x [new] y"
      using seg as d t b gby by (auto simp: seg_append)
    then show ?thesis
      using seg as d f gby nn new dist by (auto simp: ring_def seg_append hd_append)
  qed
qed

lemma append_target_reuse:
  assumes "gb_queue h gb as" and "as \<noteq> []" and "gsize (the (h (last as))) \<noteq> GB_DATA"
  shows "append_target al h gb = Some (Got (h, gb, last as))"
proof -
  obtain b where "h gb = Some b" "gprev b = last as"
    using assms unfolding gb_queue_def by (blast elim: ring_tail)
  moreover obtain t where "h (last as) = Some t"
    using assms last_in_set unfolding gb_queue_def by (blast elim: blocks_okE)
  moreover have "gb \<noteq> NULL" "last as \<noteq> NULL"
    using assms ring_members [of h gb as] by (auto simp: gb_queue_def)
  ultimately show ?thesis using assms(3) by (simp add: append_target_def)
qed

lemma append_target_oom:
  assumes q: "gb_queue h gb as" and "as \<noteq> [] \<longrightarrow> gsize (the (h (last as))) = GB_DATA" and "al h = None"
  shows "append_target al h gb = Some OutOfMemory"
proof (cases "as = []")
  case True
  then show ?thesis using assms by (simp add: append_target_def gb_queue_def ring_def)
next
  case False
  then obtain b t where "h gb = Some b" "gprev b = last as" "h (last as) = Some t"
    using q last_in_set unfolding gb_queue_def by (blast elim: ring_tail blocks_okE)
  then show ?thesis
    using assms False ring_members [of h gb as] by (simp add: append_target_def gb_queue_def)
qed

text \<open>What allocating a block changes: the links of its neighbours and nothing else.\<close>

definition same_block :: "growbuffer \<Rightarrow> growbuffer \<Rightarrow> bool" where
  "same_block b b' \<longleftrightarrow> gsize b' = gsize b \<and> gstart b' = gstart b \<and> gdata b' = gdata b"

lemma same_block_bytes: "same_block b b' \<Longrightarrow> block_bytes b' = block_bytes b"
  by (simp add: same_block_def block_bytes_def)

definition grown :: "gbheap \<Rightarrow> addr list \<Rightarrow> addr \<Rightarrow> gbheap \<Rightarrow> bool" where
  "grown h as new h' \<longleftrightarrow>
     new \<notin> set as \<and> dom h' = insert new (dom h) \<and>
     (\<exists>nb. h' new = Some nb \<and> gsize nb = 0 \<and> gstart nb = 0) \<and>
     (\<forall>a \<in> set as. \<exists>b b'. h a = Some b \<and> h' a = Some b' \<and> same_block b b') \<and>
     (\<forall>a. a \<notin> set as \<longrightarrow> a \<noteq> new \<longrightarrow> h' a = h a)"

lemma grown_contents: "grown h as new h' \<Longrightarrow> contents h' as = contents h as"
  by (rule contents_cong) (fastforce simp: grown_def same_block_bytes)

lemma append_target_new:
  assumes q: "gb_queue h gb as" and full: "as \<noteq> [] \<longrightarrow> gsize (the (h (last as))) = GB_DATA"
    and al: "al h = Some (new, junk)" and fresh: "fresh_alloc al"
  shows "\<exists>h' gb'. append_target al h gb = Some (Got (h', gb', new)) \<and>
           ring h' gb' (as @ [new]) \<and> grown h as new h'"
proof (cases "as = []")
  case True
  then have "gb = NULL" using q by (simp add: gb_queue_def ring_def)
  moreover have "new \<noteq> NULL" "new \<notin> dom h" using al fresh by (auto simp: fresh_alloc_def)
  ultimately show ?thesis
    using al True by (auto simp: append_target_def ring_def grown_def)
next
  case False
  have new: "new \<noteq> NULL" "new \<notin> dom h" using al fresh by (auto simp: fresh_alloc_def)
  have ring: "ring h gb as" and ok: "blocks_ok h as" using q by (auto simp: gb_queue_def)
  obtain f where f: "h gb = Some f" "gprev f = last as" using ring False by (rule ring_tail)
  obtain t where t: "h (last as) = Some t" using ok last_in_set [OF False] by (rule blocks_okE)
  note nn = ring_members [OF ring False]
  have out: "new \<notin> set as" using ok new by (auto simp: blocks_ok_def)
  define nb where "nb = \<lparr>gsize = 0, gstart = 0, gdata = junk, gprev = last as, gnext = gb\<rparr>"
  define h2 where "h2 = (h(new \<mapsto> nb))(last as \<mapsto> t\<lparr>gnext := new\<rparr>)"
  have h1: "(h(new \<mapsto> nb)) (last as) = Some t" using t out False by auto
  have gn: "gb \<noteq> new" using out nn by auto
  obtain f2 where f2: "h2 gb = Some f2" "same_block f f2"
    using f t gn by (cases "gb = last as") (auto simp: h2_def same_block_def)
  have run: "append_target al h gb = Some (Got (h2(gb \<mapsto> f2\<lparr>gprev := new\<rparr>), gb, new))"
    using f t full al nn f2 h1 False by (simp add: append_target_def nb_def h2_def)
  have "ring (h2(gb \<mapsto> f2\<lparr>gprev := new\<rparr>)) gb (as @ [new])"
    unfolding h2_def
    by (rule ring_snoc [OF ring False out new(1) _ _ t]) (use f2 in \<open>simp_all add: nb_def h2_def\<close>)
  moreover have "grown h as new (h2(gb \<mapsto> f2\<lparr>gprev := new\<rparr>))"
    using out ok new f t f2 nn False
    by (auto simp: grown_def h2_def nb_def same_block_def blocks_ok_def split: if_splits)
  ultimately show ?thesis using run by blast
qed

text \<open>One pass of the loop: some bytes go to the back, the rest of the heap stays.\<close>

definition appended :: "gbheap \<Rightarrow> addr list \<Rightarrow> byte list \<Rightarrow> gbheap \<Rightarrow> addr \<Rightarrow> addr list \<Rightarrow> bool" where
  "appended h as bs h' gb' as' \<longleftrightarrow>
     gb_queue h' gb' as' \<and> tail_unread h' as' \<and> contents h' as' = contents h as @ bs \<and>
     (\<exists>zs. as' = as @ zs) \<and> (\<forall>a. a \<notin> set as' \<longrightarrow> h' a = h a) \<and>
     dom h' = dom h \<union> set as'"

lemma appended_refl:
  "gb_queue h gb as \<Longrightarrow> tail_unread h as \<Longrightarrow> appended h as [] h gb as"
  by (auto simp: appended_def gb_queue_def blocks_ok_def)

lemma appended_trans:
  assumes "appended h as bs h1 gb1 as1" and "appended h1 as1 cs h2 gb2 as2"
  shows "appended h as (bs @ cs) h2 gb2 as2"
  using assms unfolding appended_def by auto

lemma append_write:
  assumes ring: "ring h gb as" and as: "as = xs @ [x]" and ok: "blocks_ok h xs"
    and b: "h x = Some b" "gstart b = 0" "gsize b + length bs \<le> GB_DATA" and ne: "bs \<noteq> []"
  shows "gb_queue (h(x \<mapsto> block_put b bs)) gb as \<and> tail_unread (h(x \<mapsto> block_put b bs)) as \<and>
         contents (h(x \<mapsto> block_put b bs)) as = contents h as @ bs"
proof -
  have x: "x \<notin> set xs" using ring as by (auto simp: ring_def)
  have "ring (h(x \<mapsto> block_put b bs)) gb as"
    using ring b(1) by (rule ring_relink) simp_all
  moreover have "blocks_ok (h(x \<mapsto> block_put b bs)) as"
    using ok b as ne by (auto simp: blocks_ok_def)
  ultimately show ?thesis
    using as b x by (simp add: gb_queue_def tail_unread_def block_bytes_put)
qed

lemma append_step:
  assumes q: "gb_queue h gb as" and un: "tail_unread h as" and fresh: "fresh_alloc al" and ne: "data \<noteq> []"
  obtains "al h = None" "append_target al h gb = Some OutOfMemory"
  | h' gb' buf b k where "append_target al h gb = Some (Got (h', gb', buf))" "h' buf = Some b"
      "gsize b < GB_DATA" "k = min (GB_DATA - gsize b) (length data)"
      "\<exists>as'. appended h as (take k data) (h'(buf \<mapsto> block_put b (take k data))) gb' as'"
proof (cases "as \<noteq> [] \<and> gsize (the (h (last as))) \<noteq> GB_DATA")
  case True
  then obtain b where b: "h (last as) = Some b" "gstart b + gsize b \<le> GB_DATA" "0 < gsize b"
    using q last_in_set unfolding gb_queue_def by (blast elim: blocks_okE)
  have lt: "gsize b < GB_DATA" "gstart b = 0" using b True un by (auto simp: tail_unread_def)
  let ?k = "min (GB_DATA - gsize b) (length data)"
  let ?bs = "take ?k data"
  have as: "as = butlast as @ [last as]" using True by simp
  have ok: "blocks_ok h (butlast as)"
    using q by (auto simp: gb_queue_def blocks_ok_def dest: in_set_butlastD)
  have w: "gb_queue (h(last as \<mapsto> block_put b ?bs)) gb as \<and> tail_unread (h(last as \<mapsto> block_put b ?bs)) as \<and>
        contents (h(last as \<mapsto> block_put b ?bs)) as = contents h as @ ?bs"
    using q lt b ne by (intro append_write [OF _ as ok]) (auto simp: gb_queue_def)
  have "set as \<subseteq> dom h" using q by (auto simp: gb_queue_def blocks_ok_def)
  then have "appended h as ?bs (h(last as \<mapsto> block_put b ?bs)) gb as"
    using w True by (auto simp: appended_def)
  then show ?thesis
    using that(2) [of h gb "last as" b ?k] append_target_reuse [OF q] True b(1) lt(1) by blast
next
  case False
  show ?thesis
  proof (cases "al h")
    case None
    then show ?thesis using that(1) append_target_oom [OF q] False by blast
  next
    case (Some aj)
    then obtain new junk where al: "al h = Some (new, junk)" by (cases aj) auto
    obtain h' gb' where t: "append_target al h gb = Some (Got (h', gb', new))"
      "ring h' gb' (as @ [new])" "grown h as new h'"
      using append_target_new [OF q _ al fresh] False by blast
    obtain b where b: "h' new = Some b" "gsize b = 0" "gstart b = 0"
      using t(3) by (auto simp: grown_def)
    let ?k = "min (GB_DATA - gsize b) (length data)"
    let ?bs = "take ?k data"
    have ok: "blocks_ok h' as"
      using t(3) q by (fastforce simp: grown_def gb_queue_def blocks_ok_def same_block_def)
    have w: "gb_queue (h'(new \<mapsto> block_put b ?bs)) gb' (as @ [new]) \<and>
        tail_unread (h'(new \<mapsto> block_put b ?bs)) (as @ [new]) \<and>
        contents (h'(new \<mapsto> block_put b ?bs)) (as @ [new]) = contents h' (as @ [new]) @ ?bs"
      using b ne by (intro append_write [OF t(2) refl ok]) auto
    have "contents h' (as @ [new]) = contents h as"
      using b grown_contents [OF t(3)] by (simp add: block_bytes_def)
    moreover have "set as \<subseteq> dom h" using q by (auto simp: gb_queue_def blocks_ok_def)
    ultimately have "appended h as ?bs (h'(new \<mapsto> block_put b ?bs)) gb' (as @ [new])"
      using w t(3) by (auto simp: appended_def grown_def)
    then show ?thesis using that(2) [of h' gb' new b ?k] t(1) b by auto
  qed
qed

lemma append_loop_spec:
  assumes "gb_queue h gb as" and "tail_unread h as" and "fresh_alloc al"
  shows "\<exists>ok h' gb' as' k. append_loop al h gb data = Some (ok, h', gb') \<and>
           appended h as (take k data) h' gb' as' \<and>
           (if ok then k = length data else k < length data \<and> al h' = None)"
  using assms
proof (induction al h gb data arbitrary: as rule: append_loop.induct)
  case (1 al h gb data)
  show ?case
  proof (cases "data = []")
    case True
    then show ?thesis using appended_refl [OF "1.prems"(1,2)] by (auto simp: append_loop.simps)
  next
    case False
    from append_step [OF "1.prems" False] show ?thesis
    proof cases
      case 1
      then have "append_loop al h gb data = Some (False, h, gb)"
        using False by (simp add: append_loop.simps)
      then show ?thesis
        using appended_refl [OF "1.prems"(1,2)] False 1 by (intro exI [of _ 0] exI) auto
    next
      case (2 h' gb' buf b k)
      let ?h = "h'(buf \<mapsto> block_put b (take k data))"
      obtain as1 where as1: "appended h as (take k data) ?h gb' as1" using 2 by blast
      have run: "append_loop al h gb data = append_loop al ?h gb' (drop k data)"
        using 2 False by (subst append_loop.simps) (simp add: Let_def)
      have q1: "gb_queue ?h gb' as1" "tail_unread ?h as1" using as1 by (auto simp: appended_def)
      have room: "\<not> GB_DATA \<le> gsize b" using 2(3) by simp
      obtain ok h2 gb2 as2 k2 where r: "append_loop al ?h gb' (drop k data) = Some (ok, h2, gb2)"
        "appended ?h as1 (take k2 (drop k data)) h2 gb2 as2"
        "if ok then k2 = length (drop k data) else k2 < length (drop k data) \<and> al h2 = None"
        using "1.IH" [OF False 2(1) refl refl refl 2(2) 2(4) room q1 "1.prems"(3)] by blast
      have "appended h as (take (k + k2) data) h2 gb2 as2"
        using appended_trans [OF as1 r(2)] by (simp add: drop_take_append)
      moreover have "if ok then k + k2 = length data else k + k2 < length data \<and> al h2 = None"
        using r(3) 2(4) by (auto split: if_splits)
      ultimately show ?thesis using run r(1) by metis
    qed
  qed
qed

section \<open>Read\<close>

text \<open>Unlinking the head of a ring with more than one block.\<close>

lemma ring_unlink:
  assumes ring: "ring h g (g # ys)" and ne: "ys \<noteq> []"
    and p: "h (last ys) = Some p"
    and n: "(h(last ys \<mapsto> p\<lparr>gnext := hd ys\<rparr>)) (hd ys) = Some n"
  shows "ring (((h(last ys \<mapsto> p\<lparr>gnext := hd ys\<rparr>))(hd ys \<mapsto> n\<lparr>gprev := last ys\<rparr>))(g := None)) (hd ys) ys"
proof (cases ys rule: rev_cases)
  case Nil
  with ne show ?thesis by simp
next
  case (snoc xs x)
  have g: "g \<notin> set ys" and dist: "distinct ys" and nn: "NULL \<notin> set ys"
    and seg: "seg h g ys g"
    using ring ne by (auto simp: ring_def)
  show ?thesis
  proof (cases xs)
    case Nil
    then show ?thesis using snoc g nn p n by (auto simp: ring_def)
  next
    case (Cons y zs)
    then have "y \<noteq> x" "y \<notin> set zs" "x \<notin> set zs" using snoc dist by auto
    then show ?thesis
      using snoc Cons g nn dist p n seg by (auto simp: ring_def seg_append hd_append)
  qed
qed

text \<open>
  Reading from a queue never faults; it returns the front of the contents, at least one byte if
  there is one and room for it, and only touches the blocks of the queue.
\<close>

definition taken :: "gbheap \<Rightarrow> addr list \<Rightarrow> byte list \<Rightarrow> gbheap \<Rightarrow> addr \<Rightarrow> addr list \<Rightarrow> bool" where
  "taken h as out h' gb' as' \<longleftrightarrow>
     gb_queue h' gb' as' \<and> out @ contents h' as' = contents h as \<and>
     (as' = as \<or> as \<noteq> [] \<and> as' = tl as) \<and> (\<forall>a. a \<notin> set as \<longrightarrow> h' a = h a) \<and>
     (\<forall>a \<in> set as. a \<notin> set as' \<longrightarrow> h' a = None)"

lemma taken_part:
  assumes q: "gb_queue h gb as" and "as \<noteq> []" and b: "h gb = Some b" and n: "n < gsize b"
  shows "taken h as (map (gdata b) [gstart b..<gstart b + n])
           (h(gb \<mapsto> b\<lparr>gstart := gstart b + n, gsize := gsize b - n\<rparr>)) gb as"
    (is "taken _ _ _ (h(gb \<mapsto> ?b)) _ _")
proof -
  obtain ys where as: "as = gb # ys"
    using q assms(2) ring_members [of h gb as] by (cases as) (auto simp: gb_queue_def)
  then have ys: "gb \<notin> set ys" using q by (auto simp: gb_queue_def ring_def)
  have ok: "gstart b + gsize b \<le> GB_DATA" using q b as by (auto simp: gb_queue_def blocks_ok_def)
  have "ring (h(gb \<mapsto> ?b)) gb as"
    using q unfolding gb_queue_def by (intro ring_relink [of h gb as gb b]) (simp_all add: b)
  moreover have "blocks_ok (h(gb \<mapsto> ?b)) as"
    using q as n ok by (auto simp: gb_queue_def blocks_ok_def)
  moreover have "map (gdata b) [gstart b..<gstart b + n] @ block_bytes ?b = block_bytes b"
    using n map_upt_split [of "gstart b" "gstart b + n" "gstart b + gsize b" "gdata b"]
    by (simp add: block_bytes_def)
  ultimately show ?thesis using as ys b by (simp add: taken_def gb_queue_def)
qed

lemma taken_block:
  assumes q: "gb_queue h gb as" and as: "as = gb # y # ys" and b: "h gb = Some b"
    and b': "gnext b' = gnext b" "gprev b' = gprev b"
    and p: "(h(gb \<mapsto> b')) (gprev b) = Some p"
    and n: "((h(gb \<mapsto> b'))(gprev b \<mapsto> p\<lparr>gnext := gnext b\<rparr>)) (gnext b) = Some n"
  shows "taken h as (block_bytes b)
     ((((h(gb \<mapsto> b'))(gprev b \<mapsto> p\<lparr>gnext := gnext b\<rparr>))(gnext b \<mapsto> n\<lparr>gprev := gprev b\<rparr>))(gb := None))
     (gnext b) (y # ys)" (is "taken _ _ _ ?h _ _")
proof -
  have ring: "ring h gb as" and ok: "blocks_ok h as" using q by (auto simp: gb_queue_def)
  have l: "gprev b = last (y # ys)" "gnext b = y" and g: "gb \<notin> set (y # ys)"
    using ring as b by (auto simp: ring_def)
  have ring': "ring (h(gb \<mapsto> b')) gb (gb # y # ys)"
    using ring_relink [OF ring b] b' as by simp
  have "ring ?h y (y # ys)"
    using ring_unlink [OF ring', of p n] p n l by simp
  moreover have keep: "\<exists>c c'. h a = Some c \<and> ?h a = Some c' \<and> same_block c c'" if "a \<in> set (y # ys)" for a
  proof -
    obtain c where "h a = Some c" using ok as \<open>a \<in> set (y # ys)\<close> by (auto simp: blocks_ok_def)
    moreover have "a \<noteq> gb" "y \<noteq> gb" "last (y # ys) \<noteq> gb" using g that last_in_set [of "y # ys"] by auto
    ultimately show ?thesis using p n l by (auto simp: same_block_def split: if_splits)
  qed
  moreover have "blocks_ok ?h (y # ys)"
    using keep ok as by (fastforce simp: blocks_ok_def same_block_def)
  moreover have "contents ?h (y # ys) = contents h (y # ys)"
  proof (rule contents_cong)
    fix a assume "a \<in> set (y # ys)"
    then obtain c c' where "h a = Some c" "?h a = Some c'" "same_block c c'" using keep by blast
    then show "map_option block_bytes (?h a) = map_option block_bytes (h a)"
      by (simp only: option.map same_block_bytes)
  qed
  moreover have "?h a = h a" if "a \<notin> set as" for a
    using that as l last_in_set [of "y # ys"] by auto
  ultimately show ?thesis using as b l by (simp add: taken_def gb_queue_def)
qed

lemma taken_dom:
  assumes "taken h as out h' gb' as'" and "dom h = set as"
  shows "dom h' = set as'"
proof -
  have "a \<in> dom h'" if "a \<in> set as'" for a
    using assms(1) that by (auto simp: taken_def gb_queue_def blocks_ok_def)
  moreover have "a \<in> set as'" if "a \<in> dom h'" for a
    using assms that by (cases "a \<in> set as") (auto simp: taken_def domIff)
  ultimately show ?thesis by blast
qed

lemma growbuffer_read_taken:
  assumes q: "gb_queue h gb as"
  shows "\<exists>out h' gb' as'. growbuffer_read h gb amt = Some (out, h', gb') \<and> taken h as out h' gb' as' \<and>
           length out \<le> amt \<and> (0 < amt \<longrightarrow> contents h as \<noteq> [] \<longrightarrow> out \<noteq> [])"
proof (cases as)
  case Nil
  then show ?thesis using q by (auto simp: growbuffer_read_def gb_queue_def ring_def taken_def)
next
  case (Cons g ys)
  have ring: "ring h gb as" and ok: "blocks_ok h as" using q by (auto simp: gb_queue_def)
  have g: "g = gb" "gb \<noteq> NULL" using ring_members [OF ring] Cons by auto
  obtain b where b: "h gb = Some b" "gstart b + gsize b \<le> GB_DATA" "0 < gsize b"
    using ok Cons g by (auto simp: blocks_ok_def)
  show ?thesis
  proof (cases "amt < gsize b")
    case True
    then show ?thesis
      using taken_part [OF q _ b(1) True] b g Cons
      by (fastforce simp: growbuffer_read_def Let_def)
  next
    case False
    show ?thesis
    proof (cases ys)
      case Nil
      then have "gnext b = gb" using ring Cons g b by (simp add: ring_def)
      then have run: "growbuffer_read h gb amt = Some (block_bytes b, h(gb := None), NULL)"
        using False b g by (simp add: growbuffer_read_def Let_def block_bytes_def)
      have "taken h as (block_bytes b) (h(gb := None)) NULL []"
        using Cons Nil g b by (simp add: taken_def gb_queue_def ring_def blocks_ok_def)
      then show ?thesis using run False b by (force simp: block_bytes_def)
    next
      case (Cons y zs)
      note as = \<open>as = g # ys\<close> [unfolded Cons g(1)]
      let ?b = "b\<lparr>gstart := gstart b + gsize b, gsize := 0\<rparr>"
      have l: "gprev b = last (y # zs)" "gnext b = y" "gb \<notin> set (y # zs)"
        using ring as b by (auto simp: ring_def)
      then have ne: "gprev b \<noteq> gb" "gnext b \<noteq> gb" using last_in_set [of "y # zs"] by auto
      obtain p where p: "(h(gb \<mapsto> ?b)) (gprev b) = Some p"
        using ok as l ne last_in_set [of "y # zs"] by (fastforce simp: blocks_ok_def)
      obtain n where n: "((h(gb \<mapsto> ?b))(gprev b \<mapsto> p\<lparr>gnext := gnext b\<rparr>)) (gnext b) = Some n"
        using ok as l ne p by (cases "gnext b = gprev b") (auto simp: blocks_ok_def)
      have "growbuffer_read h gb amt = Some (block_bytes b,
          (((h(gb \<mapsto> ?b))(gprev b \<mapsto> p\<lparr>gnext := gnext b\<rparr>))(gnext b \<mapsto> n\<lparr>gprev := gprev b\<rparr>))(gb := None),
          gnext b)"
        using False b g ne p n by (simp add: growbuffer_read_def Let_def block_bytes_def)
      moreover note taken_block [OF q as b(1) _ _ p n]
      ultimately show ?thesis using False b by (force simp: block_bytes_def)
    qed
  qed
qed

section \<open>Destroy\<close>

lemma destroy_loop_seg:
  assumes "seg h p as start" and "distinct as" and "start \<notin> set (tl as)" and "NULL \<notin> set as" and "as \<noteq> []"
  shows "destroy_loop h start (hd as) = Some (\<lambda>a. if a \<in> set as then None else h a)"
  using assms
proof (induction as arbitrary: h p)
  case Nil
  then show ?case by simp
next
  case (Cons a as)
  then obtain b where b: "h a = Some b" "gnext b = (if as = [] then start else hd as)" by auto
  show ?case
  proof (cases "as = []")
    case True
    then show ?thesis using b Cons.prems
      by (auto simp: destroy_loop.simps [of h start a] destroy_loop.simps [of _ start 0])
  next
    case False
    then have "start \<noteq> hd as" "a \<noteq> NULL" "a \<notin> set as" using Cons.prems by auto
    moreover have "destroy_loop (h(a := None)) start (hd as) = Some (\<lambda>x. if x \<in> set as then None else (h(a := None)) x)"
    proof (rule Cons.IH)
      show "seg (h(a := None)) a as start" using Cons.prems \<open>a \<notin> set as\<close> by auto
      show "start \<notin> set (tl as)" using Cons.prems(3) by (auto dest: list.set_sel(2) [OF False])
    qed (use Cons.prems False in auto)
    ultimately show ?thesis using b False by (auto simp: destroy_loop.simps [of h start a] fun_eq_iff)
  qed
qed

lemma destroy_ring:
  assumes "ring h gb as"
  shows "growbuffer_destroy h gb = Some (\<lambda>a. if a \<in> set as then None else h a)"
proof (cases "as = []")
  case True
  then show ?thesis using assms
    by (simp add: growbuffer_destroy_def ring_def destroy_loop.simps [of h 0 0])
next
  case False
  then have "seg h (last as) as (hd as)" "distinct as" "NULL \<notin> set as" "gb = hd as"
    using assms by (auto simp: ring_def)
  moreover have "hd as \<notin> set (tl as)" using False \<open>distinct as\<close> by (cases as) auto
  ultimately show ?thesis
    using destroy_loop_seg [of h "last as" as "hd as"] False by (simp add: growbuffer_destroy_def)
qed

section \<open>Correctness\<close>

text \<open>
  C7. Appending to a queue whose tail has not been read never touches unallocated memory and
  always returns. It puts a front part of the data behind what the queue held, leaves the rest of
  the heap alone and keeps the queue well formed; the whole data goes in, with its
  length returned, unless \<^verbatim>\<open>malloc\<close> fails, in which case 0 is returned.
\<close>

theorem growbuffer_append_correct:
  assumes "gb_queue h gb as" and "tail_unread h as" and "fresh_alloc al"
  shows "\<exists>n h' gb' as' k. growbuffer_append al h gb data = Some (n, h', gb') \<and>
           gb_queue h' gb' as' \<and> tail_unread h' as' \<and>
           contents h' as' = contents h as @ take k data \<and>
           (\<forall>a. a \<notin> set as' \<longrightarrow> h' a = h a) \<and>
           (if al h' \<noteq> None then n = length data \<and> k = length data
            else n = length data \<and> k = length data \<or> n = 0 \<and> k < length data)"
proof -
  obtain ok h' gb' as' k where "append_loop al h gb data = Some (ok, h', gb')"
    "appended h as (take k data) h' gb' as'"
    "if ok then k = length data else k < length data \<and> al h' = None"
    using append_loop_spec [OF assms] by blast
  then show ?thesis
    unfolding growbuffer_append_def appended_def
    by (intro exI [of _ "if ok then length data else 0"] exI [of _ h'] exI [of _ gb'] exI [of _ as']
        exI [of _ k]) auto
qed

text \<open>
  C8. Reading from a queue never faults. It hands over the front of the contents, never more
  than asked for and never nothing when something is left, keeps the queue well formed,
  and frees a block once it is empty.
\<close>

theorem growbuffer_read_correct:
  assumes "gb_queue h gb as"
  shows "\<exists>out h' gb' as'. growbuffer_read h gb amt = Some (out, h', gb') \<and> gb_queue h' gb' as' \<and>
           out @ contents h' as' = contents h as \<and> length out \<le> amt \<and>
           (0 < amt \<longrightarrow> contents h as \<noteq> [] \<longrightarrow> out \<noteq> []) \<and>
           (\<forall>a. a \<notin> set as \<longrightarrow> h' a = h a)"
  using growbuffer_read_taken [OF assms, of amt] by (auto simp: taken_def)

text \<open>
  C9. Destroying a queue returns and frees exactly its blocks, each of them once (freeing an
  address that is not allocated is a fault of the model).
\<close>

theorem growbuffer_destroy_correct:
  assumes "ring h gb as"
  shows "growbuffer_destroy h gb = Some (\<lambda>a. if a \<in> set as then None else h a)"
  by (rule destroy_ring [OF assms])

text \<open>
  The states in which a queue is read: a heap, the head pointer and the ghost list of blocks,
  with a read that keeps the blocks it leaves. The reading side of the queue is a byte source.
\<close>

definition gb_pending :: "gbheap \<times> addr \<times> addr list \<Rightarrow> byte list" where
  "gb_pending s = contents (fst s) (snd (snd s))"

definition gb_inv :: "gbheap \<times> addr \<times> addr list \<Rightarrow> bool" where
  "gb_inv s \<longleftrightarrow> gb_queue (fst s) (fst (snd s)) (snd (snd s))"

definition gb_pull :: "nat \<Rightarrow> gbheap \<times> addr \<times> addr list \<Rightarrow> (byte list \<times> (gbheap \<times> addr \<times> addr list)) option" where
  "gb_pull amt s =
     (case s of (h, gb, as) \<Rightarrow>
        map_option (\<lambda>(out, h', gb'). (out, h', gb', if gb' = gb then as else tl as))
          (growbuffer_read h gb amt))"

lemma gb_pull_taken:
  assumes "gb_inv (h, gb, as)"
  shows "\<exists>out h' gb' as'. gb_pull amt (h, gb, as) = Some (out, h', gb', as') \<and> taken h as out h' gb' as' \<and>
           length out \<le> amt \<and> (0 < amt \<longrightarrow> contents h as \<noteq> [] \<longrightarrow> out \<noteq> [])"
proof -
  have q: "gb_queue h gb as" using assms by (simp add: gb_inv_def)
  then obtain out h' gb' as' where r: "growbuffer_read h gb amt = Some (out, h', gb')"
    "taken h as out h' gb' as'" "length out \<le> amt" "0 < amt \<longrightarrow> contents h as \<noteq> [] \<longrightarrow> out \<noteq> []"
    using growbuffer_read_taken [OF q, of amt] by blast
  have "(if gb' = gb then as else tl as) = as'"
    using q r(2) by (cases as; cases "tl as") (auto simp: taken_def gb_queue_def ring_def)
  then show ?thesis using r by (auto simp: gb_pull_def)
qed

lemma gb_pull_spec:
  assumes "gb_inv s"
  shows "\<exists>out s'. gb_pull n s = Some (out, s') \<and> gb_inv s' \<and> out @ gb_pending s' = gb_pending s \<and>
           length out \<le> n \<and> (0 < n \<longrightarrow> gb_pending s \<noteq> [] \<longrightarrow> out \<noteq> [])"
proof -
  obtain h gb as where s: "s = (h, gb, as)" by (cases s) auto
  then obtain out h' gb' as' where "gb_pull n s = Some (out, h', gb', as')"
    "taken h as out h' gb' as'" "length out \<le> n" "0 < n \<longrightarrow> contents h as \<noteq> [] \<longrightarrow> out \<noteq> []"
    using gb_pull_taken [of h gb as n] assms by auto
  with s show ?thesis by (auto simp: gb_inv_def gb_pending_def taken_def)
qed

interpretation gbsrc: live_source gb_pull gb_pending gb_inv
proof unfold_locales
  fix s n bs s' assume inv: "gb_inv s"
  note spec = gb_pull_spec [OF inv, of n]
  show "gb_pull n s \<noteq> None" using spec by auto
  show "gb_pull n s = Some (bs, s') \<Longrightarrow> bs \<noteq> [] \<Longrightarrow>
      gb_inv s' \<and> bs @ gb_pending s' = gb_pending s \<and> length bs \<le> n"
    and "0 < n \<Longrightarrow> gb_pending s \<noteq> [] \<Longrightarrow> gb_pull n s = Some (bs, s') \<Longrightarrow> bs \<noteq> []"
    using spec by auto
qed

lemma empty_queue: "gb_queue h NULL []" "tail_unread h []"
  by (simp_all add: gb_queue_def ring_def blocks_ok_def tail_unread_def)

text \<open>
  C10. Round trip: data appended to an empty queue is read back byte for byte by any sequence
  of reads of positive size that is long enough.
\<close>

theorem growbuffer_roundtrip:
  assumes "fresh_alloc al" and "growbuffer_append al h NULL data = Some (n, h', gb')" and "0 < n"
    and "\<forall>k \<in> set ks. 0 < k" and "length data \<le> length ks"
  shows "\<exists>as s'. gb_inv (h', gb', as) \<and> pull_all gb_pull ks (h', gb', as) = Some (data, s')"
proof -
  obtain as where as: "gb_queue h' gb' as" "contents h' as = data"
    using append_loop_spec [OF empty_queue assms(1), of h data] assms(2,3)
    by (fastforce simp: growbuffer_append_def appended_def split: if_splits)
  then have "gb_inv (h', gb', as)" "gb_pending (h', gb', as) = data"
    by (auto simp: gb_inv_def gb_pending_def)
  then show ?thesis
    using gbsrc.pull_all_drains [of "(h', gb', as)" ks] assms(4,5) by metis
qed

text \<open>
  \<^verbatim>\<open>growbuffer_append\<close> writes at \<^verbatim>\<open>data[size]\<close>, not at \<^verbatim>\<open>data[start + size]\<close>. After a
  partial read of the tail block (\<open>0 < gstart b\<close>) the new byte therefore lands on an unread
  one and the queue grows by a stale byte instead.
\<close>

lemma append_after_partial_read_overwrites:
  assumes "ring h gb [gb]" and "h gb = Some b" and "0 < gstart b" and "gstart b \<le> gsize b"
    and "gstart b + gsize b < GB_DATA"
  shows "\<exists>h'. growbuffer_append al h gb [x] = Some (1, h', gb) \<and>
           contents h' [gb] = (contents h [gb])[gsize b - gstart b := x] @ [gdata b (gstart b + gsize b)]"
proof -
  have l: "gprev b = gb" "gb \<noteq> NULL" using assms(1,2) by (auto simp: ring_def)
  have t: "append_target al h gb = Some (Got (h, gb, gb))"
    using l assms by (simp add: append_target_def)
  have m: "min (GB_DATA - gsize b) 1 = 1" "\<not> GB_DATA \<le> gsize b" using assms by auto
  have run: "growbuffer_append al h gb [x] = Some (1, h(gb \<mapsto> block_put b [x]), gb)"
    using t m assms(2)
    by (simp add: growbuffer_append_def append_loop.simps [of al h gb] append_loop.simps [of al _ gb "[]"])
  have "block_bytes (block_put b [x]) = (block_bytes b)[gsize b - gstart b := x] @ [gdata b (gstart b + gsize b)]"
    using assms(3,4)
    by (intro nth_equalityI) (auto simp: block_bytes_def block_put_def nth_append nth_list_update)
  then show ?thesis using run assms(2) by simp
qed

section \<open>Witnesses\<close>

definition demo_alloc :: allocator where
  "demo_alloc h = (if h 1 = None then Some (1, \<lambda>_. 0) else None)"

lemma demo_alloc_fresh: "fresh_alloc demo_alloc"
  by (auto simp: fresh_alloc_def demo_alloc_def)

definition demo_block :: growbuffer where
  "demo_block = \<lparr>gsize = 2, gstart = 1, gdata = (\<lambda>i. if i = 1 then 7 else if i = 2 then 8 else 0),
                  gprev = 1, gnext = 1\<rparr>"

lemma demo_ring: "ring [1 \<mapsto> demo_block] 1 [1]"
  by (simp add: ring_def demo_block_def)

lemma demo_queue: "gb_queue [1 \<mapsto> demo_block] 1 [1]"
  using demo_ring by (simp add: gb_queue_def blocks_ok_def) (simp add: demo_block_def GB_DATA_def)

theorem growbuffer_append_correct_witness:
  "\<exists>n h' gb' as' k. growbuffer_append demo_alloc Map.empty NULL [3, 4] = Some (n, h', gb') \<and>
     gb_queue h' gb' as' \<and> tail_unread h' as' \<and> contents h' as' = take k [3, 4]"
  using growbuffer_append_correct [OF empty_queue demo_alloc_fresh, of Map.empty "[3, 4]"] by fastforce

theorem growbuffer_read_correct_witness:
  "\<exists>out h' gb' as'. growbuffer_read [1 \<mapsto> demo_block] 1 1 = Some (out, h', gb') \<and>
     out @ contents h' as' = [7, 8] \<and> length out \<le> 1 \<and> out \<noteq> []"
proof -
  have "contents [1 \<mapsto> demo_block] [1] = [7, 8]"
    by (simp add: demo_block_def block_bytes_def upt_rec)
  then show ?thesis using growbuffer_read_correct [OF demo_queue, of 1] by fastforce
qed

theorem growbuffer_destroy_correct_witness:
  "growbuffer_destroy [1 \<mapsto> demo_block] 1 = Some Map.empty"
  using growbuffer_destroy_correct [OF demo_ring] by (simp add: fun_eq_iff)

theorem growbuffer_roundtrip_witness:
  "\<exists>h' gb' as s'. growbuffer_append demo_alloc Map.empty NULL [3] = Some (1, h', gb') \<and>
     pull_all gb_pull [1] (h', gb', as) = Some ([3], s')"
proof -
  have "\<exists>h' gb'. growbuffer_append demo_alloc Map.empty NULL [3] = Some (1, h', gb')"
    by (simp add: growbuffer_append_def append_loop.simps append_target_def demo_alloc_def GB_DATA_def)
  then show ?thesis
    using growbuffer_roundtrip [OF demo_alloc_fresh, of Map.empty "[3]" 1 _ _ "[1]"] by fastforce
qed

lemma append_after_partial_read_overwrites_witness:
  "\<exists>h'. growbuffer_append demo_alloc [1 \<mapsto> demo_block] 1 [9] = Some (1, h', 1) \<and> contents h' [1] = [7, 9, 0]"
proof -
  have c: "contents [1 \<mapsto> demo_block] [1] = [7, 8]"
    by (simp add: demo_block_def block_bytes_def upt_rec)
  have "\<exists>h'. growbuffer_append demo_alloc [1 \<mapsto> demo_block] 1 [9] = Some (1, h', 1) \<and>
      contents h' [1] = (contents [1 \<mapsto> demo_block] [1])[gsize demo_block - gstart demo_block := 9]
        @ [gdata demo_block (gstart demo_block + gsize demo_block)]"
    by (rule append_after_partial_read_overwrites [OF demo_ring])
      (simp_all add: demo_block_def GB_DATA_def)
  then show ?thesis unfolding c by (simp add: demo_block_def)
qed

end
