(* ===== verification/Mem_Quota.thy ===== *)
theory Mem_Quota
  imports Estuary_Prelude
begin

text \<open>
  \<^verbatim>\<open>mem_quota.c\<close>: the quota that bounds the memory of the worker threads uploading small
  files. Many threads run \<^verbatim>\<open>quota_mem_alloc\<close> and \<^verbatim>\<open>quota_mem_free\<close> at once, so the module
  is a step relation over the module's variables, the mutex and the position of every thread in
  the two functions; one rule per stretch of code between two points where other threads may
  run. Blocking in \<^verbatim>\<open>pthread_cond_wait\<close>, being woken by a signal or spuriously, and
  \<^verbatim>\<open>malloc\<close> failing are rules. The theorems: the accounting is exact and never wraps,
  the mutex excludes, the waiter counter counts, waiters never stall as long as
  \<^verbatim>\<open>malloc\<close> succeeds, and a stall is reachable once it fails.
\<close>

section \<open>State\<close>

type_synonym tid = nat

text \<open>Where a thread stands; the number is the size it allocates or frees.\<close>

datatype pc =
    Outside
  | AllocEnter u64      \<comment> \<open>at label retry of quota\_mem\_alloc, before the lock\<close>
  | AllocLocked u64     \<comment> \<open>holds the mutex, before the test\<close>
  | Taken u64           \<comment> \<open>quota deducted, mutex released, before malloc\<close>
  | MallocFailed u64    \<comment> \<open>malloc gave NULL, before the second lock\<close>
  | ReturnLocked u64    \<comment> \<open>holds the mutex, about to return the quota\<close>
  | Waiting u64         \<comment> \<open>blocked in pthread\_cond\_wait\<close>
  | Woken u64           \<comment> \<open>woken, needs the mutex to leave pthread\_cond\_wait\<close>
  | WokenLocked u64     \<comment> \<open>back from pthread\_cond\_wait with the mutex\<close>
  | Holding u64         \<comment> \<open>quota\_mem\_alloc returned a pointer\<close>
  | FreeEnter u64       \<comment> \<open>in quota\_mem\_free, before the lock\<close>
  | FreeLocked u64      \<comment> \<open>holds the mutex\<close>
  | FreeNotify u64      \<comment> \<open>unlocked, notify\_waiter set, before the signal\<close>

record quota =
  quota_total :: u64
  quota_left :: u64
  quota_waiters :: u64
  quota_mutex :: "tid option"
  quota_pc :: "tid \<Rightarrow> pc"

definition quota_mem_init :: "u64 \<Rightarrow> quota" where
  "quota_mem_init quota_size =
     \<lparr>quota_total = quota_size, quota_left = quota_size, quota_waiters = 0,
      quota_mutex = None, quota_pc = (\<lambda>_. Outside)\<rparr>"

abbreviation goto :: "quota \<Rightarrow> tid \<Rightarrow> pc \<Rightarrow> quota" where
  "goto s t p \<equiv> s\<lparr>quota_pc := (quota_pc s)(t := p)\<rparr>"

section \<open>The code between two scheduling points\<close>

text \<open>Taking the mutex: only one thread at a time.\<close>

definition lock_as :: "quota \<Rightarrow> tid \<Rightarrow> pc \<Rightarrow> quota" where
  "lock_as s t p = (goto s t p)\<lparr>quota_mutex := Some t\<rparr>"

text \<open>\<^verbatim>\<open>quota_mem_alloc\<close> with the mutex: take the quota, or register as a waiter and block.\<close>

definition alloc_locked :: "quota \<Rightarrow> tid \<Rightarrow> u64 \<Rightarrow> quota" where
  "alloc_locked s t alloc_size =
     (if alloc_size \<le> quota_left s
      then (goto s t (Taken alloc_size))\<lparr>quota_left := quota_left s - alloc_size, quota_mutex := None\<rparr>
      else (goto s t (Waiting alloc_size))\<lparr>quota_waiters := quota_waiters s + 1, quota_mutex := None\<rparr>)"

text \<open>\<^verbatim>\<open>quota_mem_alloc\<close> after \<^verbatim>\<open>pthread_cond_wait\<close>: leave the waiters, unlock, retry.\<close>

definition woken_locked :: "quota \<Rightarrow> tid \<Rightarrow> u64 \<Rightarrow> quota" where
  "woken_locked s t alloc_size =
     (goto s t (AllocEnter alloc_size))\<lparr>quota_waiters := quota_waiters s - 1, quota_mutex := None\<rparr>"

text \<open>\<^verbatim>\<open>quota_mem_alloc\<close> when \<^verbatim>\<open>malloc\<close> failed: give the quota back and return NULL.\<close>

definition return_locked :: "quota \<Rightarrow> tid \<Rightarrow> u64 \<Rightarrow> quota" where
  "return_locked s t alloc_size =
     (goto s t Outside)\<lparr>quota_left := quota_left s + alloc_size, quota_mutex := None\<rparr>"

text \<open>\<^verbatim>\<open>quota_mem_free\<close> with the mutex: credit the quota and look for waiters.\<close>

definition free_locked :: "quota \<Rightarrow> tid \<Rightarrow> u64 \<Rightarrow> quota" where
  "free_locked s t mem_size =
     (goto s t (if quota_waiters s \<noteq> 0 then FreeNotify mem_size else Outside))
       \<lparr>quota_left := quota_left s + mem_size, quota_mutex := None\<rparr>"

section \<open>Steps\<close>

text \<open>
  The steps of the threads in \<open>T\<close>. \<open>req\<close> says which sizes the clients ask for and \<open>mf\<close>
  whether \<^verbatim>\<open>malloc\<close> may fail. A signal wakes one thread that is blocked, if there is
  one; POSIX allows a blocked thread to wake on its own as well.
\<close>

inductive quota_step :: "(u64 \<Rightarrow> bool) \<Rightarrow> bool \<Rightarrow> tid set \<Rightarrow> quota \<Rightarrow> quota \<Rightarrow> bool"
  for req mf T where
  call_alloc: "t \<in> T \<Longrightarrow> quota_pc s t = Outside \<Longrightarrow> req n \<Longrightarrow>
     quota_step req mf T s (goto s t (AllocEnter n))"
| alloc_lock: "t \<in> T \<Longrightarrow> quota_pc s t = AllocEnter n \<Longrightarrow> quota_mutex s = None \<Longrightarrow>
     quota_step req mf T s (lock_as s t (AllocLocked n))"
| alloc_test: "t \<in> T \<Longrightarrow> quota_pc s t = AllocLocked n \<Longrightarrow>
     quota_step req mf T s (alloc_locked s t n)"
| spurious: "t \<in> T \<Longrightarrow> quota_pc s t = Waiting n \<Longrightarrow>
     quota_step req mf T s (goto s t (Woken n))"
| rewait_lock: "t \<in> T \<Longrightarrow> quota_pc s t = Woken n \<Longrightarrow> quota_mutex s = None \<Longrightarrow>
     quota_step req mf T s (lock_as s t (WokenLocked n))"
| rewait: "t \<in> T \<Longrightarrow> quota_pc s t = WokenLocked n \<Longrightarrow>
     quota_step req mf T s (woken_locked s t n)"
| malloc_ok: "t \<in> T \<Longrightarrow> quota_pc s t = Taken n \<Longrightarrow>
     quota_step req mf T s (goto s t (Holding n))"
| malloc_fail: "mf \<Longrightarrow> t \<in> T \<Longrightarrow> quota_pc s t = Taken n \<Longrightarrow>
     quota_step req mf T s (goto s t (MallocFailed n))"
| return_lock: "t \<in> T \<Longrightarrow> quota_pc s t = MallocFailed n \<Longrightarrow> quota_mutex s = None \<Longrightarrow>
     quota_step req mf T s (lock_as s t (ReturnLocked n))"
| return_quota: "t \<in> T \<Longrightarrow> quota_pc s t = ReturnLocked n \<Longrightarrow>
     quota_step req mf T s (return_locked s t n)"
| call_free: "t \<in> T \<Longrightarrow> quota_pc s t = Holding n \<Longrightarrow>
     quota_step req mf T s (goto s t (FreeEnter n))"
| free_lock: "t \<in> T \<Longrightarrow> quota_pc s t = FreeEnter n \<Longrightarrow> quota_mutex s = None \<Longrightarrow>
     quota_step req mf T s (lock_as s t (FreeLocked n))"
| free_credit: "t \<in> T \<Longrightarrow> quota_pc s t = FreeLocked n \<Longrightarrow>
     quota_step req mf T s (free_locked s t n)"
| signal_one: "t \<in> T \<Longrightarrow> quota_pc s t = FreeNotify n \<Longrightarrow> u \<in> T \<Longrightarrow> quota_pc s u = Waiting m \<Longrightarrow>
     quota_step req mf T s (goto (goto s t Outside) u (Woken m))"
| signal_none: "t \<in> T \<Longrightarrow> quota_pc s t = FreeNotify n \<Longrightarrow> \<forall>u \<in> T. \<forall>m. quota_pc s u \<noteq> Waiting m \<Longrightarrow>
     quota_step req mf T s (goto s t Outside)"

inductive quota_reach :: "(u64 \<Rightarrow> bool) \<Rightarrow> bool \<Rightarrow> tid set \<Rightarrow> u64 \<Rightarrow> quota \<Rightarrow> bool"
  for req mf T qsz where
  init: "quota_reach req mf T qsz (quota_mem_init qsz)"
| step: "quota_reach req mf T qsz s \<Longrightarrow> quota_step req mf T s s' \<Longrightarrow> quota_reach req mf T qsz s'"

inductive_cases quota_stepE: "quota_step req mf T s s'"

section \<open>Accounting\<close>

text \<open>What a thread at this point has taken out of the quota and not given back.\<close>

fun owed :: "pc \<Rightarrow> nat" where
  "owed (Taken n) = unat n"
| "owed (MallocFailed n) = unat n"
| "owed (ReturnLocked n) = unat n"
| "owed (Holding n) = unat n"
| "owed (FreeEnter n) = unat n"
| "owed (FreeLocked n) = unat n"
| "owed _ = 0"

fun in_wait :: "pc \<Rightarrow> nat" where
  "in_wait (Waiting n) = 1"
| "in_wait (Woken n) = 1"
| "in_wait (WokenLocked n) = 1"
| "in_wait _ = 0"

fun has_mutex :: "pc \<Rightarrow> bool" where
  "has_mutex (AllocLocked n) = True"
| "has_mutex (ReturnLocked n) = True"
| "has_mutex (WokenLocked n) = True"
| "has_mutex (FreeLocked n) = True"
| "has_mutex _ = False"

definition total_over :: "(pc \<Rightarrow> nat) \<Rightarrow> tid set \<Rightarrow> quota \<Rightarrow> nat" where
  "total_over f T s = (\<Sum>t \<in> T. f (quota_pc s t))"

definition quota_inv :: "tid set \<Rightarrow> u64 \<Rightarrow> quota \<Rightarrow> bool" where
  "quota_inv T qsz s \<longleftrightarrow>
     quota_total s = qsz \<and>
     unat (quota_left s) + total_over owed T s = unat qsz \<and>
     unat (quota_waiters s) = total_over in_wait T s \<and>
     (\<forall>t \<in> T. has_mutex (quota_pc s t) \<longleftrightarrow> quota_mutex s = Some t)"

text \<open>Moving one thread changes a total by that thread's share.\<close>

lemma total_over_goto:
  assumes "finite T" and "t \<in> T"
  shows "total_over f T (goto s t p) + f (quota_pc s t) = total_over f T s + f p"
proof -
  have "(\<Sum>x \<in> T - {t}. f ((if x = t then p else quota_pc s x))) = (\<Sum>x \<in> T - {t}. f (quota_pc s x))"
    by (rule sum.cong) auto
  then show ?thesis using assms
    by (simp add: total_over_def sum.remove [of T t])
qed

lemma total_over_indep [simp]:
  "total_over f T (s\<lparr>quota_left := x\<rparr>) = total_over f T s"
  "total_over f T (s\<lparr>quota_waiters := y\<rparr>) = total_over f T s"
  "total_over f T (s\<lparr>quota_mutex := z\<rparr>) = total_over f T s"
  by (simp_all add: total_over_def)

lemma total_over_ge: "finite T \<Longrightarrow> t \<in> T \<Longrightarrow> f (quota_pc s t) \<le> total_over f T s"
  unfolding total_over_def by (rule member_le_sum) auto

lemma in_wait_le: "in_wait p \<le> 1"
  by (cases p) auto

lemma waiters_bound:
  assumes "finite T" and "t \<in> T" and "in_wait (quota_pc s t) = 0"
  shows "total_over in_wait T s < card T"
proof -
  have "total_over in_wait T s = (\<Sum>x \<in> T - {t}. in_wait (quota_pc s x))"
    using assms by (simp add: total_over_def sum.remove [of T t])
  also have "\<dots> \<le> (\<Sum>x \<in> T - {t}. 1)" by (rule sum_mono) (rule in_wait_le)
  also have "\<dots> < card T" using assms card_gt_0_iff [of T] by auto
  finally show ?thesis .
qed

text \<open>One lemma for every rule: a thread moves and the counters move along with it.\<close>

lemma quota_inv_move:
  assumes inv: "quota_inv T qsz s" and T: "finite T" "t \<in> T"
    and left: "unat l + owed p = unat (quota_left s) + owed (quota_pc s t)"
    and wait: "unat w + in_wait (quota_pc s t) = unat (quota_waiters s) + in_wait p"
    and mutex: "has_mutex p \<longleftrightarrow> m = Some t"
      "\<forall>u \<in> T. u \<noteq> t \<longrightarrow> (has_mutex (quota_pc s u) \<longleftrightarrow> m = Some u)"
  shows "quota_inv T qsz ((goto s t p)\<lparr>quota_left := l, quota_waiters := w, quota_mutex := m\<rparr>)"
  using inv left wait mutex total_over_goto [OF T, of owed s p] total_over_goto [OF T, of in_wait s p]
  by (auto simp: quota_inv_def)

lemma quota_inv_mutex:
  assumes "quota_inv T qsz s" and "t \<in> T"
  shows "has_mutex (quota_pc s t) \<Longrightarrow> u \<in> T \<Longrightarrow> u \<noteq> t \<Longrightarrow> \<not> has_mutex (quota_pc s u)"
    and "quota_mutex s = None \<Longrightarrow> \<not> has_mutex (quota_pc s t)"
    and "has_mutex (quota_pc s t) \<longleftrightarrow> quota_mutex s = Some t"
  using assms by (auto simp: quota_inv_def)

lemma quota_inv_room:
  assumes "quota_inv T qsz s" and "finite T" and "t \<in> T" and "owed (quota_pc s t) = unat n"
  shows "unat (quota_left s + n) = unat (quota_left s) + unat n"
proof -
  have "unat (quota_left s) + unat n \<le> unat qsz"
    using assms total_over_ge [of T t owed s] by (simp add: quota_inv_def)
  then show ?thesis using u64_bound [of qsz] by (intro u64_add) simp
qed

lemma quota_inv_wait_room:
  assumes "quota_inv T qsz s" and "finite T" and "t \<in> T" and "in_wait (quota_pc s t) = 0" and "card T < 2 ^ 64"
  shows "unat (quota_waiters s + 1) = unat (quota_waiters s) + 1"
proof -
  have "unat (quota_waiters s) < card T"
    using assms waiters_bound [of T t s] by (simp add: quota_inv_def)
  then show ?thesis using assms(5) by (simp add: unat_word_ariths)
qed

lemma quota_inv_wait_some:
  assumes "quota_inv T qsz s" and "finite T" and "t \<in> T" and "in_wait (quota_pc s t) = 1"
  shows "unat (quota_waiters s - 1) = unat (quota_waiters s) - 1" and "1 \<le> unat (quota_waiters s)"
proof -
  show ge: "1 \<le> unat (quota_waiters s)"
    using assms total_over_ge [of T t in_wait s] by (simp add: quota_inv_def)
  then show "unat (quota_waiters s - 1) = unat (quota_waiters s) - 1"
    by (simp add: unat_sub word_le_nat_alt)
qed

lemma quota_inv_goto:
  assumes "quota_inv T qsz s" and "finite T" and "t \<in> T"
    and "owed p = owed (quota_pc s t)" and "in_wait p = in_wait (quota_pc s t)"
    and "\<not> has_mutex p" and "\<not> has_mutex (quota_pc s t)"
  shows "quota_inv T qsz (goto s t p)"
  using quota_inv_move [OF assms(1-3), of "quota_left s" p "quota_waiters s" "quota_mutex s"] assms
  by (auto simp: quota_inv_def)

lemma quota_inv_lock:
  assumes "quota_inv T qsz s" and "finite T" and "t \<in> T" and "quota_mutex s = None"
    and "owed p = owed (quota_pc s t)" and "in_wait p = in_wait (quota_pc s t)" and "has_mutex p"
  shows "quota_inv T qsz (lock_as s t p)"
  using quota_inv_move [OF assms(1-3), of "quota_left s" p "quota_waiters s" "Some t"] assms
  by (auto simp: lock_as_def quota_inv_def)

lemma quota_inv_unlock:
  assumes "quota_inv T qsz s" and "finite T" and "t \<in> T" and "has_mutex (quota_pc s t)" and "\<not> has_mutex p"
    and "unat l + owed p = unat (quota_left s) + owed (quota_pc s t)"
    and "unat w + in_wait (quota_pc s t) = unat (quota_waiters s) + in_wait p"
  shows "quota_inv T qsz ((goto s t p)\<lparr>quota_left := l, quota_waiters := w, quota_mutex := None\<rparr>)"
  using quota_inv_move [OF assms(1-3,6,7)] assms quota_inv_mutex(1) [OF assms(1,3,4)] by simp

lemma alloc_locked_inv:
  assumes "quota_inv T qsz s" "finite T" "t \<in> T" "card T < 2 ^ 64" "quota_pc s t = AllocLocked n"
  shows "quota_inv T qsz (alloc_locked s t n)"
proof (cases "n \<le> quota_left s")
  case True
  have "quota_inv T qsz ((goto s t (Taken n))\<lparr>quota_left := quota_left s - n, quota_waiters := quota_waiters s,
      quota_mutex := None\<rparr>)"
    using assms True u64_sub [OF True] by (intro quota_inv_unlock) (auto simp: word_le_nat_alt)
  then show ?thesis using True by (simp add: alloc_locked_def)
next
  case False
  have "quota_inv T qsz ((goto s t (Waiting n))\<lparr>quota_left := quota_left s, quota_waiters := quota_waiters s + 1,
      quota_mutex := None\<rparr>)"
    using assms quota_inv_wait_room [OF assms(1-3)] by (intro quota_inv_unlock) auto
  then show ?thesis using False by (simp add: alloc_locked_def)
qed

lemma woken_locked_inv:
  assumes "quota_inv T qsz s" "finite T" "t \<in> T" "quota_pc s t = WokenLocked n"
  shows "quota_inv T qsz (woken_locked s t n)"
proof -
  have "quota_inv T qsz ((goto s t (AllocEnter n))\<lparr>quota_left := quota_left s, quota_waiters := quota_waiters s - 1,
      quota_mutex := None\<rparr>)"
    using assms quota_inv_wait_some [OF assms(1-3)] by (intro quota_inv_unlock) auto
  then show ?thesis by (simp add: woken_locked_def)
qed

lemma credit_inv:
  assumes "quota_inv T qsz s" "finite T" "t \<in> T" "quota_pc s t = ReturnLocked n \<or> quota_pc s t = FreeLocked n"
    and "p = Outside \<or> p = FreeNotify n"
  shows "quota_inv T qsz ((goto s t p)\<lparr>quota_left := quota_left s + n, quota_mutex := None\<rparr>)"
proof -
  have "quota_inv T qsz ((goto s t p)\<lparr>quota_left := quota_left s + n, quota_waiters := quota_waiters s,
      quota_mutex := None\<rparr>)"
    using assms quota_inv_room [OF assms(1-3), of n] by (intro quota_inv_unlock) auto
  then show ?thesis by simp
qed

lemmas quota_part_inv = alloc_locked_inv woken_locked_inv credit_inv quota_inv_goto quota_inv_lock

lemma quota_step_inv:
  assumes "quota_step req mf T s s'" and "quota_inv T qsz s" and "finite T" and "card T < 2 ^ 64"
  shows "quota_inv T qsz s'"
  using assms
proof cases
  case (signal_one t n u m)
  have "quota_inv T qsz (goto s t Outside)"
    using signal_one assms by (intro quota_inv_goto) auto
  moreover have "u \<noteq> t" using signal_one by auto
  ultimately show ?thesis
    using signal_one assms quota_inv_goto [of T qsz "goto s t Outside" u "Woken m"] by auto
next
  case (return_quota t n)
  then show ?thesis using assms credit_inv [of T qsz s t n Outside] by (simp add: return_locked_def)
next
  case (free_credit t n)
  then show ?thesis using assms by (auto simp: free_locked_def intro: credit_inv)
qed (use assms in \<open>auto intro!: quota_inv_goto quota_inv_lock alloc_locked_inv woken_locked_inv\<close>)

lemma quota_init_inv: "quota_inv T qsz (quota_mem_init qsz)"
  by (simp add: quota_inv_def quota_mem_init_def total_over_def)

lemma quota_reach_inv:
  assumes "quota_reach req mf T qsz s" and "finite T" and "card T < 2 ^ 64"
  shows "quota_inv T qsz s"
  using assms by (induction rule: quota_reach.induct) (auto intro: quota_init_inv quota_step_inv)

section \<open>Stalls\<close>

text \<open>The size a thread is still trying to get.\<close>

fun wants :: "pc \<Rightarrow> u64 option" where
  "wants (AllocEnter n) = Some n"
| "wants (AllocLocked n) = Some n"
| "wants (Waiting n) = Some n"
| "wants (Woken n) = Some n"
| "wants (WokenLocked n) = Some n"
| "wants _ = None"

fun active :: "pc \<Rightarrow> bool" where
  "active Outside = False"
| "active (Waiting n) = False"
| "active _ = True"

fun giving_up :: "pc \<Rightarrow> bool" where
  "giving_up (MallocFailed n) = True"
| "giving_up (ReturnLocked n) = True"
| "giving_up _ = False"

text \<open>
  With \<^verbatim>\<open>malloc\<close> succeeding and no request larger than the whole quota, a blocked thread is
  never alone: some thread is on its way to a lock, an unlock, a free or a signal.
\<close>

definition live_inv :: "(u64 \<Rightarrow> bool) \<Rightarrow> tid set \<Rightarrow> quota \<Rightarrow> bool" where
  "live_inv req T s \<longleftrightarrow>
     (\<forall>t \<in> T. \<not> giving_up (quota_pc s t) \<and> (\<forall>n. wants (quota_pc s t) = Some n \<longrightarrow> req n)) \<and>
     ((\<exists>t \<in> T. \<exists>n. quota_pc s t = Waiting n) \<longrightarrow> (\<exists>t \<in> T. active (quota_pc s t)))"

lemma no_waiters:
  assumes "quota_inv T qsz s" and "finite T" and "quota_waiters s = 0" and "t \<in> T"
  shows "quota_pc s t \<noteq> Waiting n"
proof
  assume "quota_pc s t = Waiting n"
  then have "1 \<le> unat (quota_waiters s)" using quota_inv_wait_some(2) [OF assms(1,2,4)] by simp
  then show False using assms(3) by simp
qed

lemma idle_owes: "\<not> active p \<Longrightarrow> owed p = 0"
  by (cases p) auto

lemma only_active_gets_it:
  assumes inv: "quota_inv T qsz s" and T: "finite T" "t \<in> T"
    and pc: "quota_pc s t = AllocLocked n" and "n \<le> qsz" and "\<not> n \<le> quota_left s"
  shows "\<exists>u \<in> T. u \<noteq> t \<and> active (quota_pc s u)"
proof (rule ccontr)
  assume "\<not> ?thesis"
  then have "owed (quota_pc s u) = 0" if "u \<in> T" for u
    using that pc by (cases "u = t") (auto simp: idle_owes)
  then have "total_over owed T s = 0" by (simp add: total_over_def)
  then have "unat (quota_left s) = unat qsz" using inv by (simp add: quota_inv_def)
  then show False using assms(5,6) by (simp add: word_le_nat_alt)
qed

lemma live_inv_goto:
  assumes "live_inv req T s" and "t \<in> T" and "\<not> giving_up p" and "\<forall>n. wants p = Some n \<longrightarrow> req n"
    and "active p \<or> (\<exists>u \<in> T. u \<noteq> t \<and> active (quota_pc s u)) \<or>
         ((\<forall>n. p \<noteq> Waiting n) \<and> (\<forall>u \<in> T. \<forall>n. quota_pc s u \<noteq> Waiting n))"
  shows "live_inv req T ((goto s t p)\<lparr>quota_left := l, quota_waiters := w, quota_mutex := m\<rparr>)"
  using assms unfolding live_inv_def by (auto; metis)

lemma live_inv_same:
  "live_inv req T s \<Longrightarrow> quota_pc s' = quota_pc s \<Longrightarrow> live_inv req T s'"
  by (simp add: live_inv_def)

lemma live_inv_lock:
  "live_inv req T s \<Longrightarrow> t \<in> T \<Longrightarrow> active p \<Longrightarrow> \<not> giving_up p \<Longrightarrow> \<forall>n. wants p = Some n \<longrightarrow> req n \<Longrightarrow>
     live_inv req T (lock_as s t p)"
  using live_inv_goto [of req T s t p "Some t" "quota_waiters s" "quota_left s"] by (simp add: lock_as_def)

lemma live_inv_move:
  "live_inv req T s \<Longrightarrow> t \<in> T \<Longrightarrow> active p \<Longrightarrow> \<not> giving_up p \<Longrightarrow> \<forall>n. wants p = Some n \<longrightarrow> req n \<Longrightarrow>
     live_inv req T (goto s t p)"
  using live_inv_goto [of req T s t p "quota_mutex s" "quota_waiters s" "quota_left s"] by simp

lemma live_inv_wants: "live_inv req T s \<Longrightarrow> t \<in> T \<Longrightarrow> wants (quota_pc s t) = Some n \<Longrightarrow> req n"
  by (auto simp: live_inv_def)

lemma live_inv_quiet: "live_inv req T s \<Longrightarrow> t \<in> T \<Longrightarrow> \<not> giving_up (quota_pc s t)"
  by (auto simp: live_inv_def)

lemma live_step:
  assumes "quota_step (\<lambda>n. n \<le> qsz) False T s s'" and "quota_inv T qsz s" and "finite T"
    and "live_inv (\<lambda>n. n \<le> qsz) T s"
  shows "live_inv (\<lambda>n. n \<le> qsz) T s'"
  using assms(1)
proof cases
  case (alloc_test t n)
  then have "n \<le> qsz" using live_inv_wants [OF assms(4), of t n] by simp
  then show ?thesis
    using alloc_test assms(4) only_active_gets_it [OF assms(2,3) alloc_test(2,3)]
      live_inv_goto [OF assms(4) alloc_test(2), of "Taken n" None "quota_waiters s" "quota_left s - n"]
      live_inv_goto [OF assms(4) alloc_test(2), of "Waiting n" None "quota_waiters s + 1" "quota_left s"]
    by (auto simp: alloc_locked_def)
next
  case (rewait t n)
  then show ?thesis
    using live_inv_wants [OF assms(4), of t n]
      live_inv_goto [OF assms(4) rewait(2), of "AllocEnter n" None "quota_waiters s - 1" "quota_left s"]
    by (simp add: woken_locked_def)
next
  case (free_credit t n)
  then show ?thesis
    using no_waiters [OF assms(2,3)]
      live_inv_goto [OF assms(4) free_credit(2), of "FreeNotify n" None "quota_waiters s" "quota_left s + n"]
      live_inv_goto [OF assms(4) free_credit(2), of Outside None "quota_waiters s" "quota_left s + n"]
    by (auto simp: free_locked_def)
next
  case (signal_one t n u m)
  then have "u \<noteq> t" and "m \<le> qsz" using live_inv_wants [OF assms(4), of u m] by auto
  then show ?thesis using signal_one assms(4) unfolding live_inv_def by auto
next
  case (signal_none t n)
  then show ?thesis
    using live_inv_goto [OF assms(4) signal_none(2), of Outside "quota_mutex s" "quota_waiters s" "quota_left s"]
    by simp
next
  case (return_lock t n)
  then show ?thesis using live_inv_quiet [OF assms(4), of t] by simp
next
  case (return_quota t n)
  then show ?thesis using live_inv_quiet [OF assms(4), of t] by simp
qed (use assms(4) live_inv_wants [OF assms(4)] in \<open>auto intro!: live_inv_move live_inv_lock\<close>)

section \<open>Theorems\<close>


text \<open>The mutex excludes: two threads are never in the module's critical sections together.\<close>

lemma quota_mutual_exclusion:
  assumes "quota_reach req mf T qsz s" and "finite T" and "card T < 2 ^ 64"
    and "t \<in> T" and "u \<in> T" and "has_mutex (quota_pc s t)" and "has_mutex (quota_pc s u)"
  shows "t = u"
  using quota_reach_inv [OF assms(1-3)] assms(4-7) quota_inv_mutex(1) by blast

text \<open>
  C12. While \<^verbatim>\<open>malloc\<close> succeeds and no request exceeds the whole quota, a thread blocked in
  \<^verbatim>\<open>quota_mem_alloc\<close> is never left alone: another thread is running in the module or holds
  quota that it will free.
\<close>

theorem quota_no_stall:
  assumes "quota_reach (\<lambda>n. n \<le> qsz) False T qsz s" and "finite T" and "card T < 2 ^ 64"
    and "t \<in> T" and "quota_pc s t = Waiting n"
  shows "\<exists>u \<in> T. active (quota_pc s u)"
proof -
  have "quota_inv T qsz s \<and> live_inv (\<lambda>n. n \<le> qsz) T s"
    using assms(1-3)
  proof (induction rule: quota_reach.induct)
    case init
    show ?case using quota_init_inv by (simp add: live_inv_def quota_mem_init_def)
  next
    case (step s s')
    then show ?case using live_step quota_step_inv by blast
  qed
  then show ?thesis using assms(4,5) by (auto simp: live_inv_def)
qed

text \<open>
  A run of two threads on a quota of 10: thread 0 takes all of it, thread 1 asks for 5 and
  blocks.
\<close>

definition demo_locked :: quota where
  "demo_locked = lock_as (goto (quota_mem_init 10) 0 (AllocEnter 10)) 0 (AllocLocked 10)"

definition demo_taken :: quota where
  "demo_taken = alloc_locked demo_locked 0 10"

definition demo_blocked :: quota where
  "demo_blocked = alloc_locked (lock_as (goto demo_taken 1 (AllocEnter 5)) 1 (AllocLocked 5)) 1 5"

definition demo_stalled :: quota where
  "demo_stalled = return_locked (lock_as (goto demo_blocked 0 (MallocFailed 10)) 0 (ReturnLocked 10)) 0 10"

lemmas demo_defs = demo_locked_def demo_taken_def demo_blocked_def demo_stalled_def quota_mem_init_def
  lock_as_def alloc_locked_def return_locked_def

lemma demo_locked_reach: "quota_reach (\<lambda>n. n \<le> 10) mf {0, 1} 10 demo_locked"
proof -
  have "quota_reach (\<lambda>n. n \<le> 10) mf {0, 1} 10 (goto (quota_mem_init 10) 0 (AllocEnter 10))"
    by (rule quota_reach.step [OF quota_reach.init call_alloc]) (simp_all add: demo_defs)
  then show ?thesis
    unfolding demo_locked_def by (rule quota_reach.step [OF _ alloc_lock]) (simp_all add: demo_defs)
qed

lemma demo_blocked_reach: "quota_reach (\<lambda>n. n \<le> 10) mf {0, 1} 10 demo_blocked"
proof -
  have "quota_reach (\<lambda>n. n \<le> 10) mf {0, 1} 10 demo_taken"
    unfolding demo_taken_def
    by (rule quota_reach.step [OF demo_locked_reach alloc_test]) (simp_all add: demo_defs)
  then have "quota_reach (\<lambda>n. n \<le> 10) mf {0, 1} 10 (goto demo_taken 1 (AllocEnter 5))"
    by (rule quota_reach.step [OF _ call_alloc]) (simp_all add: demo_defs)
  then have "quota_reach (\<lambda>n. n \<le> 10) mf {0, 1} 10 (lock_as (goto demo_taken 1 (AllocEnter 5)) 1 (AllocLocked 5))"
    by (rule quota_reach.step [OF _ alloc_lock]) (simp_all add: demo_defs)
  then show ?thesis
    unfolding demo_blocked_def by (rule quota_reach.step [OF _ alloc_test]) (simp_all add: demo_defs)
qed

lemma demo_stalled_reach: "quota_reach (\<lambda>n. n \<le> 10) True {0, 1} 10 demo_stalled"
proof -
  have "quota_reach (\<lambda>n. n \<le> 10) True {0, 1} 10 (goto demo_blocked 0 (MallocFailed 10))"
    by (rule quota_reach.step [OF demo_blocked_reach malloc_fail]) (simp_all add: demo_defs)
  then have "quota_reach (\<lambda>n. n \<le> 10) True {0, 1} 10
      (lock_as (goto demo_blocked 0 (MallocFailed 10)) 0 (ReturnLocked 10))"
    by (rule quota_reach.step [OF _ return_lock]) (simp_all add: demo_defs)
  then show ?thesis
    unfolding demo_stalled_def by (rule quota_reach.step [OF _ return_quota]) (simp_all add: demo_defs)
qed

text \<open>
  C36. When \<^verbatim>\<open>malloc\<close> fails, \<^verbatim>\<open>quota_mem_alloc\<close> gives the quota back without signalling, so
  a waiter can sleep for good: a state is reachable in which thread 1 waits for 5 bytes, all
  10 are free, nobody else is in the module, and nothing wakes it but a spurious wake-up or
  another client's later call.
\<close>

theorem quota_stall_after_malloc_failure:
  "\<exists>s. quota_reach (\<lambda>n. n \<le> 10) True {0, 1} 10 s \<and> quota_pc s 0 = Outside \<and>
       quota_pc s 1 = Waiting 5 \<and> quota_left s = 10 \<and> quota_waiters s = 1 \<and>
       (\<forall>s'. quota_step (\<lambda>n. n \<le> 10) True {0, 1} s s' \<longrightarrow>
          quota_pc s' 1 = Woken 5 \<or> (quota_pc s' 1 = Waiting 5 \<and> (\<exists>n. quota_pc s' 0 = AllocEnter n)))"
proof (intro exI conjI)
  show "quota_reach (\<lambda>n. n \<le> 10) True {0, 1} 10 demo_stalled" by (rule demo_stalled_reach)
  show pcs: "quota_pc demo_stalled 0 = Outside" "quota_pc demo_stalled 1 = Waiting 5"
    by (simp_all add: demo_defs)
  show "quota_left demo_stalled = 10" "quota_waiters demo_stalled = 1" by (simp_all add: demo_defs)
  show "\<forall>s'. quota_step (\<lambda>n. n \<le> 10) True {0, 1} demo_stalled s' \<longrightarrow>
      quota_pc s' 1 = Woken 5 \<or> (quota_pc s' 1 = Waiting 5 \<and> (\<exists>n. quota_pc s' 0 = AllocEnter n))"
    using pcs by (auto elim!: quota_stepE)
qed

section \<open>Witnesses\<close>


lemma quota_mutual_exclusion_witness:
  "has_mutex (quota_pc demo_locked 0) \<and> (0 :: nat) = 0"
  using quota_mutual_exclusion [OF demo_locked_reach [of True], of 0 0] by (simp add: demo_defs)

theorem quota_no_stall_witness:
  "quota_pc demo_blocked 1 = Waiting 5 \<and> (\<exists>u \<in> {0, 1}. active (quota_pc demo_blocked u))"
proof -
  have w: "quota_pc demo_blocked 1 = Waiting 5" by (simp add: demo_defs)
  show ?thesis using quota_no_stall [OF demo_blocked_reach _ _ _ w] w by simp
qed

theorem quota_stall_after_malloc_failure_witness:
  "\<exists>s. quota_reach (\<lambda>n. n \<le> 10) True {0, 1} 10 s \<and> quota_pc s 1 = Waiting 5 \<and> quota_left s = 10"
  using quota_stall_after_malloc_failure by blast

end
