(* ===== verification/Ct_World.thy ===== *)
theory Ct_World
  imports Growbuffer
begin

text \<open>
  What the copytool runs against. Open files are concrete (contents and position per descriptor,
  as POSIX has them), with a list of faults that makes a system call come up short or fail.
  Everything outside the repository, that is liblustreapi with the HSM coordinator behind it, libs3
  with the S3 server behind it, the clock and \<^verbatim>\<open>malloc\<close>, is an environment: a record
  of functions from the history of all interactions so far to the answer of the next one. Every
  interaction is an event of the history, so the theorems can speak about what was sent, to
  whom, how often and in which order. A libs3 request runs the callbacks the program registered: the
  environment says with which buffer sizes, data and status, as an arbitrary
  script.
\<close>

section \<open>Types of the Lustre interface\<close>

record lu_fid =
  f_seq :: u64
  f_oid :: u32
  f_ver :: u32

record hsm_extent =
  he_offset :: u64
  he_length :: u64

datatype hsm_action = HSMA_NONE | HSMA_ARCHIVE | HSMA_RESTORE | HSMA_REMOVE | HSMA_CANCEL

record hsm_action_item =
  hai_len :: u32
  hai_action :: hsm_action
  hai_fid :: lu_fid
  hai_dfid :: lu_fid
  hai_extent :: hsm_extent
  hai_cookie :: u64

text \<open>The statuses of libs3 the code names, and the rest; \<^verbatim>\<open>S3StatusOK\<close> is 0.\<close>

datatype S3Status = S3StatusOK | S3StatusAbortedByCallback | S3StatusErrorInternalError
  | S3StatusErrorInvalidRange | S3StatusErrorRequestTimeout | S3StatusOther nat

section \<open>Files\<close>

record ofile =
  f_data :: "byte list"
  f_pos :: nat
  f_reg :: bool

datatype fault = NoFault | Short nat | Fail

record os =
  os_files :: "int \<rightharpoonup> ofile"
  os_faults :: "fault list"
  os_closed :: "(int \<times> byte list) list"   \<comment> \<open>what closed files held, newest first\<close>

definition next_fault :: "os \<Rightarrow> fault \<times> os" where
  "next_fault w = (case os_faults w of [] \<Rightarrow> (NoFault, w) | f # fs \<Rightarrow> (f, w\<lparr>os_faults := fs\<rparr>))"

text \<open>\<^verbatim>\<open>read(2)\<close> and \<^verbatim>\<open>write(2)\<close>: the count (or -1), and for read the bytes.\<close>

definition sys_read :: "os \<Rightarrow> int \<Rightarrow> nat \<Rightarrow> int \<times> byte list \<times> os" where
  "sys_read w fd n =
     (let (ft, w') = next_fault w in
      case os_files w' fd of
        None \<Rightarrow> (-1, [], w')
      | Some f \<Rightarrow>
         (let want = take n (drop (f_pos f) (f_data f)) in
          case (case ft of NoFault \<Rightarrow> Some want | Short k \<Rightarrow> Some (take k want) | Fail \<Rightarrow> None) of
            None \<Rightarrow> (-1, [], w')
          | Some bs \<Rightarrow> (int (length bs), bs,
              w'\<lparr>os_files := (os_files w')(fd \<mapsto> f\<lparr>f_pos := f_pos f + length bs\<rparr>)\<rparr>)))"

definition write_at :: "nat \<Rightarrow> byte list \<Rightarrow> byte list \<Rightarrow> byte list" where
  "write_at pos bs d = take pos (d @ replicate (pos - length d) 0) @ bs @ drop (pos + length bs) d"

definition sys_write :: "os \<Rightarrow> int \<Rightarrow> byte list \<Rightarrow> int \<times> os" where
  "sys_write w fd bs =
     (let (ft, w') = next_fault w in
      case os_files w' fd of
        None \<Rightarrow> (-1, w')
      | Some f \<Rightarrow>
         (case (case ft of NoFault \<Rightarrow> Some bs | Short k \<Rightarrow> Some (take k bs) | Fail \<Rightarrow> None) of
            None \<Rightarrow> (-1, w')
          | Some cs \<Rightarrow> (int (length cs),
              w'\<lparr>os_files := (os_files w')(fd \<mapsto>
                   f\<lparr>f_data := write_at (f_pos f) cs (f_data f), f_pos := f_pos f + length cs\<rparr>)\<rparr>)))"

definition sys_lseek :: "os \<Rightarrow> int \<Rightarrow> nat \<Rightarrow> os" where
  "sys_lseek w fd pos =
     (case os_files w fd of None \<Rightarrow> w
      | Some f \<Rightarrow> w\<lparr>os_files := (os_files w)(fd \<mapsto> f\<lparr>f_pos := pos\<rparr>)\<rparr>)"

definition sys_close :: "os \<Rightarrow> int \<Rightarrow> os" where
  "sys_close w fd =
     (case os_files w fd of None \<Rightarrow> w
      | Some f \<Rightarrow> w\<lparr>os_files := (os_files w)(fd := None), os_closed := (fd, f_data f) # os_closed w\<rparr>)"

text \<open>\<^verbatim>\<open>fstat(2)\<close>: whether the file is regular, and its size.\<close>

definition sys_fstat :: "os \<Rightarrow> int \<Rightarrow> (bool \<times> u64) option \<times> os" where
  "sys_fstat w fd =
     (let (ft, w') = next_fault w in
      case (ft, os_files w' fd) of
        (Fail, _) \<Rightarrow> (None, w')
      | (_, None) \<Rightarrow> (None, w')
      | (_, Some f) \<Rightarrow> (Some (f_reg f, of_nat (length (f_data f))), w'))"

lemma next_fault_files [simp]: "next_fault w = (ft, w') \<Longrightarrow> os_files w' = os_files w"
  by (auto simp: next_fault_def split: list.splits)

lemma sys_read_full:
  assumes "sys_read w fd n = (int n, bs, w')"
  shows "\<exists>f. os_files w fd = Some f \<and> bs = take n (drop (f_pos f) (f_data f)) \<and> length bs = n \<and>
           os_files w' = (os_files w)(fd \<mapsto> f\<lparr>f_pos := f_pos f + n\<rparr>)"
proof -
  obtain ft v where v: "next_fault w = (ft, v)" by (cases "next_fault w") auto
  then have files: "os_files v = os_files w" by simp
  show ?thesis
    using assms v files
    by (auto simp: sys_read_def Let_def min_def split: option.splits fault.splits if_splits)
qed

lemma sys_read_keeps:
  assumes "sys_read w fd n = (ret, bs, w')" and "os_files w fd = Some f"
  shows "\<exists>p. os_files w' = (os_files w)(fd \<mapsto> f\<lparr>f_pos := p\<rparr>)"
proof -
  obtain ft v where v: "next_fault w = (ft, v)" by (cases "next_fault w") auto
  then have files: "os_files v = os_files w" by simp
  have "os_files w = (os_files w)(fd \<mapsto> f\<lparr>f_pos := f_pos f\<rparr>)" using assms(2) by auto
  then show ?thesis
    using assms v files
    by (auto simp: sys_read_def Let_def split: option.splits fault.splits intro: exI [of _ "f_pos f"])
qed

lemma sys_write_cases:
  assumes "sys_write w fd bs = (ret, w')" and "os_files w fd = Some f"
  shows "os_files w' = os_files w \<and> ret = - 1 \<or>
         (\<exists>k \<le> length bs. ret = int k \<and> os_files w' = (os_files w)(fd \<mapsto>
            f\<lparr>f_data := write_at (f_pos f) (take k bs) (f_data f), f_pos := f_pos f + k\<rparr>))"
proof -
  obtain ft v where v: "next_fault w = (ft, v)" by (cases "next_fault w") auto
  then have files: "os_files v = os_files w" by simp
  show ?thesis
  proof (cases ft)
    case NoFault
    then show ?thesis using assms v files by (auto simp: sys_write_def Let_def intro!: exI [of _ "length bs"])
  next
    case (Short k)
    then show ?thesis using assms v files
      by (auto simp: sys_write_def Let_def intro!: exI [of _ "min k (length bs)"] split: if_splits) (simp add: min_def)+
  next
    case Fail
    then show ?thesis using assms v files by (auto simp: sys_write_def Let_def)
  qed
qed

lemma write_at_append: "write_at (length d) bs d = d @ bs"
  by (simp add: write_at_def)

lemma length_write_at: "length (write_at pos bs d) = max (pos + length bs) (length d)"
  by (auto simp: write_at_def)

lemma write_at_over:
  "pos \<le> length d \<Longrightarrow> length d \<le> pos + length bs \<Longrightarrow> write_at pos bs d = take pos d @ bs"
  by (simp add: write_at_def)

lemma take_write_at: "pos \<le> length d \<Longrightarrow> take pos (write_at pos bs d) = take pos d"
  by (simp add: write_at_def)

section \<open>Interactions\<close>

datatype event =
    EvBegin lu_fid int int bool int           \<comment> \<open>llapi\_hsm\_action\_begin: fid, mdt, flags, is\_error, rc\<close>
  | EvEnd hsm_extent int int int              \<comment> \<open>llapi\_hsm\_action\_end: extent, hp\_flags, errval, rc\<close>
  | EvProgress hsm_extent u64 int             \<comment> \<open>llapi\_hsm\_action\_progress: extent, total, rc\<close>
  | EvCall string int                         \<comment> \<open>another library call, by name, and its result\<close>
  | EvTime int
  | EvQuotaAlloc u64 bool                     \<comment> \<open>quota\_mem\_alloc, and whether it gave memory\<close>
  | EvQuotaFree u64
  | EvClose int
  | EvPut string nat "byte list" S3Status     \<comment> \<open>S3\_put\_object: key, declared size, body, status\<close>
  | EvInit string string S3Status             \<comment> \<open>S3\_initiate\_multipart: key, upload id, status\<close>
  | EvPart string string nat nat "byte list" "string option" S3Status
                                              \<comment> \<open>S3\_upload\_part: key, upload id, seq, declared size, body, etag, status\<close>
  | EvCommit string string nat "byte list" S3Status
                                              \<comment> \<open>S3\_complete\_multipart\_upload: key, upload id, declared size, body, status\<close>
  | EvGet string u64 u64 S3Status             \<comment> \<open>S3\_get\_object: key, start byte, byte count, status\<close>
  | EvDelete string S3Status

type_synonym history = "event list"

text \<open>What libs3 hands to the callbacks of a get request, in order.\<close>

datatype get_reply = GetProperties nat "string option" | GetData "byte list"

text \<open>
  The environment. Histories are newest first. The answer to an upload is the sizes of the
  buffers libs3 offers to the data callback and, as a function of the body it collected that way,
  the outcome. The entries after \<open>e_gballoc\<close> are constants of the Lustre headers.
\<close>

record env =
  e_retryable :: "S3Status \<Rightarrow> bool"                         \<comment> \<open>S3\_status\_is\_retryable\<close>
  e_status_of_int :: "int \<Rightarrow> S3Status"                     \<comment> \<open>an int read as an S3Status\<close>
  e_put :: "history \<Rightarrow> string \<Rightarrow> nat \<Rightarrow> nat list \<times> (byte list \<Rightarrow> S3Status)"
  e_init :: "history \<Rightarrow> string \<Rightarrow> string \<times> S3Status"
  e_part :: "history \<Rightarrow> string \<Rightarrow> nat \<Rightarrow> nat \<Rightarrow> nat list \<times> (byte list \<Rightarrow> string option \<times> S3Status)"
  e_commit :: "history \<Rightarrow> string \<Rightarrow> nat \<Rightarrow> nat list \<times> (byte list \<Rightarrow> S3Status)"
  e_get :: "history \<Rightarrow> string \<Rightarrow> u64 \<Rightarrow> u64 \<Rightarrow> get_reply list \<times> S3Status"
  e_delete :: "history \<Rightarrow> string \<Rightarrow> S3Status"
  e_begin :: "history \<Rightarrow> lu_fid \<Rightarrow> int \<times> bool"            \<comment> \<open>rc, and whether *phcp was set\<close>
  e_end :: "history \<Rightarrow> int"
  e_progress :: "history \<Rightarrow> int"
  e_get_fd :: "history \<Rightarrow> int"
  e_get_dfid :: "history \<Rightarrow> int \<times> lu_fid"
  e_mdt_index :: "history \<Rightarrow> int \<times> int"
  e_fid2path :: "history \<Rightarrow> lu_fid \<Rightarrow> int \<times> string"
  e_getxattr :: "history \<Rightarrow> int"
  e_errno :: "history \<Rightarrow> int"                             \<comment> \<open>errno after a failed system call\<close>
  e_time :: "history \<Rightarrow> int"
  e_malloc :: "history \<Rightarrow> u64 \<Rightarrow> bool"
  e_gballoc :: allocator
  LLAPI_MSG_INFO :: int
  HP_FLAG_RETRY :: int
  dot_lustre_name :: string
  dfid_nobrace :: "lu_fid \<Rightarrow> string"                      \<comment> \<open>the format DFID\_NOBRACE\<close>

text \<open>
  What HTTP and S3 promise of an upload that is accepted: the server has received as many bytes
  as the request declared. A part that is accepted also has an entity tag.
\<close>

definition honest_put :: "env \<Rightarrow> bool" where
  "honest_put env \<longleftrightarrow> (\<forall>h key n body. snd (e_put env h key n) body = S3StatusOK \<longrightarrow> length body = n)"

definition honest_part :: "env \<Rightarrow> bool" where
  "honest_part env \<longleftrightarrow>
     (\<forall>h key seq n body. snd (snd (e_part env h key seq n) body) = S3StatusOK \<longrightarrow>
        length body = n \<and> fst (snd (e_part env h key seq n) body) \<noteq> None)"

lemma honest_putD: "honest_put env \<Longrightarrow> snd (e_put env h key n) body = S3StatusOK \<Longrightarrow> length body = n"
  by (auto simp: honest_put_def)

lemma honest_partD:
  "honest_part env \<Longrightarrow> snd (snd (e_part env h key seq n) body) = S3StatusOK \<Longrightarrow>
     length body = n \<and> fst (snd (e_part env h key seq n) body) \<noteq> None"
  by (auto simp: honest_part_def)

section \<open>The state of a worker\<close>

text \<open>
  The history, the open files, the error counter, and the growbuffer blocks the worker has
  allocated.
\<close>

record ct =
  hist :: history
  world :: os
  err_major :: int
  gbh :: gbheap

definition emit :: "event \<Rightarrow> ct \<Rightarrow> ct" where
  "emit e s = s\<lparr>hist := e # hist s\<rparr>"

lemma emit_simps [simp]:
  "hist (emit e s) = e # hist s" "world (emit e s) = world s" "err_major (emit e s) = err_major s"
  "gbh (emit e s) = gbh s"
  by (simp_all add: emit_def)

text \<open>
  An operation adds to the history, and only events of a certain kind.
\<close>

definition grows :: "(event \<Rightarrow> bool) \<Rightarrow> ct \<Rightarrow> ct \<Rightarrow> bool" where
  "grows P s s' \<longleftrightarrow> (\<exists>es. hist s' = es @ hist s \<and> (\<forall>e \<in> set es. P e))"

lemma grows_refl [simp, intro]: "grows P s s"
  by (simp add: grows_def)

lemma grows_trans [trans]: "grows P s s' \<Longrightarrow> grows P s' s'' \<Longrightarrow> grows P s s''"
  by (auto simp: grows_def)

lemma grows_emit [simp]: "P e \<Longrightarrow> grows P s s' \<Longrightarrow> grows P s (emit e s')"
  by (auto simp: grows_def intro: exI [of _ "e # es" for es])

lemma grows_mono: "grows P s s' \<Longrightarrow> (\<And>e. P e \<Longrightarrow> Q e) \<Longrightarrow> grows Q s s'"
  by (auto simp: grows_def)

lemma grows_world [simp]:
  "grows P s (s'\<lparr>world := w\<rparr>) = grows P s s'" "grows P (s\<lparr>world := w\<rparr>) s' = grows P s s'"
  "grows P s (s'\<lparr>err_major := n\<rparr>) = grows P s s'" "grows P (s\<lparr>err_major := n\<rparr>) s' = grows P s s'"
  "grows P s (s'\<lparr>gbh := g\<rparr>) = grows P s s'" "grows P (s\<lparr>gbh := g\<rparr>) s' = grows P s s'"
  by (simp_all add: grows_def)

lemma grows_set: "grows P s s' \<Longrightarrow> e \<in> set (hist s') \<Longrightarrow> \<not> P e \<Longrightarrow> e \<in> set (hist s)"
  by (auto simp: grows_def)

lemma grows_filter: "grows (\<lambda>e. \<not> Q e) s s' \<Longrightarrow> filter Q (hist s') = filter Q (hist s)"
  by (auto simp: grows_def filter_empty_conv)

text \<open>A call that only sends messages of a certain kind.\<close>

definition frame :: "(event \<Rightarrow> bool) \<Rightarrow> ct \<Rightarrow> ct \<Rightarrow> bool" where
  "frame P s s' \<longleftrightarrow> grows P s s' \<and> world s' = world s \<and> err_major s' = err_major s \<and> gbh s' = gbh s"

lemma frame_refl [simp, intro]: "frame P s s"
  by (simp add: frame_def)

lemma frame_trans [trans]: "frame P s s' \<Longrightarrow> frame P s' s'' \<Longrightarrow> frame P s s''"
  by (auto simp: frame_def intro: grows_trans)

lemma frame_emit [simp]: "P e \<Longrightarrow> frame P s s' \<Longrightarrow> frame P s (emit e s')"
  by (simp add: frame_def)

lemma frame_mono: "frame P s s' \<Longrightarrow> (\<And>e. P e \<Longrightarrow> Q e) \<Longrightarrow> frame Q s s'"
  by (auto simp: frame_def intro: grows_mono)

lemma frameD:
  assumes "frame P s s'"
  shows "grows P s s'" and "world s' = world s" and "err_major s' = err_major s" and "gbh s' = gbh s"
  using assms by (auto simp: frame_def)

text \<open>Completion messages to the coordinator; most operations send none.\<close>

fun is_end :: "event \<Rightarrow> bool" where
  "is_end (EvEnd ext fl v rc) = True"
| "is_end _ = False"

abbreviation no_end :: "event \<Rightarrow> bool" where
  "no_end e \<equiv> \<not> is_end e"

text \<open>The events of the three stages of an archive action: a put, the parts of an upload, its commit.\<close>

fun put_event :: "event \<Rightarrow> bool" where
  "put_event (EvCall f rc) = True"
| "put_event (EvTime t) = True"
| "put_event (EvProgress he n rc) = True"
| "put_event (EvQuotaAlloc n ok) = True"
| "put_event (EvQuotaFree n) = True"
| "put_event (EvPut k n body st) = True"
| "put_event _ = False"

fun part_event :: "event \<Rightarrow> bool" where
  "part_event (EvCall f rc) = True"
| "part_event (EvTime t) = True"
| "part_event (EvProgress he n rc) = True"
| "part_event (EvInit k uid st) = True"
| "part_event (EvPart k uid seq n body tag st) = True"
| "part_event _ = False"

fun commit_event :: "event \<Rightarrow> bool" where
  "commit_event (EvCommit k uid n body st) = True"
| "commit_event _ = False"

lemma stage_no_end: "put_event e \<Longrightarrow> no_end e" "part_event e \<Longrightarrow> no_end e" "commit_event e \<Longrightarrow> no_end e"
  by (cases e; simp)+

lemma is_end_map [simp]: "filter is_end (map (EvEnd ext fl v) rcs) = map (EvEnd ext fl v) rcs"
  "filter is_end (map (EvBegin f m fl' b) rcs) = []"
  by (induction rcs) auto

section \<open>An example environment\<close>

text \<open>
  A store that accepts what has the declared length, pulled byte by byte, and a coordinator that
  accepts everything. The theorems' witnesses use it or variations of it.
\<close>

definition demo_env :: env where
  "demo_env =
     \<lparr>e_retryable = (\<lambda>st. st \<noteq> S3StatusOK),
      e_status_of_int = (\<lambda>i. if i = 0 then S3StatusOK else S3StatusOther (nat i)),
      e_put = (\<lambda>h key n. (replicate n 1, \<lambda>body. if length body = n then S3StatusOK else S3StatusErrorRequestTimeout)),
      e_init = (\<lambda>h key. (''u1'', S3StatusOK)),
      e_part = (\<lambda>h key seq n. (replicate n 1, \<lambda>body. if length body = n then (Some ''e'', S3StatusOK)
                                 else (None, S3StatusErrorRequestTimeout))),
      e_commit = (\<lambda>h key n. (replicate n 1, \<lambda>body. S3StatusOK)),
      e_get = (\<lambda>h key start n. if unat start < 2
                 then (let r = take (unat n) (drop (unat start) [7, 8]) in ([GetProperties (length r) None, GetData r], S3StatusOK))
                 else ([], S3StatusErrorInvalidRange)),
      e_delete = (\<lambda>h key. S3StatusOK),
      e_begin = (\<lambda>h fid. (0, True)), e_end = (\<lambda>h. 0), e_progress = (\<lambda>h. 0), e_get_fd = (\<lambda>h. 3),
      e_get_dfid = (\<lambda>h. (0, \<lparr>f_seq = 9, f_oid = 9, f_ver = 9\<rparr>)), e_mdt_index = (\<lambda>h. (0, 0)),
      e_fid2path = (\<lambda>h fid. (0, ''a/b'')), e_getxattr = (\<lambda>h. 0), e_errno = (\<lambda>h. 5), e_time = (\<lambda>h. 0),
      e_malloc = (\<lambda>h n. True), e_gballoc = (\<lambda>h. if h 1 = None then Some (1, \<lambda>_. 0) else None),
      LLAPI_MSG_INFO = 5, HP_FLAG_RETRY = 1, dot_lustre_name = ''.lustre'', dfid_nobrace = (\<lambda>_. ''fid'')\<rparr>"

definition demo_fid :: lu_fid where
  "demo_fid = \<lparr>f_seq = 1, f_oid = 2, f_ver = 3\<rparr>"

definition demo_hai :: "hsm_action \<Rightarrow> hsm_action_item" where
  "demo_hai act = \<lparr>hai_len = 72, hai_action = act, hai_fid = demo_fid, hai_dfid = demo_fid,
                    hai_extent = \<lparr>he_offset = 0, he_length = - 1\<rparr>, hai_cookie = 5\<rparr>"

definition demo_ct :: "byte list \<Rightarrow> ct" where
  "demo_ct bs = \<lparr>hist = [], world = \<lparr>os_files = [3 \<mapsto> \<lparr>f_data = bs, f_pos = 0, f_reg = True\<rparr>], os_faults = [], os_closed = []\<rparr>,
                  err_major = 0, gbh = Map.empty\<rparr>"

lemma demo_honest: "honest_put demo_env" "honest_part demo_env"
  by (auto simp: honest_put_def honest_part_def demo_env_def split: if_splits)

end
