(* ===== verification/S3_Callback.thy ===== *)
theory S3_Callback
  imports Ct_World
begin

text \<open>
  \<^verbatim>\<open>s3_callback.c\<close> (and the handler tables of \<^verbatim>\<open>hsm_s3_utils.h\<close>): the callbacks libs3 runs
  while it performs a request. The data callbacks of an upload hand over the request body piece
  by piece; each of them is shown to be a byte source, so whatever buffer sizes libs3
  picks, the body it gets is the intended data from the front. The callbacks of a get write
  what arrives to the open file. The logging in the callbacks has no effect on the
  state and is left out.
\<close>

section \<open>Callback data\<close>

record put_object_callback_data =
  buffer_offset :: nat
  p_status :: S3Status
  p_buffer :: "byte list"
  p_gb :: addr
  contentLength :: nat
  originalContentLength :: nat
  totalContentLength :: nat
  totalOriginalContentLength :: nat
  noStatus :: int
  p_fd :: int
  file_name :: string
  file_offset :: nat

text \<open>\<^verbatim>\<open>memset(&data, 0, sizeof(put_object_callback_data))\<close>\<close>

definition zero_put_data :: put_object_callback_data where
  "zero_put_data =
     \<lparr>buffer_offset = 0, p_status = S3StatusOK, p_buffer = [], p_gb = NULL, contentLength = 0,
      originalContentLength = 0, totalContentLength = 0, totalOriginalContentLength = 0,
      noStatus = 0, p_fd = 0, file_name = [], file_offset = 0\<rparr>"

record get_object_callback_data =
  totalLength :: nat
  g_contentLength :: nat
  g_status :: S3Status
  md5 :: string
  g_fd :: int
  g_file_path :: string
  g_file_offset :: nat

type_synonym del_object_callback_data = S3Status

record UploadManager =
  upload_id :: "string option"
  etags :: "string option list"
  next_etags_pos :: nat
  um_gb :: addr
  remaining :: nat

section \<open>Data callbacks\<close>

text \<open>\<^verbatim>\<open>put_objectdata_callback\<close>: the next piece of the buffer.\<close>

definition put_objectdata_callback ::
  "nat \<Rightarrow> put_object_callback_data \<Rightarrow> (byte list \<times> put_object_callback_data) option" where
  "put_objectdata_callback bufferSize data =
     (if contentLength data \<noteq> 0 then
        (let size = (if contentLength data > bufferSize then bufferSize else contentLength data) in
         Some (take size (drop (buffer_offset data) (p_buffer data)),
               data\<lparr>buffer_offset := buffer_offset data + size,
                    contentLength := contentLength data - size\<rparr>))
      else Some ([], data))"

text \<open>
  \<^verbatim>\<open>multipart_put_objectdata_callback\<close>: the next piece of the file at its current position.
  A read that does not give all the bytes asked for counts as the end of the data. Descriptor
  0 aborts the process (\<open>None\<close>).
\<close>

definition multipart_put_objectdata_callback ::
  "nat \<Rightarrow> put_object_callback_data \<times> os \<Rightarrow> (byte list \<times> (put_object_callback_data \<times> os)) option" where
  "multipart_put_objectdata_callback bufferSize s =
     (case s of (data, w) \<Rightarrow>
       if contentLength data \<noteq> 0 then
         (let toRead = (if contentLength data > bufferSize then bufferSize else contentLength data) in
          if p_fd data \<noteq> 0 then
            (let (ret, bs, w') = sys_read w (p_fd data) toRead in
             if ret \<noteq> int toRead then Some ([], (data, w'))
             else Some (bs, (data\<lparr>file_offset := file_offset data + toRead,
                                contentLength := contentLength data - length bs,
                                totalContentLength := totalContentLength data - length bs\<rparr>, w')))
          else None)
       else Some ([], s))"

text \<open>\<^verbatim>\<open>multipart_commit_response_callback\<close>: the next piece of the commit document.\<close>

definition multipart_commit_response_callback ::
  "nat \<Rightarrow> UploadManager \<times> gbheap \<Rightarrow> (byte list \<times> (UploadManager \<times> gbheap)) option" where
  "multipart_commit_response_callback bufferSize s =
     (case s of (manager, h) \<Rightarrow>
       if remaining manager \<noteq> 0 then
         (let toRead = (if remaining manager > bufferSize then bufferSize else remaining manager) in
          case growbuffer_read h (um_gb manager) toRead of
            None \<Rightarrow> None
          | Some (bs, h', gb') \<Rightarrow>
             Some (bs, (manager\<lparr>um_gb := gb', remaining := remaining manager - length bs\<rparr>, h')))
       else Some ([], s))"

text \<open>
  \<^verbatim>\<open>get_objectdata_callback\<close>: write what arrived. The first component is what it returns to
  libs3.
\<close>

definition get_objectdata_callback ::
  "byte list \<Rightarrow> get_object_callback_data \<times> os \<Rightarrow> (S3Status \<times> get_object_callback_data \<times> os) option" where
  "get_objectdata_callback buffer s =
     (case s of (data, w) \<Rightarrow>
       if g_contentLength data = 0 then None
       else
         (let (wrote, w') = sys_write w (g_fd data) buffer in
          if wrote < int (length buffer)
          then Some (S3StatusAbortedByCallback, data\<lparr>g_status := S3StatusAbortedByCallback\<rparr>, w')
          else Some (S3StatusOK, data\<lparr>g_file_offset := g_file_offset data + nat wrote\<rparr>, w')))"

section \<open>Property and completion callbacks\<close>

definition s3_response_get_object_properties_callback ::
  "nat \<Rightarrow> string option \<Rightarrow> get_object_callback_data \<Rightarrow> get_object_callback_data" where
  "s3_response_get_object_properties_callback props_contentLength eTag data =
     (let data = data\<lparr>g_contentLength := props_contentLength\<rparr> in
      case eTag of None \<Rightarrow> data | Some e \<Rightarrow> data\<lparr>md5 := strncpy (md5 data) (tl e) 32\<rparr>)"

definition s3_get_response_complete_callback ::
  "S3Status \<Rightarrow> get_object_callback_data \<Rightarrow> get_object_callback_data" where
  "s3_get_response_complete_callback status data = data\<lparr>g_status := status\<rparr>"

definition s3_del_response_complete_callback ::
  "S3Status \<Rightarrow> del_object_callback_data \<Rightarrow> del_object_callback_data" where
  "s3_del_response_complete_callback status data = status"

definition s3_put_response_complete_callback ::
  "S3Status \<Rightarrow> put_object_callback_data \<Rightarrow> put_object_callback_data" where
  "s3_put_response_complete_callback status data = data\<lparr>p_status := status\<rparr>"

definition initial_multipart_response_callback :: "string \<Rightarrow> UploadManager \<Rightarrow> UploadManager" where
  "initial_multipart_response_callback uid manager =
     (if uid \<noteq> [] then manager\<lparr>upload_id := Some uid\<rparr> else manager)"

definition multipart_put_part_response_properies_callback ::
  "nat \<Rightarrow> string \<Rightarrow> UploadManager \<Rightarrow> UploadManager" where
  "multipart_put_part_response_properies_callback seq etag manager =
     manager\<lparr>etags := (etags manager)[seq - 1 := Some etag], next_etags_pos := seq\<rparr>"

definition multipart_put_response_complete_callback ::
  "S3Status \<Rightarrow> put_object_callback_data \<Rightarrow> put_object_callback_data" where
  "multipart_put_response_complete_callback status data = data\<lparr>p_status := status\<rparr>"

text \<open>
  The completion callbacks of initiate and commit only log: whatever the status, the manager is
  left as it is.
\<close>

definition multipart_init_response_complete_callback :: "S3Status \<Rightarrow> UploadManager \<Rightarrow> UploadManager" where
  "multipart_init_response_complete_callback status manager = manager"

definition multipart_commit_response_complete_callback :: "S3Status \<Rightarrow> UploadManager \<Rightarrow> UploadManager" where
  "multipart_commit_response_complete_callback status manager = manager"

definition s3_response_properties_callback :: "'d \<Rightarrow> S3Status" where
  "s3_response_properties_callback data = S3StatusOK"

section \<open>The upload callbacks are byte sources\<close>

definition put_pending :: "put_object_callback_data \<Rightarrow> byte list" where
  "put_pending d = take (contentLength d) (drop (buffer_offset d) (p_buffer d))"

definition put_inv :: "put_object_callback_data \<Rightarrow> bool" where
  "put_inv d \<longleftrightarrow> buffer_offset d + contentLength d \<le> length (p_buffer d)"

lemma length_put_pending: "put_inv d \<Longrightarrow> length (put_pending d) = contentLength d"
  by (simp add: put_pending_def put_inv_def)

lemma put_callback_spec:
  assumes "put_inv d"
  shows "\<exists>bs d'. put_objectdata_callback n d = Some (bs, d') \<and> put_inv d' \<and> bs @ put_pending d' = put_pending d \<and>
           length bs = min n (contentLength d) \<and> contentLength d' = contentLength d - length bs \<and>
           buffer_offset d' = buffer_offset d + length bs \<and> p_buffer d' = p_buffer d"
proof -
  let ?k = "min n (contentLength d)"
  have "take ?k (drop (buffer_offset d) (p_buffer d)) @
        take (contentLength d - ?k) (drop (buffer_offset d + ?k) (p_buffer d)) = put_pending d"
    using drop_take_append [of ?k "drop (buffer_offset d) (p_buffer d)" "contentLength d - ?k"]
    by (simp add: put_pending_def add.commute)
  then show ?thesis
    using assms by (auto simp: put_objectdata_callback_def put_inv_def put_pending_def Let_def min_def)
qed

interpretation putsrc: live_source put_objectdata_callback put_pending put_inv
proof unfold_locales
  fix n d bs d' assume inv: "put_inv d"
  note spec = put_callback_spec [OF inv, of n]
  show "put_objectdata_callback n d \<noteq> None" using spec by auto
  show "put_objectdata_callback n d = Some (bs, d') \<Longrightarrow> bs \<noteq> [] \<Longrightarrow>
      put_inv d' \<and> bs @ put_pending d' = put_pending d \<and> length bs \<le> n"
    using spec by auto
  show "0 < n \<Longrightarrow> put_pending d \<noteq> [] \<Longrightarrow> put_objectdata_callback n d = Some (bs, d') \<Longrightarrow> bs \<noteq> []"
    using spec length_put_pending [OF inv] by (cases "contentLength d = 0") auto
qed

text \<open>What an upload attempt leaves behind in the callback data.\<close>

lemma pull_put_after:
  assumes "put_inv d" and "pull_all put_objectdata_callback ns d = Some (bs, d')"
  shows "put_inv d' \<and> contentLength d' + length bs = contentLength d \<and>
         buffer_offset d' = buffer_offset d + length bs \<and> p_buffer d' = p_buffer d"
  using assms
proof (induction ns arbitrary: d bs)
  case Nil
  then show ?case by simp
next
  case (Cons n ns)
  obtain cs d1 where c: "put_objectdata_callback n d = Some (cs, d1)" "put_inv d1"
    "length cs = min n (contentLength d)" "contentLength d1 = contentLength d - length cs"
    "buffer_offset d1 = buffer_offset d + length cs" "p_buffer d1 = p_buffer d"
    using put_callback_spec [OF Cons.prems(1), of n] by blast
  show ?case
  proof (cases "cs = []")
    case True
    then show ?thesis using c Cons.prems by auto
  next
    case False
    then obtain rest where r: "pull_all put_objectdata_callback ns d1 = Some (rest, d')" "bs = cs @ rest"
      using Cons.prems(2) c(1) by auto
    then show ?thesis using Cons.IH [OF c(2) r(1)] c by auto
  qed
qed

text \<open>A part of a multipart upload: the bytes of the file from its current position.\<close>

definition mp_pending :: "put_object_callback_data \<times> os \<Rightarrow> byte list" where
  "mp_pending s =
     (case os_files (snd s) (p_fd (fst s)) of None \<Rightarrow> []
      | Some f \<Rightarrow> take (contentLength (fst s)) (drop (f_pos f) (f_data f)))"

definition mp_inv :: "put_object_callback_data \<times> os \<Rightarrow> bool" where
  "mp_inv s \<longleftrightarrow> p_fd (fst s) \<noteq> 0 \<and>
     (\<exists>f. os_files (snd s) (p_fd (fst s)) = Some f \<and> f_pos f + contentLength (fst s) \<le> length (f_data f))"

lemma mp_callback_front:
  assumes "mp_inv (d, w)" and "multipart_put_objectdata_callback n (d, w) = Some (bs, (d', w'))"
  shows "(bs \<noteq> [] \<longrightarrow> mp_inv (d', w') \<and> bs @ mp_pending (d', w') = mp_pending (d, w)) \<and>
         length bs \<le> n \<and> contentLength d' + length bs = contentLength d \<and> p_fd d' = p_fd d \<and> p_gb d' = p_gb d \<and>
         (\<forall>fd. fd \<noteq> p_fd d \<longrightarrow> os_files w' fd = os_files w fd) \<and>
         (\<exists>f f'. os_files w (p_fd d) = Some f \<and> os_files w' (p_fd d) = Some f' \<and> f_data f' = f_data f)"
proof (cases "contentLength d = 0")
  case True
  then show ?thesis using assms by (auto simp: multipart_put_objectdata_callback_def mp_inv_def)
next
  case False
  let ?k = "min n (contentLength d)"
  obtain f where f: "os_files w (p_fd d) = Some f" "f_pos f + contentLength d \<le> length (f_data f)" "p_fd d \<noteq> 0"
    using assms(1) by (auto simp: mp_inv_def)
  obtain ret cs v where rd: "sys_read w (p_fd d) ?k = (ret, cs, v)" by (cases "sys_read w (p_fd d) ?k") auto
  have run: "Some (bs, (d', w')) =
      (if ret \<noteq> int ?k then Some ([], (d, v))
       else Some (cs, (d\<lparr>file_offset := file_offset d + ?k, contentLength := contentLength d - length cs,
                        totalContentLength := totalContentLength d - length cs\<rparr>, v)))"
    using assms(2) False f(3) rd
    by (auto simp: multipart_put_objectdata_callback_def min_def Let_def split: if_splits)
  show ?thesis
  proof (cases "ret = int ?k")
    case True
    have "bs = take ?k (drop (f_pos f) (f_data f))" "length bs = ?k"
      "os_files w' = (os_files w)(p_fd d \<mapsto> f\<lparr>f_pos := f_pos f + ?k\<rparr>)"
      "contentLength d' = contentLength d - length bs" "p_fd d' = p_fd d" "p_gb d' = p_gb d"
      using run True sys_read_full [of w "p_fd d" ?k cs v] rd f(1) by auto
    moreover have "take ?k (drop (f_pos f) (f_data f)) @ take (contentLength d - ?k) (drop (f_pos f + ?k) (f_data f))
        = take (contentLength d) (drop (f_pos f) (f_data f))"
      using drop_take_append [of ?k "drop (f_pos f) (f_data f)" "contentLength d - ?k"]
      by (simp add: add.commute)
    ultimately show ?thesis using f by (auto simp: mp_inv_def mp_pending_def)
  next
    case False
    then show ?thesis using run sys_read_keeps [OF rd f(1)] f by auto
  qed
qed

interpretation mpsrc: byte_source multipart_put_objectdata_callback mp_pending mp_inv
proof unfold_locales
  fix n bs and s s' :: "put_object_callback_data \<times> os" assume inv: "mp_inv s"
  then show "multipart_put_objectdata_callback n s \<noteq> None"
    by (auto simp: multipart_put_objectdata_callback_def mp_inv_def Let_def split: prod.splits)
  show "multipart_put_objectdata_callback n s = Some (bs, s') \<Longrightarrow> bs \<noteq> [] \<Longrightarrow>
      mp_inv s' \<and> bs @ mp_pending s' = mp_pending s \<and> length bs \<le> n"
    using mp_callback_front [of "fst s" "snd s" n bs "fst s'" "snd s'"] inv by simp
qed

text \<open>Without faults a part is a live source.\<close>

definition mp_quiet :: "put_object_callback_data \<times> os \<Rightarrow> bool" where
  "mp_quiet s \<longleftrightarrow> mp_inv s \<and> os_faults (snd s) = []"

lemma toRead_min: "(if c > n then n else c) = min n (c :: nat)"
  by (simp add: min_def)

lemma mp_callback_quiet:
  assumes "mp_quiet (d, w)"
  shows "\<exists>bs d' w'. multipart_put_objectdata_callback n (d, w) = Some (bs, (d', w')) \<and>
           length bs = min n (contentLength d) \<and> os_faults w' = []"
proof -
  let ?k = "min n (contentLength d)"
  obtain f where f: "os_files w (p_fd d) = Some f" "f_pos f + contentLength d \<le> length (f_data f)"
    "p_fd d \<noteq> 0" "os_faults w = []"
    using assms by (auto simp: mp_quiet_def mp_inv_def)
  have len: "length (take ?k (drop (f_pos f) (f_data f))) = ?k" using f(2) by simp
  have "sys_read w (p_fd d) ?k = (int ?k, take ?k (drop (f_pos f) (f_data f)),
      w\<lparr>os_files := (os_files w)(p_fd d \<mapsto> f\<lparr>f_pos := f_pos f + ?k\<rparr>)\<rparr>)"
    using f len by (simp add: sys_read_def next_fault_def Let_def del: length_take length_drop)
  then show ?thesis
    using f len by (cases "contentLength d = 0")
      (simp_all add: multipart_put_objectdata_callback_def Let_def toRead_min del: length_take)
qed

interpretation mpquiet: live_source multipart_put_objectdata_callback mp_pending mp_quiet
proof unfold_locales
  fix n bs and s s' :: "put_object_callback_data \<times> os" assume inv: "mp_quiet s"
  then have i: "mp_inv s" by (simp add: mp_quiet_def)
  show "multipart_put_objectdata_callback n s \<noteq> None" using mpsrc.pull_returns [OF i] .
  assume run: "multipart_put_objectdata_callback n s = Some (bs, s')"
  have q: "length bs = min n (contentLength (fst s)) \<and> os_faults (snd s') = []"
    using mp_callback_quiet [of "fst s" "snd s" n] run inv by auto
  show "mp_quiet s' \<and> bs @ mp_pending s' = mp_pending s \<and> length bs \<le> n" if "bs \<noteq> []"
    using mpsrc.pull_front [OF i run that] q by (simp add: mp_quiet_def)
  show "bs \<noteq> []" if "0 < n" "mp_pending s \<noteq> []"
  proof -
    have "contentLength (fst s) \<noteq> 0" using that(2) by (auto simp: mp_pending_def split: option.splits)
    then show ?thesis using q that(1) by auto
  qed
qed

lemma pull_mp_after:
  assumes "mp_inv (d, w)" and "pull_all multipart_put_objectdata_callback ns (d, w) = Some (bs, (d', w'))"
  shows "contentLength d' + length bs = contentLength d \<and> p_fd d' = p_fd d \<and> p_gb d' = p_gb d \<and>
         (\<forall>fd. fd \<noteq> p_fd d \<longrightarrow> os_files w' fd = os_files w fd) \<and>
         map_option f_data (os_files w' (p_fd d)) = map_option f_data (os_files w (p_fd d))"
  using assms
proof (induction ns arbitrary: d w bs)
  case Nil
  then show ?case by simp
next
  case (Cons n ns)
  obtain cs d1 w1 where c: "multipart_put_objectdata_callback n (d, w) = Some (cs, (d1, w1))"
    using mpsrc.pull_returns [OF Cons.prems(1), of n] by fastforce
  note f = mp_callback_front [OF Cons.prems(1) c]
  show ?case
  proof (cases "cs = []")
    case True
    then show ?thesis using c f Cons.prems(2) by auto
  next
    case False
    then obtain rest where r: "pull_all multipart_put_objectdata_callback ns (d1, w1) = Some (rest, (d', w'))"
      "bs = cs @ rest" using Cons.prems(2) c by auto
    have "mp_inv (d1, w1)" using f False by simp
    from Cons.IH [OF this r(1)] show ?thesis using f r(2) by auto
  qed
qed

lemma pull_mp_quiet:
  assumes "mp_quiet (d, w)" and "pull_all multipart_put_objectdata_callback ns (d, w) = Some (bs, (d', w'))"
  shows "os_faults w' = []"
  using assms
proof (induction ns arbitrary: d w bs)
  case Nil
  then show ?case by (simp add: mp_quiet_def)
next
  case (Cons n ns)
  obtain cs d1 w1 where c: "multipart_put_objectdata_callback n (d, w) = Some (cs, (d1, w1))" "os_faults w1 = []"
    using mp_callback_quiet [OF Cons.prems(1), of n] by blast
  show ?case
  proof (cases "cs = []")
    case True
    then show ?thesis using c Cons.prems(2) by simp
  next
    case False
    then obtain rest where r: "pull_all multipart_put_objectdata_callback ns (d1, w1) = Some (rest, (d', w'))"
      using Cons.prems(2) c(1) by auto
    then show ?thesis using Cons.IH mpquiet.pull_front [OF Cons.prems(1) c(1) False] by blast
  qed
qed

text \<open>The commit document, with the blocks of the growbuffer as a ghost.\<close>

definition commit_pull ::
  "nat \<Rightarrow> UploadManager \<times> gbheap \<times> addr list \<Rightarrow> (byte list \<times> (UploadManager \<times> gbheap \<times> addr list)) option" where
  "commit_pull n s =
     (case s of (m, h, as) \<Rightarrow>
        map_option (\<lambda>(bs, (m', h')). (bs, (m', h', if um_gb m' = um_gb m then as else tl as)))
          (multipart_commit_response_callback n (m, h)))"

definition commit_pending :: "UploadManager \<times> gbheap \<times> addr list \<Rightarrow> byte list" where
  "commit_pending s = take (remaining (fst s)) (contents (fst (snd s)) (snd (snd s)))"

definition commit_inv :: "UploadManager \<times> gbheap \<times> addr list \<Rightarrow> bool" where
  "commit_inv s \<longleftrightarrow> gb_inv (fst (snd s), um_gb (fst s), snd (snd s)) \<and>
     remaining (fst s) \<le> length (contents (fst (snd s)) (snd (snd s)))"

lemma commit_pull_spec:
  assumes "commit_inv (m, h, as)"
  shows "\<exists>bs m' h' as'. commit_pull n (m, h, as) = Some (bs, (m', h', as')) \<and> commit_inv (m', h', as') \<and>
           bs @ commit_pending (m', h', as') = commit_pending (m, h, as) \<and> length bs \<le> n \<and>
           remaining m' + length bs = remaining m \<and> upload_id m' = upload_id m \<and>
           (0 < n \<longrightarrow> remaining m \<noteq> 0 \<longrightarrow> bs \<noteq> []) \<and> (dom h = set as \<longrightarrow> dom h' = set as')"
proof (cases "remaining m = 0")
  case True
  then show ?thesis using assms by (simp add: commit_pull_def multipart_commit_response_callback_def)
next
  case False
  let ?k = "min n (remaining m)"
  have g: "gb_inv (h, um_gb m, as)" and len: "remaining m \<le> length (contents h as)"
    using assms by (auto simp: commit_inv_def)
  obtain out h' gb' as' where r: "gb_pull ?k (h, um_gb m, as) = Some (out, h', gb', as')"
    "taken h as out h' gb' as'" "length out \<le> ?k" "0 < ?k \<longrightarrow> contents h as \<noteq> [] \<longrightarrow> out \<noteq> []"
    using gb_pull_taken [OF g, of ?k] by (elim exE conjE) (rule that)
  then obtain rd: "growbuffer_read h (um_gb m) ?k = Some (out, h', gb')"
    and as': "as' = (if gb' = um_gb m then as else tl as)"
    by (auto simp: gb_pull_def)
  have c: "contents h as = out @ contents h' as'" "gb_inv (h', gb', as')"
    using r(2) by (auto simp: taken_def gb_inv_def)
  let ?m = "m\<lparr>um_gb := gb', remaining := remaining m - length out\<rparr>"
  have run: "commit_pull n (m, h, as) = Some (out, (?m, h', as'))"
    using rd False as' by (simp add: commit_pull_def multipart_commit_response_callback_def Let_def toRead_min)
  have "commit_inv (?m, h', as')" using c len r(3) by (simp add: commit_inv_def)
  moreover have "out @ commit_pending (?m, h', as') = commit_pending (m, h, as)"
    using c(1) r(3) by (simp add: commit_pending_def)
  moreover have "contents h as \<noteq> []" using len False by auto
  moreover have "dom h = set as \<longrightarrow> dom h' = set as'"
    using r(2) taken_dom by blast
  ultimately show ?thesis using run r(3,4) False
    by (intro exI [of _ out] exI [of _ ?m] exI [of _ h'] exI [of _ as'] conjI) auto
qed

interpretation commitsrc: live_source commit_pull commit_pending commit_inv
proof unfold_locales
  fix n bs and s s' :: "UploadManager \<times> gbheap \<times> addr list" assume inv: "commit_inv s"
  obtain m h as where s: "s = (m, h, as)" by (cases s) auto
  note spec = commit_pull_spec [of m h as n]
  show "commit_pull n s \<noteq> None" using spec inv s by auto
  show "commit_pull n s = Some (bs, s') \<Longrightarrow> bs \<noteq> [] \<Longrightarrow>
      commit_inv s' \<and> bs @ commit_pending s' = commit_pending s \<and> length bs \<le> n"
    using spec inv s by auto
  show "0 < n \<Longrightarrow> commit_pending s \<noteq> [] \<Longrightarrow> commit_pull n s = Some (bs, s') \<Longrightarrow> bs \<noteq> []"
    using spec inv s by (auto simp: commit_pending_def)
qed

lemma pull_commit_ghost:
  "pull_all multipart_commit_response_callback ns (m, h) =
     map_option (\<lambda>(bs, (m', h', as')). (bs, (m', h'))) (pull_all commit_pull ns (m, h, as))"
proof (induction ns arbitrary: m h as)
  case Nil
  then show ?case by simp
next
  case (Cons n ns)
  show ?case
  proof (cases "multipart_commit_response_callback n (m, h)")
    case None
    then show ?thesis by (simp add: commit_pull_def)
  next
    case (Some r)
    then obtain bs m1 h1 where r: "multipart_commit_response_callback n (m, h) = Some (bs, (m1, h1))"
      by (cases r) auto
    have g: "commit_pull n (m, h, as) = Some (bs, (m1, h1, if um_gb m1 = um_gb m then as else tl as))"
      by (simp add: commit_pull_def r)
    show ?thesis
      using Cons.IH [of m1 h1 "if um_gb m1 = um_gb m then as else tl as"]
      by (cases "bs = []") (auto simp: r g option.map_comp comp_def split_beta intro: option.map_cong)
  qed
qed

lemma pull_commit_after:
  assumes "commit_inv (m, h, as)" and "pull_all multipart_commit_response_callback ns (m, h) = Some (bs, (m', h'))"
  shows "remaining m' + length bs = remaining m \<and> upload_id m' = upload_id m \<and>
         (\<exists>as'. commit_inv (m', h', as') \<and> bs @ commit_pending (m', h', as') = commit_pending (m, h, as) \<and>
            (dom h = set as \<longrightarrow> dom h' = set as'))"
  using assms
proof (induction ns arbitrary: m h as bs)
  case Nil
  then show ?case by auto
next
  case (Cons n ns)
  obtain cs m1 h1 as1 where c: "commit_pull n (m, h, as) = Some (cs, (m1, h1, as1))" "commit_inv (m1, h1, as1)"
    "cs @ commit_pending (m1, h1, as1) = commit_pending (m, h, as)" "remaining m1 + length cs = remaining m"
    "upload_id m1 = upload_id m" "dom h = set as \<longrightarrow> dom h1 = set as1"
    using commit_pull_spec [OF Cons.prems(1), of n] by blast
  then have run: "multipart_commit_response_callback n (m, h) = Some (cs, (m1, h1))"
    by (auto simp: commit_pull_def)
  show ?case
  proof (cases "cs = []")
    case True
    then show ?thesis using run c Cons.prems(2) by auto
  next
    case False
    then obtain rest where r: "pull_all multipart_commit_response_callback ns (m1, h1) = Some (rest, (m', h'))"
      "bs = cs @ rest" using Cons.prems(2) run by auto
    obtain as' where IH: "remaining m' + length rest = remaining m1" "upload_id m' = upload_id m1"
      "commit_inv (m', h', as')" "rest @ commit_pending (m', h', as') = commit_pending (m1, h1, as1)"
      "dom h1 = set as1 \<longrightarrow> dom h' = set as'"
      using Cons.IH [OF c(2) r(1)] by blast
    have "bs @ commit_pending (m', h', as') = commit_pending (m, h, as)" using IH(4) c(3) r(2) by simp
    then show ?thesis using IH(1-3,5) c(4-6) r(2) by auto
  qed
qed

end
