(* ===== verification/Ct_Common.thy ===== *)
theory Ct_Common
  imports S3_Callback
begin

unbundle bit_operations_syntax

text \<open>
  \<^verbatim>\<open>ct_common.c\<close>, the part every HSM action uses: the options, the archive names, the
  wrappers that resend a message to the coordinator, and the begin and end of an action. The
  coordinator calls are events of the history, so the theorems say how often, with which
  arguments and until when a message is sent. The daemon loop and the signal handler of the same file
  are in theory \<^verbatim>\<open>Daemon\<close>, the dispatch of an item in \<^verbatim>\<open>Dispatch\<close>.
\<close>

section \<open>Options and constants\<close>

record ct_options =
  o_copy_attrs :: int
  o_daemonize :: int
  o_dry_run :: int
  o_abort_on_error :: int
  o_verbose :: int
  o_archive_cnt :: int
  o_archive_id :: "int list"
  o_report_int :: int
  o_config :: "string option"
  o_mnt :: string
  o_mnt_fd :: int

definition MAX_OBJ_SIZE_LEVEL :: u64 where "MAX_OBJ_SIZE_LEVEL = 256 * 1024 * 1024"
definition CHUNK_SIZE :: u64 where "CHUNK_SIZE = 16 * 1024 * 1024"
definition CHUNK_SIZE_MAX :: u64 where "CHUNK_SIZE_MAX = 5 * 1024 * 1024 * 1024"
definition MAX_HSM_REQUESTS :: int where "MAX_HSM_REQUESTS = 100"
definition REPORT_INTERVAL_DEFAULT :: int where "REPORT_INTERVAL_DEFAULT = 30"
definition RETRYCOUNT :: nat where "RETRYCOUNT = 5"
definition PATH_MAX :: nat where "PATH_MAX = 4096"

section \<open>Names\<close>

definition hexdigit :: "nat \<Rightarrow> char" where
  "hexdigit n = ''0123456789abcdef'' ! n"

text \<open>\<^verbatim>\<open>%0kx\<close> of a number below \<open>16 ^ k\<close>\<close>

primrec hex_digits :: "nat \<Rightarrow> nat \<Rightarrow> string" where
  "hex_digits 0 n = []"
| "hex_digits (Suc k) n = hex_digits k (n div 16) @ [hexdigit (n mod 16)]"

definition ct_path_archive :: "nat \<Rightarrow> lu_fid \<Rightarrow> int \<times> string" where
  "ct_path_archive sz fid =
     snprintf sz (hex_digits 16 (unat (f_seq fid)) @ ''_'' @ hex_digits 8 (unat (f_oid fid)) @ ''_''
                  @ hex_digits 8 (unat (f_ver fid)))"

definition ct_path_lustre :: "env \<Rightarrow> nat \<Rightarrow> string \<Rightarrow> lu_fid \<Rightarrow> int \<times> string" where
  "ct_path_lustre env sz mnt fid =
     snprintf sz (mnt @ ''/'' @ dot_lustre_name env @ ''/fid/'' @ dfid_nobrace env fid)"

section \<open>Messages to the coordinator\<close>

text \<open>
  One round of a \<^verbatim>\<open>msg_resend\<close> loop: make the call, record it, ask whether to send again.
\<close>

definition call_once :: "('a \<Rightarrow> history \<Rightarrow> 'a) \<Rightarrow> ('a \<Rightarrow> event) \<Rightarrow> ('a \<Rightarrow> bool) \<Rightarrow> 'a \<times> ct \<Rightarrow> bool \<times> ('a \<times> ct)" where
  "call_once ask ev failed st =
     (let a = ask (fst st) (hist (snd st)) in (failed a, (a, emit (ev a) (snd st))))"

definition max_retry :: int where "max_retry = 5"

definition llapi_hsm_action_progress_ex :: "env \<Rightarrow> hsm_extent \<Rightarrow> u64 \<Rightarrow> ct \<Rightarrow> int \<times> ct" where
  "llapi_hsm_action_progress_ex env he total_len s =
     resend (call_once (\<lambda>_. e_progress env) (EvProgress he total_len) (\<lambda>rc. rc \<noteq> 0)) max_retry (0, s)"

text \<open>The state of a begin is the result and whether \<^verbatim>\<open>*phcp\<close> is set.\<close>

definition llapi_hsm_action_begin_ex ::
  "env \<Rightarrow> bool \<Rightarrow> hsm_action_item \<Rightarrow> int \<Rightarrow> int \<Rightarrow> bool \<Rightarrow> ct \<Rightarrow> (int \<times> bool) \<times> ct" where
  "llapi_hsm_action_begin_ex env hcp hai restore_mdt_index restore_open_flags is_error s =
     resend (call_once (\<lambda>st h. (fst (e_begin env h (hai_fid hai)), snd st \<or> snd (e_begin env h (hai_fid hai))))
               (\<lambda>st. EvBegin (hai_fid hai) restore_mdt_index restore_open_flags is_error (fst st))
               (\<lambda>st. fst st \<noteq> 0)) max_retry ((0, hcp), s)"

definition ct_begin_restore :: "env \<Rightarrow> bool \<Rightarrow> hsm_action_item \<Rightarrow> int \<Rightarrow> int \<Rightarrow> ct \<Rightarrow> (int \<times> bool) \<times> ct" where
  "ct_begin_restore env hcp hai mdt_index open_flags s =
     llapi_hsm_action_begin_ex env hcp hai mdt_index open_flags False s"

definition ct_begin :: "env \<Rightarrow> bool \<Rightarrow> hsm_action_item \<Rightarrow> ct \<Rightarrow> (int \<times> bool) \<times> ct" where
  "ct_begin env hcp hai s = ct_begin_restore env hcp hai (-1) 0 s"

definition ct_is_retryable :: "int \<Rightarrow> bool" where
  "ct_is_retryable err \<longleftrightarrow> err = - ETIMEDOUT"

text \<open>The \<^verbatim>\<open>msg_resend\<close> loop of \<^verbatim>\<open>ct_action_done\<close>; a cancelled action is not sent again.\<close>

definition action_end_ex :: "env \<Rightarrow> hsm_action_item \<Rightarrow> int \<Rightarrow> int \<Rightarrow> ct \<Rightarrow> int \<times> ct" where
  "action_end_ex env hai hp_flags errval s =
     resend (call_once (\<lambda>_. e_end env) (EvEnd (hai_extent hai) hp_flags errval)
               (\<lambda>rc. rc \<noteq> 0 \<and> rc \<noteq> - ECANCELED)) max_retry (0, s)"

definition ct_action_done :: "env \<Rightarrow> bool \<Rightarrow> hsm_action_item \<Rightarrow> int \<Rightarrow> int \<Rightarrow> ct \<Rightarrow> int \<times> ct" where
  "ct_action_done env hcp hai hp_flags ct_rc s =
     (if \<not> hcp then
        (let ((rc, _), s) = llapi_hsm_action_begin_ex env False hai (-1) 0 True s in
         if rc < 0 then (rc, s) else action_end_ex env hai hp_flags \<bar>ct_rc\<bar> s)
      else action_end_ex env hai hp_flags \<bar>ct_rc\<bar> s)"

section \<open>Striping information\<close>

text \<open>
  \<^verbatim>\<open>ct_save_stripe\<close>: only whether the extended attribute can be read matters to its callers
  (the two values it stores are never used); the result of \<^verbatim>\<open>fgetxattr\<close> is the size, or
  \<open>-errno\<close>.
\<close>

definition ct_save_stripe :: "env \<Rightarrow> ct \<Rightarrow> int \<times> ct" where
  "ct_save_stripe env s =
     (let xattr_size = e_getxattr env (hist s); s = emit (EvCall ''fgetxattr'' xattr_size) s in
      if xattr_size < 0 then (xattr_size, s) else (0, s))"

section \<open>Setup and cleanup\<close>

text \<open>
  \<^verbatim>\<open>ct_setup\<close>: the results of \<^verbatim>\<open>llapi_search_fsname\<close> and \<^verbatim>\<open>open\<close> are arguments
  (\<open>-errno\<close> when they fail).
\<close>

definition ct_setup :: "int \<Rightarrow> int \<Rightarrow> ct_options \<Rightarrow> int \<times> ct_options" where
  "ct_setup search_rc open_rc opt =
     (if search_rc < 0 then (search_rc, opt)
      else
        (let opt = opt\<lparr>o_mnt_fd := (if open_rc < 0 then -1 else open_rc)\<rparr> in
         if o_mnt_fd opt < 0 then (open_rc, opt) else (search_rc, opt)))"

definition ct_cleanup :: "int \<Rightarrow> ct_options \<Rightarrow> int" where
  "ct_cleanup close_rc opt =
     (if o_mnt_fd opt \<ge> 0 then (if close_rc < 0 then close_rc else 0) else 0)"

section \<open>Resend loops\<close>

lemma resend_calls_aux:
  assumes "resend (call_once ask ev failed) (int k - 1) (a, s) = (a', s')"
  shows "\<exists>as. as \<noteq> [] \<and> hd as = a' \<and> length as \<le> k + 1 \<and> hist s' = map ev as @ hist s \<and>
           world s' = world s \<and> err_major s' = err_major s \<and> gbh s' = gbh s \<and> (\<forall>x \<in> set (tl as). failed x) \<and>
           (failed a' \<longrightarrow> length as = k + 1)"
  using assms
proof (induction k arbitrary: a s)
  case 0
  then have "a' = ask a (hist s)" "s' = emit (ev a') s"
    by (auto simp: resend_neg call_once_def Let_def)
  then show ?case by (intro exI [of _ "[a']"]) simp
next
  case (Suc k)
  let ?b = "ask a (hist s)"
  have r: "resend (call_once ask ev failed) (int (Suc k) - 1) (a, s) =
      (if failed ?b then resend (call_once ask ev failed) (int k - 1) (?b, emit (ev ?b) s)
       else (?b, emit (ev ?b) s))"
    by (subst resend_nonneg) (simp_all add: call_once_def Let_def)
  show ?case
  proof (cases "failed ?b")
    case True
    then obtain as where "as \<noteq> []" "hd as = a'" "length as \<le> k + 1" "hist s' = map ev as @ ev ?b # hist s"
      "world s' = world s" "err_major s' = err_major s \<and> gbh s' = gbh s"
      "\<forall>x \<in> set (tl as). failed x"
      "failed a' \<longrightarrow> length as = k + 1"
      using Suc.IH [of ?b "emit (ev ?b) s"] Suc.prems r by auto
    then show ?thesis using True by (intro exI [of _ "as @ [?b]"]) auto
  next
    case False
    then have "a' = ?b" "s' = emit (ev ?b) s" using Suc.prems r by auto
    then show ?thesis using False by (intro exI [of _ "[?b]"]) simp
  qed
qed

text \<open>
  What a resend loop with \<^verbatim>\<open>max_retry = 5\<close> does: between one and seven calls, each recorded,
  all but the last one failed, and the last one succeeded unless all seven were used.
\<close>

lemma resend_calls:
  assumes "resend (call_once ask ev failed) max_retry (a, s) = (a', s')"
  shows "\<exists>as. as \<noteq> [] \<and> hd as = a' \<and> length as \<le> 7 \<and> hist s' = map ev as @ hist s \<and>
           world s' = world s \<and> err_major s' = err_major s \<and> gbh s' = gbh s \<and> (\<forall>x \<in> set (tl as). failed x) \<and>
           (failed a' \<longrightarrow> length as = 7)"
  using resend_calls_aux [of ask ev failed 6 a s a' s'] assms by (simp add: max_retry_def)

lemma progress_frame:
  assumes "llapi_hsm_action_progress_ex env he n s = (rc, s')"
  shows "frame (\<lambda>e. \<exists>rc. e = EvProgress he n rc) s s'"
  using resend_calls [OF assms [unfolded llapi_hsm_action_progress_ex_def]] by (auto simp: frame_def grows_def)

lemma begin_frame:
  assumes "llapi_hsm_action_begin_ex env hcp hai mdt fl err s = ((rc, hcp'), s')"
  shows "frame (\<lambda>e. \<exists>rc. e = EvBegin (hai_fid hai) mdt fl err rc) s s'"
  using resend_calls [OF assms [unfolded llapi_hsm_action_begin_ex_def]] by (auto simp: frame_def grows_def)

lemma stripe_frame:
  assumes "ct_save_stripe env s = (rc, s')"
  shows "frame (\<lambda>e. \<exists>rc. e = EvCall ''fgetxattr'' rc) s s'"
  using assms by (auto simp: ct_save_stripe_def Let_def split: if_splits)

lemma action_end_frame:
  assumes "action_end_ex env hai fl v s = (rc, s')"
  shows "frame (\<lambda>e. \<exists>rc. e = EvEnd (hai_extent hai) fl v rc) s s'"
  using resend_calls [OF assms [unfolded action_end_ex_def]] by (auto simp: frame_def grows_def)

lemma no_end_frames:
  "llapi_hsm_action_progress_ex env he n s = (rc, s') \<Longrightarrow> frame no_end s s'"
  "llapi_hsm_action_begin_ex env hcp hai mdt fl err s = ((rb, hcp'), s'') \<Longrightarrow> frame no_end s s''"
  "ct_save_stripe env s = (rx, s3) \<Longrightarrow> frame no_end s s3"
  by (auto elim!: frame_mono [OF progress_frame] frame_mono [OF begin_frame] frame_mono [OF stripe_frame])

lemma stage_frames:
  "llapi_hsm_action_progress_ex env he n s = (rc, s') \<Longrightarrow> frame put_event s s' \<and> frame part_event s s'"
  "ct_save_stripe env s = (rx, s3) \<Longrightarrow> frame put_event s s3 \<and> frame part_event s s3"
  by (auto elim!: frame_mono [OF progress_frame] frame_mono [OF stripe_frame])

text \<open>Messages to the coordinator about the begin or the end of an action.\<close>

fun is_notice :: "event \<Rightarrow> bool" where
  "is_notice (EvBegin f m fl e rc) = True"
| "is_notice (EvEnd ext fl v rc) = True"
| "is_notice _ = False"

lemma action_done_frame:
  assumes "ct_action_done env hcp hai fl ct_rc s = (rc, s')"
  shows "frame is_notice s s'"
proof -
  obtain rb hb u where b: "llapi_hsm_action_begin_ex env False hai (-1) 0 True s = ((rb, hb), u)"
    by (cases "llapi_hsm_action_begin_ex env False hai (-1) 0 True s") auto
  have fb: "frame is_notice s u" using begin_frame [OF b] by (rule frame_mono) auto
  have fe: "frame is_notice v v'" if "action_end_ex env hai fl \<bar>ct_rc\<bar> v = (r, v')" for r v v'
    using action_end_frame [OF that] by (rule frame_mono) auto
  show ?thesis using assms b fb fe frame_trans [OF fb]
    by (auto simp: ct_action_done_def split: if_splits)
qed

section \<open>Theorems\<close>

lemma action_done_spec:
  assumes "ct_action_done env hcp hai hp_flags ct_rc s = (rc, s')"
  shows "\<exists>begins ends.
    hist s' = map (EvEnd (hai_extent hai) hp_flags \<bar>ct_rc\<bar>) ends @
              map (EvBegin (hai_fid hai) (-1) 0 True) begins @ hist s \<and>
    length begins \<le> 7 \<and> length ends \<le> 7 \<and> (begins = [] \<longleftrightarrow> hcp) \<and>
    (ends = [] \<longrightarrow> \<not> hcp \<and> rc < 0 \<and> hd begins = rc \<and> length begins = 7) \<and>
    (ends \<noteq> [] \<longrightarrow> rc = hd ends \<and> (\<forall>r \<in> set (tl ends). r \<noteq> 0 \<and> r \<noteq> - ECANCELED) \<and>
       (rc \<noteq> 0 \<and> rc \<noteq> - ECANCELED \<longrightarrow> length ends = 7))"
proof -
  have ends: "\<exists>ends. ends \<noteq> [] \<and> hd ends = r \<and> length ends \<le> 7 \<and>
      hist u' = map (EvEnd (hai_extent hai) hp_flags \<bar>ct_rc\<bar>) ends @ hist u \<and>
      (\<forall>x \<in> set (tl ends). x \<noteq> 0 \<and> x \<noteq> - ECANCELED) \<and>
      (r \<noteq> 0 \<and> r \<noteq> - ECANCELED \<longrightarrow> length ends = 7)"
    if "action_end_ex env hai hp_flags \<bar>ct_rc\<bar> u = (r, u')" for r u u'
    using resend_calls [OF that [unfolded action_end_ex_def]] by blast
  show ?thesis
  proof (cases hcp)
    case True
    then show ?thesis using assms ends [of s rc s'] by (auto simp: ct_action_done_def)
  next
    case False
    obtain rb hb u where b: "llapi_hsm_action_begin_ex env False hai (-1) 0 True s = ((rb, hb), u)"
      by (cases "llapi_hsm_action_begin_ex env False hai (-1) 0 True s") auto
    obtain sts where sts: "sts \<noteq> []" "hd sts = (rb, hb)" "length sts \<le> 7"
      "hist u = map (\<lambda>st. EvBegin (hai_fid hai) (-1) 0 True (fst st)) sts @ hist s" "rb \<noteq> 0 \<longrightarrow> length sts = 7"
      using resend_calls [OF b [unfolded llapi_hsm_action_begin_ex_def]] by auto
    have bg: "map fst sts \<noteq> []" "hd (map fst sts) = rb" "length (map fst sts) \<le> 7"
      "hist u = map (EvBegin (hai_fid hai) (-1) 0 True) (map fst sts) @ hist s"
      "rb \<noteq> 0 \<longrightarrow> length (map fst sts) = 7"
      using sts by (auto simp: hd_map)
    show ?thesis
    proof (cases "rb < 0")
      case True
      then have "rc = rb" "s' = u" using assms False b by (auto simp: ct_action_done_def)
      then show ?thesis using True bg False by (intro exI [of _ "map fst sts"] exI [of _ "[]"]) auto
    next
      case ge: False
      then have "action_end_ex env hai hp_flags \<bar>ct_rc\<bar> u = (rc, s')"
        using assms False b by (auto simp: ct_action_done_def)
      from ends [OF this] obtain en where en: "en \<noteq> []" "hd en = rc" "length en \<le> 7"
        "hist s' = map (EvEnd (hai_extent hai) hp_flags \<bar>ct_rc\<bar>) en @ hist u"
        "\<forall>x \<in> set (tl en). x \<noteq> 0 \<and> x \<noteq> - ECANCELED" "rc \<noteq> 0 \<and> rc \<noteq> - ECANCELED \<longrightarrow> length en = 7"
        by (elim exE conjE) (rule that)
      have "hist s' = map (EvEnd (hai_extent hai) hp_flags \<bar>ct_rc\<bar>) en @
          map (EvBegin (hai_fid hai) (-1) 0 True) (map fst sts) @ hist s"
        using en(4) bg(4) by simp
      then show ?thesis using en(1-3,5,6) bg(1,3) False
        by (intro exI [of _ "map fst sts"] exI [of _ en] conjI) simp_all
    qed
  qed
qed

text \<open>
  C17. Completion messages. \<^verbatim>\<open>ct_action_done\<close> tells the coordinator the absolute value of the
  action's result with the given flags. It sends at most seven times; every message but the last
  one was refused for a reason other than cancellation, and the last one was accepted or
  cancelled unless all seven are used; its result is what is returned. When the action has no
  copy action yet, one is begun first, with up to seven tries, and if that fails the completion
  is never sent and the begin's error is returned.
\<close>

theorem ct_action_done_messages:
  assumes "ct_action_done env hcp hai hp_flags ct_rc s = (rc, s')"
  shows "\<exists>begins ends.
    hist s' = map (EvEnd (hai_extent hai) hp_flags \<bar>ct_rc\<bar>) ends @
              map (EvBegin (hai_fid hai) (-1) 0 True) begins @ hist s \<and>
    length begins \<le> 7 \<and> length ends \<le> 7 \<and> (begins = [] \<longleftrightarrow> hcp) \<and>
    (ends = [] \<longrightarrow> \<not> hcp \<and> rc < 0 \<and> hd begins = rc \<and> length begins = 7) \<and>
    (ends \<noteq> [] \<longrightarrow> rc = hd ends \<and> (\<forall>r \<in> set (tl ends). r \<noteq> 0 \<and> r \<noteq> - ECANCELED) \<and>
       (rc \<noteq> 0 \<and> rc \<noteq> - ECANCELED \<longrightarrow> length ends = 7))"
  by (rule action_done_spec [OF assms])

lemma hexdigit_inj: "a < 16 \<Longrightarrow> b < 16 \<Longrightarrow> hexdigit a = hexdigit b \<Longrightarrow> a = b"
proof -
  have "distinct ''0123456789abcdef''" by simp
  then show "a < 16 \<Longrightarrow> b < 16 \<Longrightarrow> hexdigit a = hexdigit b \<Longrightarrow> a = b"
    unfolding hexdigit_def using nth_eq_iff_index_eq [of "''0123456789abcdef''" a b] by simp
qed

lemma length_hex_digits [simp]: "length (hex_digits k n) = k"
  by (induction k arbitrary: n) auto

lemma hex_digits_inj: "n < 16 ^ k \<Longrightarrow> m < 16 ^ k \<Longrightarrow> hex_digits k n = hex_digits k m \<Longrightarrow> n = m"
proof (induction k arbitrary: n m)
  case 0
  then show ?case by simp
next
  case (Suc k)
  then have "n div 16 = m div 16" by (intro Suc.IH) (auto simp: less_mult_imp_div_less mult.commute)
  moreover have "n mod 16 = m mod 16" using Suc.prems(3) by (intro hexdigit_inj) auto
  ultimately show ?case by (metis div_mult_mod_eq)
qed

text \<open>
  Archive names. Every FID has a name of exactly 34 characters, and two different FIDs never
  share one, as long as the buffer has the 35 bytes a name needs.
\<close>

lemma ct_path_archive_injective:
  assumes "35 \<le> sz"
  shows "fst (ct_path_archive sz a) = 34 \<and> length (snd (ct_path_archive sz a)) = 34 \<and>
         (ct_path_archive sz a = ct_path_archive sz b \<longleftrightarrow> a = b)"
proof -
  have "unat (x :: u64) < 16 ^ 16" "unat (y :: u32) < 16 ^ 8" for x y
    using u64_bound [of x] unsigned_less [of y, where ?'a = nat] by simp_all
  then have inj: "hex_digits 16 (unat x) = hex_digits 16 (unat x') \<longleftrightarrow> x = x'"
    "hex_digits 8 (unat y) = hex_digits 8 (unat y') \<longleftrightarrow> y = y'" for x x' :: u64 and y y' :: u32
    using hex_digits_inj [of "unat x" 16 "unat x'"] hex_digits_inj [of "unat y" 8 "unat y'"]
    by (auto simp: word_unat_eq_iff)
  show ?thesis
    using assms by (cases a; cases b) (simp add: ct_path_archive_def snprintf_def inj)
qed

section \<open>Witnesses\<close>

theorem ct_action_done_messages_witness:
  "\<exists>begins ends.
    [EvEnd (hai_extent (demo_hai HSMA_REMOVE)) 0 22 0, EvBegin demo_fid (-1) 0 True 0] =
      map (EvEnd (hai_extent (demo_hai HSMA_REMOVE)) 0 22) ends @
      map (EvBegin demo_fid (-1) 0 True) begins \<and> length begins \<le> 7 \<and> length ends \<le> 7"
proof -
  have "ct_action_done demo_env False (demo_hai HSMA_REMOVE) 0 (-22) (demo_ct []) =
      (0, emit (EvEnd (hai_extent (demo_hai HSMA_REMOVE)) 0 22 0)
            (emit (EvBegin demo_fid (-1) 0 True 0) (demo_ct [])))"
    by (simp add: ct_action_done_def llapi_hsm_action_begin_ex_def action_end_ex_def max_retry_def
        resend_nonneg call_once_def demo_env_def demo_hai_def)
  from ct_action_done_messages [OF this] show ?thesis by (auto simp: demo_hai_def demo_ct_def)
qed

end
