(* ===== verification/Lhsm_Util.thy ===== *)
theory Lhsm_Util
  imports Ct_Common
begin

text \<open>
  The helpers of \<^verbatim>\<open>lhsmtool_s3.c\<close> that archive and restore share: the object name of a path
  (\<^verbatim>\<open>ct_target\<close>), the directory of a FID (\<^verbatim>\<open>fid_parent\<close>), the checks on a source
  file (\<^verbatim>\<open>ct_archive_check\<close>) and the part size of a multipart upload
  (\<^verbatim>\<open>ct_get_chunksize\<close>, on 64-bit words, with its loop shown to end for every size the program
  lets through).
\<close>

section \<open>Object names\<close>

text \<open>
  \<^verbatim>\<open>sprintf(full_path, "%s/%s", ct_opt.o_mnt, file_path)\<close> into \<^verbatim>\<open>PATH_MAX\<close> bytes: a longer
  result overruns the buffer (\<open>None\<close>).
\<close>

definition mk_full_path :: "string \<Rightarrow> string \<Rightarrow> string option" where
  "mk_full_path mnt file_path =
     (let p = mnt @ ''/'' @ file_path in if length p < PATH_MAX then Some p else None)"

text \<open>
  \<^verbatim>\<open>ct_target\<close>: what follows the prefix and one more character. The inner \<open>None\<close> is
  \<^verbatim>\<open>NULL\<close>; when the path is the prefix the pointer lies past the terminator (outer
  \<open>None\<close>).
\<close>

definition ct_target :: "string \<Rightarrow> string \<Rightarrow> string option option" where
  "ct_target path_prefix full_path =
     (if strstr full_path path_prefix = Some 0 then
        (if length path_prefix < length full_path
         then Some (Some (drop (length path_prefix + 1) full_path)) else None)
      else Some None)"

definition fid_parent :: "env \<Rightarrow> string \<Rightarrow> lu_fid \<Rightarrow> nat \<Rightarrow> ct \<Rightarrow> int \<times> string option \<times> ct" where
  "fid_parent env mnt fid parent_len s =
     (let (rc, path) = e_fid2path env (hist s) fid; s = emit (EvCall ''llapi_fid2path'' rc) s in
      if rc < 0 then (rc, None, s)
      else
        (let (rc, parent) = snprintf parent_len (mnt @ ''/'' @ path) in
         if rc \<ge> int parent_len then (- ENAMETOOLONG, Some parent, s)
         else
           (case strrchr parent (CHR ''/'') of
              None \<Rightarrow> (- EINVAL, Some parent, s)
            | Some p \<Rightarrow> if p = 0 then (- EINVAL, Some parent, s) else (0, Some (take p parent), s))))"

section \<open>The source file of an archive\<close>

text \<open>\<^verbatim>\<open>ct_archive_check\<close>: the result, the size \<^verbatim>\<open>fstat\<close> reported, and the state.\<close>

definition ct_archive_check :: "hsm_action_item \<Rightarrow> int \<Rightarrow> ct \<Rightarrow> bool \<times> u64 \<times> ct" where
  "ct_archive_check hai src_fd s =
     (let (st, w) = sys_fstat (world s) src_fd; s = s\<lparr>world := w\<rparr> in
      case st of
        None \<Rightarrow> (False, 0, s)
      | Some (is_reg, st_size) \<Rightarrow>
         if \<not> is_reg then (False, st_size, s)
         else if he_offset (hai_extent hai) > st_size then (False, st_size, s)
         else (True, st_size, s))"

section \<open>The parts of a multipart upload\<close>

partial_function (option) chunk_loop :: "u64 \<Rightarrow> u64 \<Rightarrow> u64 \<Rightarrow> (u64 \<times> u64) option" where
  "chunk_loop s3_obj_size chunk_size total_seq =
     (if total_seq > 10000 then
        (let c1 = (if chunk_size < CHUNK_SIZE_MAX then chunk_size * 2 else chunk_size);
             c2 = (if c1 > CHUNK_SIZE_MAX then CHUNK_SIZE_MAX else c1) in
         chunk_loop s3_obj_size c2 ((s3_obj_size + c2 - 1) div c2))
      else Some (chunk_size, total_seq))"

definition ct_get_chunksize :: "u64 \<Rightarrow> (u64 \<times> u64) option" where
  "ct_get_chunksize s3_obj_size =
     chunk_loop s3_obj_size CHUNK_SIZE ((s3_obj_size + CHUNK_SIZE - 1) div CHUNK_SIZE)"

section \<open>Lemmas\<close>

lemma strstr_0: "strstr s p = Some 0 \<longleftrightarrow> take (length p) s = p"
  by (cases s) (auto split: if_splits)

lemma ct_target_Some:
  assumes "ct_target pre full = Some (Some name)"
  shows "\<exists>c. full = pre @ c # name"
proof -
  have "take (length pre) full = pre" "length pre < length full" "name = drop (length pre + 1) full"
    using assms by (auto simp: ct_target_def strstr_0 split: if_splits)
  then show ?thesis by (metis Suc_eq_plus1 append_take_drop_id Cons_nth_drop_Suc)
qed

lemma chunk_parts:
  assumes "sz \<le> 5 * 2 ^ 40" and "k \<le> 30"
  shows "unat ((sz + 2 ^ k - 1) div 2 ^ k :: u64) = (unat sz + 2 ^ k - 1) div 2 ^ k"
proof -
  have p: "unat ((2 :: u64) ^ k) = 2 ^ k" using u64_pow2 [of k] assms(2) by simp
  have s: "unat sz \<le> 5 * 2 ^ 40" using assms(1) by (simp add: word_le_nat_alt)
  have k: "(2 :: nat) ^ k \<le> 2 ^ 30" using assms(2) by (intro power_increasing) auto
  have "unat (sz + 2 ^ k) = unat sz + 2 ^ k" using s k p by (subst u64_add) auto
  moreover have "unat (sz + 2 ^ k - 1) = unat (sz + 2 ^ k) - 1"
    using u64_sub [of 1 "sz + 2 ^ k"] calculation by (simp add: word_le_nat_alt trans_le_add2)
  ultimately show ?thesis using p by (simp add: unat_div)
qed

lemma chunk_loop_ends:
  assumes "sz \<le> 5 * 2 ^ 40" and "k \<le> 30" and "24 \<le> k"
  shows "\<exists>j. k \<le> j \<and> j \<le> 30 \<and> (unat sz + 2 ^ j - 1) div 2 ^ j \<le> 10000 \<and>
           chunk_loop sz (2 ^ k) ((sz + 2 ^ k - 1) div 2 ^ k) = Some (2 ^ j, (sz + 2 ^ j - 1) div 2 ^ j)"
  using assms(2,3)
proof (induction "30 - k" arbitrary: k)
  case 0
  then have k: "k = 30" by simp
  have "unat sz \<le> 5 * 2 ^ 40" using assms(1) by (simp add: word_le_nat_alt)
  then have "(unat sz + 2 ^ 30 - 1) div 2 ^ 30 \<le> (5 * 2 ^ 40 + 2 ^ 30 - 1) div 2 ^ 30"
    by (intro div_le_mono) simp
  then have le: "(unat sz + 2 ^ 30 - 1) div 2 ^ 30 \<le> 10000" by simp
  have "\<not> (sz + 2 ^ k - 1) div 2 ^ k > 10000"
    using le chunk_parts [OF assms(1), of 30] k by (simp add: word_less_nat_alt)
  then show ?case using le k
    by (intro exI [of _ 30]) (subst chunk_loop.simps, simp)
next
  case (Suc d)
  then have k: "k < 30" "d = 30 - Suc k" by auto
  let ?t = "(sz + 2 ^ k - 1) div 2 ^ k :: u64"
  show ?case
  proof (cases "?t > 10000")
    case True
    have p: "unat ((2 :: u64) ^ Suc k) \<le> 2 ^ 30" "unat ((2 :: u64) ^ k) \<le> 2 ^ 30"
      using u64_pow2 [of "Suc k"] u64_pow2 [of k] k(1) power_increasing [of "Suc k" 30 "2 :: nat"]
        power_increasing [of k 30 "2 :: nat"] by auto
    have "(2 :: u64) ^ k < CHUNK_SIZE_MAX" "\<not> (2 :: u64) ^ Suc k > CHUNK_SIZE_MAX"
      using p by (auto simp: CHUNK_SIZE_MAX_def word_less_nat_alt)
    then have "chunk_loop sz (2 ^ k) ?t = chunk_loop sz (2 ^ Suc k) ((sz + 2 ^ Suc k - 1) div 2 ^ Suc k)"
      using True by (subst chunk_loop.simps) (simp add: Let_def mult.commute)
    then show ?thesis using Suc.hyps(1) [OF k(2)] k(1) Suc.prems(2) by (metis Suc_leD Suc_leI le_SucI)
  next
    case False
    then have "unat ?t \<le> 10000" by (simp add: word_less_nat_alt)
    then show ?thesis using False chunk_parts [OF assms(1) Suc.prems(1)] Suc.prems(1)
      by (intro exI [of _ k]) (subst chunk_loop.simps, simp)
  qed
qed

lemma chunksize_spec:
  assumes "sz \<le> 5 * 2 ^ 40"
  shows "\<exists>chunk n. ct_get_chunksize sz = Some (chunk, n) \<and>
           2 ^ 24 \<le> unat chunk \<and> unat chunk \<le> 2 ^ 30 \<and> unat n \<le> 10000 \<and>
           unat n = (unat sz + unat chunk - 1) div unat chunk"
proof -
  have c: "CHUNK_SIZE = 2 ^ 24" by (simp add: CHUNK_SIZE_def)
  obtain j where j: "24 \<le> j" "j \<le> 30" "(unat sz + 2 ^ j - 1) div 2 ^ j \<le> 10000"
    "ct_get_chunksize sz = Some (2 ^ j, (sz + 2 ^ j - 1) div 2 ^ j)"
    using chunk_loop_ends [OF assms, of 24] unfolding ct_get_chunksize_def c by auto
  have u: "unat ((2 :: u64) ^ j) = 2 ^ j" using u64_pow2 [of j] j(2) by simp
  have "(2 :: nat) ^ 24 \<le> 2 ^ j" "(2 :: nat) ^ j \<le> 2 ^ 30"
    using j(1,2) by (simp_all only: power_increasing one_le_numeral)
  then show ?thesis using j chunk_parts [OF assms j(2)] u by auto
qed

section \<open>Theorems\<close>

text \<open>
  C19. Part sizes. For every file size that \<^verbatim>\<open>ct_archive\<close> lets through (at most 5 TB) the loop of
  \<^verbatim>\<open>ct_get_chunksize\<close> ends. The part size is between 16 MB and 1 GB, so it fits the
  \<^verbatim>\<open>int partContentLength\<close> of the caller; the number of parts is the size divided by it,
  rounded up, and at most the 10000 that S3 allows.
\<close>

theorem ct_get_chunksize_bounds:
  assumes "sz \<le> 5 * 2 ^ 40"
  shows "\<exists>chunk n. ct_get_chunksize sz = Some (chunk, n) \<and>
           2 ^ 24 \<le> unat chunk \<and> unat chunk \<le> 2 ^ 30 \<and> unat n \<le> 10000 \<and>
           unat n = (unat sz + unat chunk - 1) div unat chunk"
  by (rule chunksize_spec [OF assms])

text \<open>
  Object names. The name of a path is the path without the prefix and the character after
  it. So two paths under the prefix have the same object name only if they agree everywhere but
  in that one character; with a \<^verbatim>\<open>/\<close> at that place the name determines the path.
\<close>

lemma ct_target_injective:
  assumes "ct_target pre a = Some (Some name)" and "ct_target pre b = Some (Some name)"
    and "a ! length pre = b ! length pre"
  shows "a = b"
  using ct_target_Some [OF assms(1)] ct_target_Some [OF assms(2)] assms(3) by (auto simp: nth_append)

text \<open>
  \<^verbatim>\<open>ct_target\<close> does not check that the prefix ends at a path separator: files in two
  different directories next to each other get the same object, for any prefix and name.
\<close>

lemma ct_target_collision:
  "ct_target pre (pre @ ''A'' @ name) = ct_target pre (pre @ ''B'' @ name) \<and>
   ct_target pre (pre @ ''A'' @ name) = Some (Some name) \<and> pre @ ''A'' @ name \<noteq> pre @ ''B'' @ name"
  by (simp add: ct_target_def strstr_0)

section \<open>Witnesses\<close>

theorem ct_get_chunksize_bounds_witness:
  "\<exists>chunk n. ct_get_chunksize (5 * 2 ^ 40) = Some (chunk, n) \<and> unat n \<le> 10000"
  using ct_get_chunksize_bounds [of "5 * 2 ^ 40"] by blast

lemma ct_target_injective_witness:
  "ct_target ''/mnt/fs'' ''/mnt/fs/a/b'' = Some (Some ''a/b'') \<and> ''/mnt/fs/a/b'' = ''/mnt/fs/a/b''"
  using ct_target_injective [of "''/mnt/fs''" "''/mnt/fs/a/b''" "''a/b''" "''/mnt/fs/a/b''"]
  by (simp add: ct_target_def)

end
