(* ===== verification/Archive_Small.thy ===== *)
theory Archive_Small
  imports Lhsm_Util
begin

text \<open>
  \<^verbatim>\<open>ct_archive_data\<close> of \<^verbatim>\<open>lhsmtool_s3.c\<close>: a file below 256 MB is read into one buffer
  taken from the memory quota and sent with a single put, which is retried. The theorems say
  that success means exactly one accepted put whose body is the data of the file, failure means
  none, that the quota is always given back, and that an attempt that failed halfway makes all
  later attempts useless.
\<close>

section \<open>The put request\<close>

text \<open>
  \<^verbatim>\<open>S3_put_object\<close> with the handlers the program registers for it: the data callback fills
  the buffers libs3 offers, then the completion callback gets the status.
\<close>

definition S3_put_object ::
  "env \<Rightarrow> string \<Rightarrow> nat \<Rightarrow> put_object_callback_data \<Rightarrow> ct \<Rightarrow> (put_object_callback_data \<times> ct) option" where
  "S3_put_object env key n data s =
     (let (bufs, outcome) = e_put env (hist s) key n in
      case pull_all put_objectdata_callback bufs data of
        None \<Rightarrow> None
      | Some (body, data) \<Rightarrow>
         (let status = outcome body in
          Some (s3_put_response_complete_callback status data, emit (EvPut key n body status) s)))"

text \<open>One round of the put loop, and whether it goes on.\<close>

definition put_once ::
  "env \<Rightarrow> string \<Rightarrow> nat \<Rightarrow> put_object_callback_data \<times> ct \<Rightarrow> (bool \<times> (put_object_callback_data \<times> ct)) option" where
  "put_once env key n st =
     (case S3_put_object env key n (fst st) (snd st) of
        None \<Rightarrow> None
      | Some (data, s) \<Rightarrow>
         Some (p_status data \<noteq> S3StatusOK \<and> e_retryable env (p_status data), (data, s)))"

definition put_loop ::
  "env \<Rightarrow> string \<Rightarrow> nat \<Rightarrow> put_object_callback_data \<times> ct \<Rightarrow> (put_object_callback_data \<times> ct) option" where
  "put_loop env key n st = do_retry (put_once env key n) RETRYCOUNT st"

section \<open>ct\_archive\_data\<close>

text \<open>The bytes to copy: not beyond the extent.\<close>

definition extent_length :: "hsm_action_item \<Rightarrow> u64 \<Rightarrow> u64" where
  "extent_length hai st_size =
     (if he_length (hai_extent hai) > st_size - he_offset (hai_extent hai)
      then st_size - he_offset (hai_extent hai) else he_length (hai_extent hai))"

text \<open>With the buffer allocated: read, put, and the result; the buffer is freed by the caller.\<close>

definition archive_buffer :: "env \<Rightarrow> string \<Rightarrow> int \<Rightarrow> u64 \<Rightarrow> ct \<Rightarrow> (int \<times> ct) option" where
  "archive_buffer env object_name src_fd len s =
     (let (rc_read, bs, w) = sys_read (world s) src_fd (unat len); s = s\<lparr>world := w\<rparr> in
      if rc_read \<noteq> sint len then Some (- EIO, s)
      else
        (let data = zero_put_data\<lparr>p_buffer := bs, contentLength := unat len, file_name := object_name\<rparr> in
         case put_loop env object_name (unat len) (data, s) of
           None \<Rightarrow> None
         | Some (data, s) \<Rightarrow> Some (if p_status data \<noteq> S3StatusOK then - EIO else 0, s)))"

definition ct_archive_data ::
  "env \<Rightarrow> string \<Rightarrow> int \<Rightarrow> u64 \<Rightarrow> hsm_action_item \<Rightarrow> ct \<Rightarrow> (int \<times> ct) option" where
  "ct_archive_data env object_name src_fd st_size hai s =
     (let (rc, s) = ct_save_stripe env s in
      if rc \<noteq> 0 then Some (-1, s)
      else
        (let len = extent_length hai st_size;
             (_, s) = llapi_hsm_action_progress_ex env \<lparr>he_offset = 0, he_length = 0\<rparr> len s;
             got = e_malloc env (hist s) st_size;
             s = emit (EvQuotaAlloc st_size got) s in
         if \<not> got then Some (- ENOMEM, s)
         else
           (case archive_buffer env object_name src_fd len s of
              None \<Rightarrow> None
            | Some (rc, s) \<Rightarrow> Some (rc, emit (EvQuotaFree st_size) s))))"

section \<open>What the history says\<close>

text \<open>The puts the server accepted, and the quota taken and not given back.\<close>

fun accepted_put :: "event \<Rightarrow> bool" where
  "accepted_put (EvPut key n body status) = (status = S3StatusOK)"
| "accepted_put _ = False"

fun quota_of :: "event \<Rightarrow> int" where
  "quota_of (EvQuotaAlloc n got) = (if got then int (unat n) else 0)"
| "quota_of (EvQuotaFree n) = - int (unat n)"
| "quota_of _ = 0"

definition quota_held :: "history \<Rightarrow> int" where
  "quota_held h = sum_list (map quota_of h)"

lemma quota_held_simps [simp]:
  "quota_held [] = 0" "quota_held (e # h) = quota_of e + quota_held h"
  "quota_held (h @ h') = quota_held h + quota_held h'"
  by (simp_all add: quota_held_def)

lemma quota_held_none: "\<forall>e \<in> set es. quota_of e = 0 \<Longrightarrow> quota_held es = 0"
  by (induction es) auto

lemma quota_held_same:
  "grows (\<lambda>e. quota_of e = 0) s s' \<Longrightarrow> quota_held (hist s') = quota_held (hist s)"
  by (auto simp: grows_def quota_held_none)

text \<open>Messages that are neither uploads nor about the quota.\<close>

definition plain :: "event \<Rightarrow> bool" where
  "plain e \<longleftrightarrow> quota_of e = 0 \<and> \<not> accepted_put e"

lemma plain_simps [simp]:
  "plain (EvProgress he n rc)" "plain (EvCall f rc)" "plain (EvTime t)"
  by (simp_all add: plain_def)

lemma plain_grows:
  assumes "grows plain s s'"
  shows "filter accepted_put (hist s') = filter accepted_put (hist s)"
    and "quota_held (hist s') = quota_held (hist s)"
  using assms by (auto intro!: grows_filter quota_held_same elim!: grows_mono simp: plain_def)

section \<open>Retried puts\<close>

text \<open>
  What every attempt starts from: the buffer is the data, and the callback data stands at some
  offset with the rest still to send.
\<close>

definition put_ready :: "byte list \<Rightarrow> put_object_callback_data \<Rightarrow> bool" where
  "put_ready bs d \<longleftrightarrow> p_buffer d = bs \<and> buffer_offset d + contentLength d = length bs"

lemma put_ready_inv: "put_ready bs d \<Longrightarrow> put_inv d"
  by (simp add: put_ready_def put_inv_def)

lemma S3_put_object_ready:
  assumes ready: "put_ready bs d" and honest: "honest_put env"
  shows "\<exists>body d' s'. S3_put_object env key (length bs) d s = Some (d', s') \<and> put_ready bs d' \<and>
           buffer_offset d' = buffer_offset d + length body \<and>
           s' = emit (EvPut key (length bs) body (p_status d')) s \<and>
           (p_status d' = S3StatusOK \<longrightarrow> body = bs \<and> buffer_offset d = 0)"
proof -
  obtain bufs outcome where e: "e_put env (hist s) key (length bs) = (bufs, outcome)"
    by (cases "e_put env (hist s) key (length bs)") auto
  note inv = put_ready_inv [OF ready]
  obtain body d1 rest where p: "pull_all put_objectdata_callback bufs d = Some (body, d1)"
    "put_pending d = body @ rest"
    using putsrc.pull_all_prefix [OF inv, of bufs] by auto
  note after = pull_put_after [OF inv p(1)]
  have pend: "put_pending d = drop (buffer_offset d) bs" "length (put_pending d) = contentLength d"
    using ready length_put_pending [OF inv] by (auto simp: put_pending_def put_ready_def)
  let ?d = "s3_put_response_complete_callback (outcome body) d1"
  have run: "S3_put_object env key (length bs) d s = Some (?d, emit (EvPut key (length bs) body (outcome body)) s)"
    by (simp add: S3_put_object_def e p Let_def)
  have "put_ready bs ?d" "buffer_offset ?d = buffer_offset d + length body" "p_status ?d = outcome body"
    using after ready by (auto simp: put_ready_def s3_put_response_complete_callback_def)
  moreover have "body = bs \<and> buffer_offset d = 0" if "outcome body = S3StatusOK"
  proof -
    have "length body = length bs" using honest_putD [OF honest, of "hist s" key "length bs" body] e that by simp
    moreover have "length body \<le> contentLength d" using p(2) pend(2) by (metis length_append le_add1)
    ultimately have "buffer_offset d = 0" using ready by (simp add: put_ready_def)
    then show ?thesis using p(2) pend(1) \<open>length body = length bs\<close> by simp
  qed
  ultimately show ?thesis using run by auto
qed

text \<open>The whole loop: it returns, and it was accepted once with all the data, or never.\<close>

lemma put_retry_spec:
  assumes "put_ready bs d" and "honest_put env"
  shows "\<exists>d' s'. do_retry (put_once env key (length bs)) k (d, s) = Some (d', s') \<and>
           filter accepted_put (hist s') =
             (if p_status d' = S3StatusOK then [EvPut key (length bs) bs S3StatusOK] else []) @
             filter accepted_put (hist s) \<and>
           frame (\<lambda>e. quota_of e = 0) s s' \<and>
           (0 < buffer_offset d \<longrightarrow> p_status d' \<noteq> S3StatusOK)"
proof -
  define I where "I = (\<lambda>(d' :: put_object_callback_data, s'). put_ready bs d' \<and> buffer_offset d \<le> buffer_offset d' \<and>
      filter accepted_put (hist s') = filter accepted_put (hist s) \<and>
      frame (\<lambda>e. quota_of e = 0) s s')"
  define Q where "Q = (\<lambda>(again :: bool) (d' :: put_object_callback_data, s').
      filter accepted_put (hist s') =
        (if p_status d' = S3StatusOK then [EvPut key (length bs) bs S3StatusOK] else []) @
        filter accepted_put (hist s) \<and>
      frame (\<lambda>e. quota_of e = 0) s s' \<and>
      (0 < buffer_offset d \<longrightarrow> p_status d' \<noteq> S3StatusOK))"
  have "\<exists>again st'. do_retry (put_once env key (length bs)) k (d, s) = Some st' \<and> Q again st'"
  proof (rule do_retry_total [where I = I])
    show "I (d, s)" using assms(1) by (simp add: I_def)
  next
    fix st assume "I st"
    then obtain e u where st: "st = (e, u)" "put_ready bs e" and i: "I (e, u)" by (cases st) (auto simp: I_def)
    obtain body e' where r: "S3_put_object env key (length bs) e u = Some (e', emit (EvPut key (length bs) body (p_status e')) u)"
      "put_ready bs e'" "buffer_offset e' = buffer_offset e + length body"
      "p_status e' = S3StatusOK \<longrightarrow> body = bs \<and> buffer_offset e = 0"
      using S3_put_object_ready [OF st(2) assms(2), of key u] by blast
    let ?again = "p_status e' \<noteq> S3StatusOK \<and> e_retryable env (p_status e')"
    have "put_once env key (length bs) st = Some (?again, (e', emit (EvPut key (length bs) body (p_status e')) u))"
      by (simp add: put_once_def st(1) r(1))
    moreover have "?again \<longrightarrow> I (e', emit (EvPut key (length bs) body (p_status e')) u)"
      using i r by (auto simp: I_def)
    moreover have "Q ?again (e', emit (EvPut key (length bs) body (p_status e')) u)"
      using i r by (auto simp: I_def Q_def)
    ultimately show "\<exists>again st'. put_once env key (length bs) st = Some (again, st') \<and> (again \<longrightarrow> I st') \<and> Q again st'"
      by blast
  qed
  then show ?thesis by (auto simp: Q_def)
qed

section \<open>The events on the way\<close>

lemma put_loop_events:
  assumes "put_loop env key n (d, s) = Some (d', s')"
  shows "grows put_event s s'"
proof -
  have "grows put_event s (snd (d', s'))"
    by (rule do_retry_inv [OF assms [unfolded put_loop_def], where I = "\<lambda>st. grows put_event s (snd st)"])
      (auto simp: put_once_def S3_put_object_def Let_def split: option.splits prod.splits)
  then show ?thesis by simp
qed

lemma archive_data_events:
  assumes "ct_archive_data env key fd st_size hai s = Some (rc, s')"
  shows "grows put_event s s'"
proof -
  have buffer: "grows put_event u u'" if "archive_buffer env key fd len u = Some (r, u')" for len u r u'
    using that put_loop_events by (fastforce simp: archive_buffer_def Let_def split: prod.splits if_splits option.splits)
  obtain r1 s1 where 1: "ct_save_stripe env s = (r1, s1)" by (metis surj_pair)
  obtain r2 s2 where 2: "llapi_hsm_action_progress_ex env \<lparr>he_offset = 0, he_length = 0\<rparr> (extent_length hai st_size) s1 = (r2, s2)"
    by (metis surj_pair)
  have "grows put_event s s1" "grows put_event s1 s2" using frameD(1) stage_frames(2) [OF 1] stage_frames(1) [OF 2] by blast+
  then have g: "grows put_event s s1" "grows put_event s (emit (EvQuotaAlloc st_size b) s2)" for b by (auto intro: grows_trans)
  show ?thesis using assms 1 2 g grows_trans [OF g(2) buffer]
    by (auto simp: ct_archive_data_def Let_def split: if_splits option.splits)
qed

section \<open>Theorems\<close>

lemma extent_length_le:
  assumes "he_offset (hai_extent hai) \<le> st_size"
  shows "extent_length hai st_size \<le> st_size"
proof -
  have "st_size - he_offset (hai_extent hai) \<le> st_size"
    using u64_sub [OF assms] by (simp add: word_le_nat_alt)
  then show ?thesis by (auto simp: extent_length_def)
qed

lemma sint_small:
  assumes "unat (x :: u64) < 2 ^ 63"
  shows "sint x = int (unat x)"
proof -
  have "int (unat x) < int (2 ^ 63)" using assms by (simp only: of_nat_less_iff)
  then have "uint x < 2 ^ 63" by simp
  moreover have "- (2 ^ 63) \<le> uint x" using uint_ge_0 [of x] by (simp add: order_trans [of _ 0])
  ultimately show ?thesis using signed_take_bit_int_eq_self [of 63 "uint x"] by (simp add: sint_uint)
qed

lemma archive_buffer_spec:
  assumes "honest_put env" and "os_files (world s) fd = Some f" and "unat len < 2 ^ 63"
  shows "\<exists>rc s'. archive_buffer env key fd len s = Some (rc, s') \<and> rc \<in> {0, - EIO} \<and>
           filter accepted_put (hist s') =
             (if rc = 0 then [EvPut key (unat len) (take (unat len) (drop (f_pos f) (f_data f))) S3StatusOK] else []) @
             filter accepted_put (hist s) \<and>
           quota_held (hist s') = quota_held (hist s) \<and> err_major s' = err_major s \<and> gbh s' = gbh s"
proof -
  obtain ret bs w where rd: "sys_read (world s) fd (unat len) = (ret, bs, w)"
    by (cases "sys_read (world s) fd (unat len)") auto
  let ?u = "s\<lparr>world := w\<rparr>"
  show ?thesis
  proof (cases "ret = int (unat len)")
    case False
    then show ?thesis using rd by (simp add: archive_buffer_def sint_small [OF assms(3)] errno_defs)
  next
    case True
    then have bs: "bs = take (unat len) (drop (f_pos f) (f_data f))" "length bs = unat len"
      using sys_read_full [of "world s" fd "unat len" bs w] rd assms(2) by auto
    let ?d = "zero_put_data\<lparr>p_buffer := bs, contentLength := length bs, file_name := key\<rparr>"
    have ready: "put_ready bs ?d" by (simp add: put_ready_def zero_put_data_def)
    obtain d' s' where r: "put_loop env key (length bs) (?d, ?u) = Some (d', s')"
      "filter accepted_put (hist s') =
        (if p_status d' = S3StatusOK then [EvPut key (length bs) bs S3StatusOK] else []) @
        filter accepted_put (hist ?u)"
      "frame (\<lambda>e. quota_of e = 0) ?u s'"
      using put_retry_spec [OF ready assms(1), of key RETRYCOUNT ?u] unfolding put_loop_def by blast
    have "archive_buffer env key fd len s = Some (if p_status d' \<noteq> S3StatusOK then - EIO else 0, s')"
      using rd True r(1) bs(2) by (simp add: archive_buffer_def sint_small [OF assms(3)])
    moreover have "quota_held (hist s') = quota_held (hist s)" "err_major s' = err_major s" "gbh s' = gbh s"
      using frameD [OF r(3)] quota_held_same [of ?u s'] by auto
    ultimately show ?thesis using r(2) bs by (simp add: errno_defs)
  qed
qed

lemma archive_data_spec:
  assumes "honest_put env" and "os_files (world s) fd = Some f"
    and "he_offset (hai_extent hai) \<le> st_size" and "unat st_size < 2 ^ 63"
  shows "\<exists>rc s'. ct_archive_data env key fd st_size hai s = Some (rc, s') \<and>
           filter accepted_put (hist s') =
             (if rc = 0 then [EvPut key (unat (extent_length hai st_size))
                                (take (unat (extent_length hai st_size)) (drop (f_pos f) (f_data f))) S3StatusOK]
              else []) @ filter accepted_put (hist s) \<and>
           quota_held (hist s') = quota_held (hist s) \<and> err_major s' = err_major s \<and> gbh s' = gbh s"
proof -
  let ?len = "extent_length hai st_size"
  have len: "unat ?len < 2 ^ 63" using extent_length_le [OF assms(3)] assms(4) by (simp add: word_le_nat_alt)
  obtain rc1 s1 where 1: "ct_save_stripe env s = (rc1, s1)" by (cases "ct_save_stripe env s") auto
  obtain rc2 s2 where 2: "llapi_hsm_action_progress_ex env \<lparr>he_offset = 0, he_length = 0\<rparr> ?len s1 = (rc2, s2)"
    by (cases "llapi_hsm_action_progress_ex env \<lparr>he_offset = 0, he_length = 0\<rparr> ?len s1") auto
  have f1: "frame plain s s1" using stripe_frame [OF 1] by (auto elim!: frame_mono)
  have f2: "frame plain s s2" using progress_frame [OF 2] f1 by (auto elim!: frame_mono intro: frame_trans)
  note k1 = frameD [OF f1] plain_grows [OF frameD(1) [OF f1]]
  note k2 = frameD [OF f2] plain_grows [OF frameD(1) [OF f2]]
  let ?s3 = "emit (EvQuotaAlloc st_size (e_malloc env (hist s2) st_size)) s2"
  show ?thesis
  proof (cases "rc1 \<noteq> 0 \<or> \<not> e_malloc env (hist s2) st_size")
    case True
    then show ?thesis using 1 2 k1 k2
      by (cases "rc1 = 0") (simp_all add: ct_archive_data_def Let_def errno_defs)
  next
    case False
    then obtain rc s' where b: "archive_buffer env key fd ?len ?s3 = Some (rc, s')"
      "filter accepted_put (hist s') =
         (if rc = 0 then [EvPut key (unat ?len) (take (unat ?len) (drop (f_pos f) (f_data f))) S3StatusOK] else []) @
         filter accepted_put (hist ?s3)"
      "quota_held (hist s') = quota_held (hist ?s3)" "err_major s' = err_major ?s3" "gbh s' = gbh ?s3"
      using archive_buffer_spec [OF assms(1) _ len, of ?s3 fd f key] assms(2) k2 by auto
    have "ct_archive_data env key fd st_size hai s = Some (rc, emit (EvQuotaFree st_size) s')"
      using 1 2 False b(1) by (simp add: ct_archive_data_def Let_def)
    then show ?thesis using b(2-5) k2 False by simp
  qed
qed

text \<open>
  C5. A small file. \<^verbatim>\<open>ct_archive_data\<close> returns, for every behaviour of the store, the coordinator
  and the file system. If it returns 0 the server accepted exactly one put, of this object,
  and its body is the data of the file from its position on, as long as the extent asks; if it
  returns anything else no put was accepted. The memory quota is given back on every
  path.
\<close>

theorem ct_archive_data_correct:
  assumes "honest_put env" and "os_files (world s) fd = Some f"
    and "he_offset (hai_extent hai) \<le> st_size" and "unat st_size < 2 ^ 63"
  shows "\<exists>rc s'. ct_archive_data env key fd st_size hai s = Some (rc, s') \<and>
           filter accepted_put (hist s') =
             (if rc = 0 then [EvPut key (unat (extent_length hai st_size))
                                (take (unat (extent_length hai st_size)) (drop (f_pos f) (f_data f))) S3StatusOK]
              else []) @ filter accepted_put (hist s) \<and>
           quota_held (hist s') = quota_held (hist s) \<and> err_major s' = err_major s \<and> gbh s' = gbh s"
  by (rule archive_data_spec [OF assms])

text \<open>
  C35. The put loop retries with the callback data the failed attempt left behind. Once an attempt
  has handed over a single byte and was not accepted, no later attempt can deliver the declared
  length, so with a server that checks it the retries never succeed.
\<close>

theorem put_retry_after_partial_attempt_fails:
  assumes "honest_put env" and "put_ready bs d" and "S3_put_object env key (length bs) d s = Some (d1, s1)"
    and "buffer_offset d < buffer_offset d1" and "p_status d1 \<noteq> S3StatusOK"
  shows "\<exists>d' s'. put_loop env key (length bs) (d, s) = Some (d', s') \<and> p_status d' \<noteq> S3StatusOK"
proof -
  have "put_ready bs d1" using S3_put_object_ready [OF assms(2,1), of key s] assms(3) by auto
  then obtain d' s' where "do_retry (put_once env key (length bs)) 4 (d1, s1) = Some (d', s')"
    "p_status d' \<noteq> S3StatusOK"
    using put_retry_spec [OF _ assms(1), of bs d1 key 4 s1] assms(4) by auto
  then show ?thesis
    using assms(3,5) do_retry_Suc [of "put_once env key (length bs)" 4 "(d, s)"]
    by (cases "e_retryable env (p_status d1)")
      (auto simp: put_loop_def RETRYCOUNT_def put_once_def)
qed

section \<open>Witnesses\<close>

theorem ct_archive_data_correct_witness:
  "\<exists>s'. ct_archive_data demo_env ''k'' 3 2 (demo_hai HSMA_ARCHIVE) (demo_ct [7, 8]) = Some (0, s') \<and>
     filter accepted_put (hist s') = [EvPut ''k'' 2 [7, 8] S3StatusOK]"
proof -
  have "ct_archive_data demo_env ''k'' 3 2 (demo_hai HSMA_ARCHIVE) (demo_ct [7, 8]) \<noteq> None \<and>
      fst (the (ct_archive_data demo_env ''k'' 3 2 (demo_hai HSMA_ARCHIVE) (demo_ct [7, 8]))) = 0"
    by code_simp
  moreover have "extent_length (demo_hai HSMA_ARCHIVE) 2 = 2" by code_simp
  ultimately show ?thesis
    using ct_archive_data_correct [OF demo_honest(1), of "demo_ct [7, 8]" 3 _ "demo_hai HSMA_ARCHIVE" 2 "''k''"]
    by (auto simp: demo_ct_def demo_hai_def)
qed

text \<open>An environment that takes one byte of the first put and then times out.\<close>

definition flaky_env :: env where
  "flaky_env = demo_env\<lparr>e_put := (\<lambda>h key n. if h = [] then ([1], \<lambda>body. S3StatusErrorRequestTimeout)
                                        else e_put demo_env h key n)\<rparr>"

definition flaky_data :: put_object_callback_data where
  "flaky_data = zero_put_data\<lparr>p_buffer := [7, 8], contentLength := 2\<rparr>"

theorem put_retry_after_partial_attempt_fails_witness:
  "\<exists>d' s'. put_loop flaky_env ''k'' 2 (flaky_data, demo_ct []) = Some (d', s') \<and> p_status d' \<noteq> S3StatusOK"
proof -
  have h: "honest_put flaky_env" using demo_honest(1) by (auto simp: honest_put_def flaky_env_def)
  have r: "put_ready [7, 8] flaky_data" by (simp add: put_ready_def flaky_data_def zero_put_data_def)
  have f: "S3_put_object flaky_env ''k'' (length [7, 8 :: byte]) flaky_data (demo_ct []) =
      Some (flaky_data\<lparr>buffer_offset := 1, contentLength := 1, p_status := S3StatusErrorRequestTimeout\<rparr>,
            emit (EvPut ''k'' 2 [7] S3StatusErrorRequestTimeout) (demo_ct []))"
    by (simp add: S3_put_object_def flaky_env_def demo_ct_def flaky_data_def zero_put_data_def
        put_objectdata_callback_def s3_put_response_complete_callback_def)
  show ?thesis using put_retry_after_partial_attempt_fails [OF h r f] 
    by (simp add: flaky_data_def zero_put_data_def numeral_2_eq_2)
qed

end
