(* ===== verification/Archive_Big.thy ===== *)
theory Archive_Big
  imports Archive_Small
begin

text \<open>
  \<^verbatim>\<open>ct_archive_data_big\<close> of \<^verbatim>\<open>lhsmtool_s3.c\<close>: a file of 256 MB or more is sent as a multipart
  upload: initiate, the parts in order with retries, a commit document built in a
  growbuffer, and the commit. The theorems say that success means that the store holds every
  part with the right bytes of the file, that together they are the file, and that
  the commit document names them in order with their entity tags; that the growbuffer is freed on
  every path; and that the outcome of the commit itself is not looked at.
\<close>

section \<open>Initiate\<close>

definition S3_initiate_multipart :: "env \<Rightarrow> string \<Rightarrow> UploadManager \<Rightarrow> ct \<Rightarrow> UploadManager \<times> ct" where
  "S3_initiate_multipart env key manager s =
     (let (uid, status) = e_init env (hist s) key;
          manager = initial_multipart_response_callback uid manager;
          manager = multipart_init_response_complete_callback status manager in
      (manager, emit (EvInit key uid status) s))"

definition init_once :: "env \<Rightarrow> string \<Rightarrow> UploadManager \<times> ct \<Rightarrow> (bool \<times> (UploadManager \<times> ct)) option" where
  "init_once env key st =
     (let (manager, s) = S3_initiate_multipart env key (fst st) (snd st);
          rc_init = (if upload_id manager = None then S3StatusErrorInternalError else S3StatusOK) in
      Some (e_retryable env rc_init, (manager, s)))"

section \<open>Parts\<close>

text \<open>
  The variables of the part loop: the callback data of the part, the upload manager it points to,
  the time of the last report, and the worker.
\<close>

record mpstate =
  m_data :: put_object_callback_data
  m_man :: UploadManager
  m_last :: int
  m_ct :: ct

definition uid_of :: "UploadManager \<Rightarrow> string" where
  "uid_of manager = (case upload_id manager of None \<Rightarrow> [] | Some u \<Rightarrow> u)"

definition S3_upload_part :: "env \<Rightarrow> string \<Rightarrow> nat \<Rightarrow> nat \<Rightarrow> mpstate \<Rightarrow> mpstate option" where
  "S3_upload_part env key seq n st =
     (let s = m_ct st; (bufs, outcome) = e_part env (hist s) key seq n in
      case pull_all multipart_put_objectdata_callback bufs (m_data st, world s) of
        None \<Rightarrow> None
      | Some (body, (data, w)) \<Rightarrow>
         (let (etag, status) = outcome body;
              manager = (case etag of None \<Rightarrow> m_man st
                         | Some e \<Rightarrow> multipart_put_part_response_properies_callback seq e (m_man st)) in
          Some (st\<lparr>m_data := multipart_put_response_complete_callback status data, m_man := manager,
                   m_ct := emit (EvPart key (uid_of (m_man st)) seq n body etag status) (s\<lparr>world := w\<rparr>)\<rparr>)))"

text \<open>The report to the coordinator after a part, when the interval has passed.\<close>

definition part_report :: "env \<Rightarrow> ct_options \<Rightarrow> u64 \<Rightarrow> u64 \<Rightarrow> nat \<Rightarrow> nat \<Rightarrow> int \<Rightarrow> mpstate \<Rightarrow> mpstate" where
  "part_report env opt len chunk seq plen t_end st =
     (if t_end - m_last st \<ge> o_report_int opt then
        (let (rc_report, s) = llapi_hsm_action_progress_ex env
               \<lparr>he_offset = of_nat (seq - 1) * chunk, he_length = of_nat plen\<rparr> len (m_ct st) in
         if rc_report < 0 then st\<lparr>m_ct := s\<rparr>
         else st\<lparr>m_last := e_time env (hist s), m_ct := emit (EvTime (e_time env (hist s))) s\<rparr>)
      else st)"

text \<open>One attempt at a part: seek, upload, look at \<^verbatim>\<open>next_etags_pos\<close>, report.\<close>

definition part_once ::
  "env \<Rightarrow> ct_options \<Rightarrow> string \<Rightarrow> u64 \<Rightarrow> u64 \<Rightarrow> nat \<Rightarrow> nat \<Rightarrow> mpstate \<Rightarrow> (bool \<times> mpstate) option" where
  "part_once env opt key len chunk seq plen st =
     (let s = m_ct st;
          s = s\<lparr>world := sys_lseek (world s) (p_fd (m_data st)) ((seq - 1) * unat chunk)\<rparr>;
          st = st\<lparr>m_data := (m_data st)\<lparr>p_status := S3StatusOK\<rparr>, m_ct := s\<rparr> in
      case S3_upload_part env key seq plen st of
        None \<Rightarrow> None
      | Some st \<Rightarrow>
         (let t_end = e_time env (hist (m_ct st));
              st = st\<lparr>m_ct := emit (EvTime t_end) (m_ct st)\<rparr>;
              st = (if next_etags_pos (m_man st) \<noteq> seq
                    then st\<lparr>m_data := (m_data st)\<lparr>p_status := S3StatusErrorRequestTimeout\<rparr>\<rparr>
                    else part_report env opt len chunk seq plen t_end st) in
          Some (e_retryable env (p_status (m_data st)), st)))"

fun part_loop ::
  "env \<Rightarrow> ct_options \<Rightarrow> string \<Rightarrow> u64 \<Rightarrow> u64 \<Rightarrow> nat \<Rightarrow> put_object_callback_data \<Rightarrow>
   nat list \<Rightarrow> nat \<Rightarrow> nat \<Rightarrow> mpstate \<Rightarrow> (bool \<times> mpstate) option" where
  "part_loop env opt key len chunk tot data [] contentLen todo st = Some (True, st)"
| "part_loop env opt key len chunk tot data (seq # seqs) contentLen todo st =
     (let pd = (if p_gb (m_data st) = NULL then data else m_data st);
          plen = (if contentLen > unat chunk then unat chunk else contentLen);
          pd = pd\<lparr>contentLength := plen, originalContentLength := plen,
                  totalContentLength := todo, totalOriginalContentLength := tot\<rparr> in
      case do_retry (part_once env opt key len chunk seq plen) RETRYCOUNT (st\<lparr>m_data := pd\<rparr>) of
        None \<Rightarrow> None
      | Some st \<Rightarrow>
         if p_status (m_data st) \<noteq> S3StatusOK then Some (False, st)
         else if um_gb (m_man st) \<noteq> NULL then None
         else part_loop env opt key len chunk tot data seqs (contentLen - plen) (todo - plen) st)"

section \<open>Commit\<close>

definition part_entry :: "nat \<Rightarrow> string \<Rightarrow> string" where
  "part_entry i etag =
     ''<Part><PartNumber>'' @ dec i @ ''</PartNumber><ETag>'' @ etag @ ''</ETag></Part>''"

text \<open>\<^verbatim>\<open>size += growbuffer_append(&(manager.gb), str, strlen(str))\<close>\<close>

definition append_bytes :: "allocator \<Rightarrow> byte list \<Rightarrow> gbheap \<times> addr \<times> nat \<Rightarrow> (gbheap \<times> addr \<times> nat) option" where
  "append_bytes al bs st =
     (case st of (h, gb, size_acc) \<Rightarrow>
        map_option (\<lambda>(n, h', gb'). (h', gb', size_acc + n)) (growbuffer_append al h gb bs))"

text \<open>
  One \<^verbatim>\<open>Part\<close> element: formatted into 256 bytes, then as many bytes appended as the whole
  output has. More than 256 reads past the buffer (\<open>None\<close>).
\<close>

definition append_part :: "allocator \<Rightarrow> nat \<Rightarrow> string option \<Rightarrow> gbheap \<times> addr \<times> nat \<Rightarrow> (gbheap \<times> addr \<times> nat) option" where
  "append_part al i etag st =
     (let (n, buf) = snprintf 256 (part_entry i (case etag of None \<Rightarrow> ''(null)'' | Some e \<Rightarrow> e)) in
      if n > 256 then None else append_bytes al (bytes_of (take (nat n) (buf @ [CHR 0x00]))) st)"

fun append_parts :: "allocator \<Rightarrow> nat \<Rightarrow> string option list \<Rightarrow> gbheap \<times> addr \<times> nat \<Rightarrow> (gbheap \<times> addr \<times> nat) option" where
  "append_parts al i [] st = Some st"
| "append_parts al i (e # es) st =
     (case append_part al (i + 1) e st of None \<Rightarrow> None | Some st \<Rightarrow> append_parts al (i + 1) es st)"

definition build_commit :: "allocator \<Rightarrow> string option list \<Rightarrow> gbheap \<Rightarrow> addr \<Rightarrow> (gbheap \<times> addr \<times> nat) option" where
  "build_commit al tags h gb =
     (case append_bytes al (bytes_of ''<CompleteMultipartUpload>'') (h, gb, 0) of
        None \<Rightarrow> None
      | Some st \<Rightarrow>
         (case append_parts al 0 tags st of
            None \<Rightarrow> None
          | Some st \<Rightarrow> append_bytes al (bytes_of ''</CompleteMultipartUpload>'') st))"

text \<open>
  One round of the commit loop. Whether it goes on is asked of \<^verbatim>\<open>manager.remaining\<close>, read as
  a status.
\<close>

definition commit_once :: "env \<Rightarrow> string \<Rightarrow> UploadManager \<times> ct \<Rightarrow> (bool \<times> (UploadManager \<times> ct)) option" where
  "commit_once env key st =
     (let (manager, s) = st; n = remaining manager; (bufs, outcome) = e_commit env (hist s) key n in
      case pull_all multipart_commit_response_callback bufs (manager, gbh s) of
        None \<Rightarrow> None
      | Some (body, (manager', h)) \<Rightarrow>
         (let manager' = multipart_commit_response_complete_callback (outcome body) manager' in
          Some (e_retryable env (e_status_of_int env (int (remaining manager'))),
                (manager', emit (EvCommit key (uid_of manager) n body (outcome body)) (s\<lparr>gbh := h\<rparr>)))))"

definition commit_upload :: "env \<Rightarrow> string \<Rightarrow> UploadManager \<Rightarrow> ct \<Rightarrow> (UploadManager \<times> ct) option" where
  "commit_upload env key manager s =
     (case build_commit (e_gballoc env) (etags manager) (gbh s) (um_gb manager) of
        None \<Rightarrow> None
      | Some (h, gb, size_acc) \<Rightarrow>
         do_retry (commit_once env key) RETRYCOUNT
           (manager\<lparr>um_gb := gb, remaining := size_acc\<rparr>, s\<lparr>gbh := h\<rparr>))"

section \<open>ct\_archive\_data\_big\<close>

text \<open>
  Label \<^verbatim>\<open>clean\<close>. The upload id and the entity tags are freed here as well; their memory is
  not modelled.
\<close>

definition big_clean :: "int \<Rightarrow> UploadManager \<Rightarrow> ct \<Rightarrow> (int \<times> ct) option" where
  "big_clean rc manager s =
     map_option (\<lambda>h. (rc, s\<lparr>gbh := h\<rparr>)) (growbuffer_destroy (gbh s) (um_gb manager))"

text \<open>From the initiated upload on.\<close>

definition big_upload ::
  "env \<Rightarrow> ct_options \<Rightarrow> string \<Rightarrow> string \<Rightarrow> int \<Rightarrow> u64 \<Rightarrow> u64 \<Rightarrow> u64 \<Rightarrow> nat \<Rightarrow> int \<Rightarrow> UploadManager \<Rightarrow> ct \<Rightarrow> (int \<times> ct) option" where
  "big_upload env opt src object_name src_fd st_size len chunk total_seq last_report manager s =
     (let data = zero_put_data\<lparr>file_name := src, p_fd := src_fd\<rparr>;
          todo = unat st_size - unat chunk * next_etags_pos manager in
      case part_loop env opt object_name len chunk (unat st_size) data
             [next_etags_pos manager + 1..<total_seq + 1] (unat st_size) todo
             \<lparr>m_data = zero_put_data, m_man = manager, m_last = last_report, m_ct = s\<rparr> of
        None \<Rightarrow> None
      | Some (ok, st) \<Rightarrow>
         if \<not> ok then big_clean (- EIO) (m_man st) (m_ct st)
         else
           (case commit_upload env object_name (m_man st) (m_ct st) of
              None \<Rightarrow> None
            | Some (manager, s) \<Rightarrow> big_clean (if remaining manager \<noteq> 0 then - EIO else 0) manager s))"

definition ct_archive_data_big ::
  "env \<Rightarrow> ct_options \<Rightarrow> string \<Rightarrow> string \<Rightarrow> int \<Rightarrow> u64 \<Rightarrow> hsm_action_item \<Rightarrow> ct \<Rightarrow> (int \<times> ct) option" where
  "ct_archive_data_big env opt src object_name src_fd st_size hai s =
     (let (rc, s) = ct_save_stripe env s in
      if rc \<noteq> 0 then Some (-1, s)
      else
        (let len = extent_length hai st_size;
             last_report = e_time env (hist s);
             s = emit (EvTime last_report) s;
             (_, s) = llapi_hsm_action_progress_ex env
                        \<lparr>he_offset = he_offset (hai_extent hai), he_length = 0\<rparr> len s in
         case ct_get_chunksize st_size of
           None \<Rightarrow> None
         | Some (chunk, total_seq) \<Rightarrow>
            (let manager = \<lparr>upload_id = None, etags = replicate (unat total_seq) None, next_etags_pos = 0,
                            um_gb = NULL, remaining = 0\<rparr> in
             case do_retry (init_once env object_name) RETRYCOUNT (manager, s) of
               None \<Rightarrow> None
             | Some (manager, s) \<Rightarrow>
                if upload_id manager = None then big_clean (- EIO) manager s
                else if um_gb manager \<noteq> NULL then None
                else big_upload env opt src object_name src_fd st_size len chunk (unat total_seq)
                       last_report manager s)))"

section \<open>The events on the way: first parts, then commits\<close>

lemma init_events:
  assumes "do_retry (init_once env key) k (m, s) = Some (m', s')"
  shows "grows part_event s s'"
proof -
  have "grows part_event s (snd (m', s'))"
    by (rule do_retry_inv [OF assms, where I = "\<lambda>st. grows part_event s (snd st)"])
      (auto simp: init_once_def S3_initiate_multipart_def Let_def split: prod.splits)
  then show ?thesis by simp
qed

lemma part_report_events: "grows part_event (m_ct st) (m_ct (part_report env opt len chunk seq plen t st))"
proof -
  obtain r s where p: "llapi_hsm_action_progress_ex env \<lparr>he_offset = of_nat (seq - 1) * chunk, he_length = of_nat plen\<rparr> len (m_ct st) = (r, s)"
    by (metis surj_pair)
  show ?thesis using frameD(1) [OF stage_frames(1) [OF p, THEN conjunct2]] p by (simp add: part_report_def Let_def)
qed

lemma part_once_events:
  assumes "part_once env opt key len chunk seq plen st = Some (again, st')"
  shows "grows part_event (m_ct st) (m_ct st')"
proof -
  have up: "grows part_event (m_ct u) (m_ct u')" if "S3_upload_part env key seq plen u = Some u'" for u u'
    using that by (auto simp: S3_upload_part_def Let_def split: prod.splits option.splits)
  define v where "v = st\<lparr>m_data := (m_data st)\<lparr>p_status := S3StatusOK\<rparr>,
      m_ct := (m_ct st)\<lparr>world := sys_lseek (world (m_ct st)) (p_fd (m_data st)) ((seq - 1) * unat chunk)\<rparr>\<rparr>"
  obtain u where u: "S3_upload_part env key seq plen v = Some u"
    using assms by (auto simp: part_once_def Let_def v_def split: option.splits)
  define w where "w = u\<lparr>m_ct := emit (EvTime (e_time env (hist (m_ct u)))) (m_ct u)\<rparr>"
  have "grows part_event (m_ct st) (m_ct w)" using up [OF u] by (simp add: v_def w_def)
  then have "grows part_event (m_ct st) (m_ct w)"
    and "grows part_event (m_ct st) (m_ct (part_report env opt len chunk seq plen (e_time env (hist (m_ct u))) w))"
    using part_report_events grows_trans by blast+
  moreover have "st' = (if next_etags_pos (m_man w) \<noteq> seq then w\<lparr>m_data := (m_data w)\<lparr>p_status := S3StatusErrorRequestTimeout\<rparr>\<rparr>
      else part_report env opt len chunk seq plen (e_time env (hist (m_ct u))) w)"
    using assms u unfolding part_once_def Let_def v_def w_def by simp
  ultimately show ?thesis by simp
qed

lemma part_loop_events:
  "part_loop env opt key len chunk tot data seqs cl todo st = Some (ok, st') \<Longrightarrow> grows part_event (m_ct st) (m_ct st')"
proof (induction env opt key len chunk tot data seqs cl todo st rule: part_loop.induct)
  case (2 env opt key len chunk tot data seq seqs cl todo st)
  define plen where "plen = (if cl > unat chunk then unat chunk else cl)"
  define pd where "pd = (if p_gb (m_data st) = NULL then data else m_data st)
    \<lparr>contentLength := plen, originalContentLength := plen, totalContentLength := todo, totalOriginalContentLength := tot\<rparr>"
  have eq: "part_loop env opt key len chunk tot data (seq # seqs) cl todo st =
      (case do_retry (part_once env opt key len chunk seq plen) RETRYCOUNT (st\<lparr>m_data := pd\<rparr>) of
         None \<Rightarrow> None
       | Some u \<Rightarrow>
          if p_status (m_data u) \<noteq> S3StatusOK then Some (False, u)
          else if um_gb (m_man u) \<noteq> NULL then None
          else part_loop env opt key len chunk tot data seqs (cl - plen) (todo - plen) u)"
    unfolding part_loop.simps Let_def plen_def pd_def by (rule refl)
  obtain u where u: "do_retry (part_once env opt key len chunk seq plen) RETRYCOUNT (st\<lparr>m_data := pd\<rparr>) = Some u"
    using 2(2) unfolding eq by (auto split: option.splits)
  have g: "grows part_event (m_ct st) (m_ct u)"
    by (rule do_retry_inv [OF u, where I = "\<lambda>v. grows part_event (m_ct st) (m_ct v)"])
      (auto dest: part_once_events intro: grows_trans)
  consider "st' = u"
    | "part_loop env opt key len chunk tot data seqs (cl - plen) (todo - plen) u = Some (ok, st')"
      "p_status (m_data u) = S3StatusOK" "um_gb (m_man u) = NULL"
    using 2(2) u unfolding eq by (auto split: if_splits)
  then show ?case
  proof cases
    case 1
    then show ?thesis using g by simp
  next
    case r: 2
    have "grows part_event (m_ct u) (m_ct st')"
      using 2(1) [OF refl plen_def pd_def u] r by simp
    then show ?thesis by (rule grows_trans [OF g])
  qed
qed auto

lemma commit_events:
  assumes "commit_upload env key m s = Some (m', s')"
  shows "grows commit_event s s'"
proof -
  obtain h gb n where r: "do_retry (commit_once env key) RETRYCOUNT (m\<lparr>um_gb := gb, remaining := n\<rparr>, s\<lparr>gbh := h\<rparr>) = Some (m', s')"
    using assms by (auto simp: commit_upload_def split: option.splits)
  have "grows commit_event s (snd (m', s'))"
    by (rule do_retry_inv [OF r, where I = "\<lambda>st. grows commit_event s (snd st)"])
      (auto simp: commit_once_def Let_def split: prod.splits option.splits)
  then show ?thesis by simp
qed

text \<open>A run of the upload: what comes before the commit, and the commit\<close>

definition upload_run :: "ct \<Rightarrow> ct \<Rightarrow> bool" where
  "upload_run s s' \<longleftrightarrow> (\<exists>u. grows part_event s u \<and> grows commit_event u s')"

lemma upload_run_parts: "grows part_event s s' \<Longrightarrow> upload_run s s'"
  by (auto simp: upload_run_def)

lemma upload_run_after: "grows part_event s t \<Longrightarrow> upload_run t s' \<Longrightarrow> upload_run s s'"
  by (auto simp: upload_run_def intro: grows_trans)

lemma upload_run_no_end: "upload_run s s' \<Longrightarrow> grows no_end s s'"
  by (auto simp: upload_run_def intro: grows_trans grows_mono [OF _ stage_no_end(2)] grows_mono [OF _ stage_no_end(3)])

lemma clean_hist: "big_clean r m s = Some (r', s') \<Longrightarrow> hist s' = hist s"
  by (auto simp: big_clean_def)

lemma big_upload_events:
  assumes "big_upload env opt src key fd st_size len chunk n t m s = Some (rc, s')"
  shows "upload_run s s'"
proof -
  have same: "grows P v u' = grows P v u" if "hist u' = hist u" for P v u u'
    using that by (simp add: grows_def)
  obtain ok st where l: "part_loop env opt key len chunk (unat st_size) (zero_put_data\<lparr>file_name := src, p_fd := fd\<rparr>)
      [next_etags_pos m + 1..<n + 1] (unat st_size) (unat st_size - unat chunk * next_etags_pos m)
      \<lparr>m_data = zero_put_data, m_man = m, m_last = t, m_ct = s\<rparr> = Some (ok, st)"
    using assms by (auto simp: big_upload_def Let_def split: option.splits)
  note g = part_loop_events [OF l, simplified]
  show ?thesis
  proof (cases ok)
    case True
    then obtain m2 s2 r where u: "commit_upload env key (m_man st) (m_ct st) = Some (m2, s2)" and c: "big_clean r m2 s2 = Some (rc, s')"
      using assms l by (auto simp: big_upload_def Let_def split: option.splits)
    then show ?thesis using g commit_events [OF u] same [OF clean_hist [OF c]] by (auto simp: upload_run_def)
  next
    case False
    then have "big_clean (- EIO) (m_man st) (m_ct st) = Some (rc, s')" using assms l by (simp add: big_upload_def Let_def)
    then show ?thesis using g same [OF clean_hist] by (blast intro: upload_run_parts)
  qed
qed

lemma archive_data_big_events:
  assumes "ct_archive_data_big env opt src key fd st_size hai s = Some (rc, s')"
  shows "upload_run s s'"
proof -
  obtain r1 s1 where 1: "ct_save_stripe env s = (r1, s1)" by (metis surj_pair)
  define s2 where "s2 = emit (EvTime (e_time env (hist s1))) s1"
  obtain r3 s3 where 3: "llapi_hsm_action_progress_ex env \<lparr>he_offset = he_offset (hai_extent hai), he_length = 0\<rparr>
      (extent_length hai st_size) s2 = (r3, s3)" by (metis surj_pair)
  have g: "grows part_event s s1" "grows part_event s1 s2" "grows part_event s2 s3"
    using frameD(1) stage_frames(2) [OF 1] stage_frames(1) [OF 3] by (auto simp: s2_def)
  then have g3: "grows part_event s s3" by (blast intro: grows_trans)
  show ?thesis
  proof (cases "r1 = 0")
    case True
    then obtain m k m' s4 where i: "do_retry (init_once env key) k (m, s3) = Some (m', s4)"
      and r: "(\<exists>r. big_clean r m' s4 = Some (rc, s')) \<or>
        (\<exists>len chunk n t. big_upload env opt src key fd st_size len chunk n t m' s4 = Some (rc, s'))"
      using assms 1 3 by (simp add: ct_archive_data_big_def Let_def s2_def split: option.splits if_splits prod.splits; blast)
    have "upload_run s4 s'" using r big_upload_events upload_run_parts [of s4 s'] by (auto simp: big_clean_def)
    then show ?thesis using g3 init_events [OF i] by (blast intro: upload_run_after)
  next
    case False
    then show ?thesis using assms 1 g(1) by (simp add: ct_archive_data_big_def upload_run_parts)
  qed
qed

section \<open>What the store holds\<close>

text \<open>
  The bytes and the entity tag of a part of an upload: those of the last upload of it that was
  accepted, as S3 keeps them.
\<close>

fun latest_part :: "history \<Rightarrow> string \<Rightarrow> string \<Rightarrow> nat \<Rightarrow> (byte list \<times> string) option" where
  "latest_part [] key uid seq = None"
| "latest_part (EvPart k u q n body (Some e) S3StatusOK # h) key uid seq =
     (if k = key \<and> u = uid \<and> q = seq then Some (body, e) else latest_part h key uid seq)"
| "latest_part (ev # h) key uid seq = latest_part h key uid seq"

text \<open>What was sent of the commit document of an upload, over all attempts.\<close>

fun commit_sent :: "history \<Rightarrow> string \<Rightarrow> string \<Rightarrow> byte list" where
  "commit_sent [] key uid = []"
| "commit_sent (EvCommit k u n body status # h) key uid =
     commit_sent h key uid @ (if k = key \<and> u = uid then body else [])"
| "commit_sent (ev # h) key uid = commit_sent h key uid"

text \<open>S3 promises entity tags that fit the buffer of the commit document.\<close>

definition short_etags :: "env \<Rightarrow> bool" where
  "short_etags env \<longleftrightarrow>
     (\<forall>h key seq n body e. fst (snd (e_part env h key seq n) body) = Some e \<longrightarrow> length e \<le> 199)"

text \<open>Events that change nothing in the store.\<close>

fun no_upload :: "event \<Rightarrow> bool" where
  "no_upload (EvPart k u q n body e st) = False"
| "no_upload (EvCommit k u n body st) = False"
| "no_upload (EvPut k n body st) = False"
| "no_upload (EvDelete k st) = False"
| "no_upload _ = True"

lemma latest_part_part:
  "latest_part (EvPart k u q n body e st # h) key uid seq =
     (if e \<noteq> None \<and> st = S3StatusOK \<and> k = key \<and> u = uid \<and> q = seq then Some (body, the e)
      else latest_part h key uid seq)"
  by (cases e; cases st) auto

lemma no_upload_keeps:
  assumes "no_upload ev"
  shows "latest_part (ev # h) key uid seq = latest_part h key uid seq"
    and "commit_sent (ev # h) key uid = commit_sent h key uid"
  using assms by (cases ev; simp)+

lemma no_upload_grows:
  assumes "grows no_upload s s'"
  shows "latest_part (hist s') key uid seq = latest_part (hist s) key uid seq"
    and "commit_sent (hist s') key uid = commit_sent (hist s) key uid"
proof -
  have "latest_part (es @ h) key uid seq = latest_part h key uid seq \<and>
      commit_sent (es @ h) key uid = commit_sent h key uid" if "\<forall>e \<in> set es. no_upload e" for es h
    using that by (induction es) (auto simp: no_upload_keeps)
  then show "latest_part (hist s') key uid seq = latest_part (hist s) key uid seq"
    and "commit_sent (hist s') key uid = commit_sent (hist s) key uid"
    using assms by (auto simp: grows_def)
qed

section \<open>One attempt at a part\<close>

definition has_file :: "int \<Rightarrow> byte list \<Rightarrow> ct \<Rightarrow> bool" where
  "has_file fd bytes s \<longleftrightarrow> fd \<noteq> 0 \<and> (\<exists>f. os_files (world s) fd = Some f \<and> f_data f = bytes)"

lemma has_file_emit [simp]: "has_file fd bytes (emit e s) = has_file fd bytes s"
  by (simp add: has_file_def)

lemma has_file_frame: "frame P s s' \<Longrightarrow> has_file fd bytes s' = has_file fd bytes s"
  by (simp add: has_file_def frame_def)

lemma S3_upload_part_spec:
  assumes fl: "os_files (world (m_ct st)) (p_fd (m_data st)) = Some f" "p_fd (m_data st) \<noteq> 0"
    and len: "contentLength (m_data st) \<le> plen" "f_pos f + plen \<le> length (f_data f)"
    and honest: "honest_part env"
  shows "\<exists>body etag status data w.
    S3_upload_part env key seq plen st = Some (st\<lparr>m_data := data,
        m_man := (case etag of None \<Rightarrow> m_man st
                  | Some e \<Rightarrow> multipart_put_part_response_properies_callback seq e (m_man st)),
        m_ct := emit (EvPart key (uid_of (m_man st)) seq plen body etag status) ((m_ct st)\<lparr>world := w\<rparr>)\<rparr>) \<and>
    contentLength data \<le> plen \<and> p_fd data = p_fd (m_data st) \<and> p_gb data = p_gb (m_data st) \<and>
    p_status data = status \<and> map_option f_data (os_files w (p_fd (m_data st))) = Some (f_data f) \<and>
    (status = S3StatusOK \<longrightarrow> body = take plen (drop (f_pos f) (f_data f)) \<and> etag \<noteq> None) \<and>
    (short_etags env \<longrightarrow> (\<forall>e. etag = Some e \<longrightarrow> length e \<le> 199))"
proof -
  let ?d = "m_data st" and ?s = "m_ct st"
  obtain bufs outcome where e: "e_part env (hist ?s) key seq plen = (bufs, outcome)"
    by (cases "e_part env (hist ?s) key seq plen") auto
  have inv: "mp_inv (?d, world ?s)" using fl len by (simp add: mp_inv_def)
  obtain body d1 w rest where p: "pull_all multipart_put_objectdata_callback bufs (?d, world ?s) = Some (body, (d1, w))"
    "mp_pending (?d, world ?s) = body @ rest"
    using mpsrc.pull_all_prefix [OF inv, of bufs] by auto
  note after = pull_mp_after [OF inv p(1)]
  obtain etag status where o: "outcome body = (etag, status)" by (cases "outcome body") auto
  let ?data = "multipart_put_response_complete_callback status d1"
  have run: "S3_upload_part env key seq plen st = Some (st\<lparr>m_data := ?data,
        m_man := (case etag of None \<Rightarrow> m_man st
                  | Some e \<Rightarrow> multipart_put_part_response_properies_callback seq e (m_man st)),
        m_ct := emit (EvPart key (uid_of (m_man st)) seq plen body etag status) (?s\<lparr>world := w\<rparr>)\<rparr>)"
    by (simp add: S3_upload_part_def e p(1) o Let_def)
  have ok: "body = take plen (drop (f_pos f) (f_data f)) \<and> etag \<noteq> None" if "status = S3StatusOK"
  proof -
    have "length body = plen" "etag \<noteq> None"
      using honest_partD [OF honest, of "hist ?s" key seq plen body] e o that by simp_all
    moreover have "length body \<le> contentLength ?d" using after by simp
    ultimately have "contentLength ?d = plen" using len(1) by simp
    then have "body @ rest = take plen (drop (f_pos f) (f_data f))" using p(2) fl(1) by (simp add: mp_pending_def)
    moreover from this have "length body + length rest \<le> plen"
      by (metis length_append length_take min.cobounded2)
    ultimately show ?thesis using \<open>length body = plen\<close> \<open>etag \<noteq> None\<close> by simp
  qed
  have "\<forall>e. etag = Some e \<longrightarrow> length e \<le> 199" if "short_etags env"
    using that [unfolded short_etags_def, rule_format, of "hist ?s" key seq plen body] e o by simp
  then show ?thesis
    using run ok after fl(1) len(1)
    by (intro exI [of _ body] exI [of _ etag] exI [of _ status] exI [of _ ?data] exI [of _ w])
      (auto simp: multipart_put_response_complete_callback_def)
qed

definition tags_short :: "string option list \<Rightarrow> bool" where
  "tags_short tags \<longleftrightarrow> (\<forall>e. Some e \<in> set tags \<longrightarrow> length e \<le> 199)"

lemma tags_short_upd: "tags_short tags \<Longrightarrow> length e \<le> 199 \<Longrightarrow> tags_short (tags[i := Some e])"
  unfolding tags_short_def using set_update_subset_insert [of tags i "Some e"] by auto

text \<open>What holds between attempts at part \<open>q\<close>, compared with the state before the first.\<close>

definition part_inv :: "byte list \<Rightarrow> int \<Rightarrow> string \<Rightarrow> string \<Rightarrow> nat \<Rightarrow> nat \<Rightarrow> mpstate \<Rightarrow> mpstate \<Rightarrow> bool" where
  "part_inv bytes fd key uid q plen st0 st \<longleftrightarrow>
     p_fd (m_data st) = fd \<and> p_gb (m_data st) = NULL \<and> contentLength (m_data st) \<le> plen \<and>
     has_file fd bytes (m_ct st) \<and> upload_id (m_man st) = Some uid \<and> um_gb (m_man st) = NULL \<and>
     length (etags (m_man st)) = length (etags (m_man st0)) \<and> tags_short (etags (m_man st)) \<and>
     (\<forall>i. i \<noteq> q - 1 \<longrightarrow> etags (m_man st) ! i = etags (m_man st0) ! i) \<and>
     (\<forall>q'. q' \<noteq> q \<longrightarrow> latest_part (hist (m_ct st)) key uid q' = latest_part (hist (m_ct st0)) key uid q') \<and>
     commit_sent (hist (m_ct st)) key uid = commit_sent (hist (m_ct st0)) key uid \<and>
     err_major (m_ct st) = err_major (m_ct st0) \<and> gbh (m_ct st) = gbh (m_ct st0)"

text \<open>The part is in the store, with its entity tag in the manager.\<close>

definition part_done :: "byte list \<Rightarrow> string \<Rightarrow> string \<Rightarrow> nat \<Rightarrow> mpstate \<Rightarrow> bool" where
  "part_done body key uid q st \<longleftrightarrow>
     (\<exists>e. latest_part (hist (m_ct st)) key uid q = Some (body, e) \<and> etags (m_man st) ! (q - 1) = Some e)"

lemma part_report_frame:
  assumes "part_report env opt len chunk seq plen t st = st'"
  shows "m_data st' = m_data st \<and> m_man st' = m_man st \<and> frame no_upload (m_ct st) (m_ct st')"
proof -
  obtain rc s where p: "llapi_hsm_action_progress_ex env
      \<lparr>he_offset = of_nat (seq - 1) * chunk, he_length = of_nat plen\<rparr> len (m_ct st) = (rc, s)"
    by (cases "llapi_hsm_action_progress_ex env
      \<lparr>he_offset = of_nat (seq - 1) * chunk, he_length = of_nat plen\<rparr> len (m_ct st)") auto
  have "frame no_upload (m_ct st) s" using progress_frame [OF p] by (auto elim!: frame_mono)
  then show ?thesis using assms p by (auto simp: part_report_def)
qed

lemma part_inv_frame:
  assumes "part_inv bytes fd key uid q plen st0 st" and "m_data st' = m_data st" and "m_man st' = m_man st"
    and "frame no_upload (m_ct st) (m_ct st')"
  shows "part_inv bytes fd key uid q plen st0 st'"
  using assms no_upload_grows [OF frameD(1) [OF assms(4)]] frameD [OF assms(4)] has_file_frame [OF assms(4)]
  by (simp add: part_inv_def)

lemma part_done_frame:
  assumes "part_done body key uid q st" and "m_man st' = m_man st" and "frame no_upload (m_ct st) (m_ct st')"
  shows "part_done body key uid q st'"
  using assms no_upload_grows [OF frameD(1) [OF assms(3)]] by (simp add: part_done_def)

text \<open>An upload that was made keeps the invariant; if it was accepted the part is done.\<close>

lemma upload_keeps:
  assumes inv: "part_inv bytes fd key uid q plen st0 st" and q: "1 \<le> q" "q \<le> length (etags (m_man st0))"
    and man: "m_man st' = (case etag of None \<Rightarrow> m_man st
                | Some e \<Rightarrow> multipart_put_part_response_properies_callback q e (m_man st))"
    and ct: "m_ct st' = emit (EvPart key (uid_of (m_man st)) q n body etag (p_status (m_data st'))) ((m_ct st)\<lparr>world := w\<rparr>)"
    and data: "contentLength (m_data st') \<le> plen" "p_fd (m_data st') = fd" "p_gb (m_data st') = NULL"
    and fl: "map_option f_data (os_files w fd) = Some bytes"
    and tag: "\<forall>e. etag = Some e \<longrightarrow> length e \<le> 199"
  shows "part_inv bytes fd key uid q plen st0 st'"
    and "p_status (m_data st') = S3StatusOK \<Longrightarrow> etag \<noteq> None \<Longrightarrow>
           part_done body key uid q st' \<and> next_etags_pos (m_man st') = q"
proof -
  have u: "uid_of (m_man st) = uid" using inv by (simp add: part_inv_def uid_of_def)
  show "part_inv bytes fd key uid q plen st0 st'"
    using inv man ct data fl tag
    by (cases etag) (auto simp: part_inv_def has_file_def latest_part_part tags_short_upd
        multipart_put_part_response_properies_callback_def)
  show "part_done body key uid q st' \<and> next_etags_pos (m_man st') = q"
    if "p_status (m_data st') = S3StatusOK" "etag \<noteq> None"
    using that inv man ct u q
    by (auto simp: part_done_def latest_part_part part_inv_def multipart_put_part_response_properies_callback_def)
qed

text \<open>The upload of a part, from the position of the part in the file\<close>

lemma part_upload_spec:
  assumes inv: "part_inv bytes fd key uid q plen st0 st" and q: "1 \<le> q" "q \<le> length (etags (m_man st0))"
    and room: "(q - 1) * unat chunk + plen \<le> length bytes" and env: "honest_part env" "short_etags env"
    and u: "u = st\<lparr>m_data := (m_data st)\<lparr>p_status := S3StatusOK\<rparr>,
              m_ct := (m_ct st)\<lparr>world := sys_lseek (world (m_ct st)) fd ((q - 1) * unat chunk)\<rparr>\<rparr>"
  shows "\<exists>v. S3_upload_part env key q plen u = Some v \<and> part_inv bytes fd key uid q plen st0 v \<and>
           (p_status (m_data v) = S3StatusOK \<longrightarrow> part_done (take plen (drop ((q - 1) * unat chunk) bytes)) key uid q v)"
proof -
  let ?p = "(q - 1) * unat chunk"
  obtain f where f: "os_files (world (m_ct st)) fd = Some f" "f_data f = bytes" "fd \<noteq> 0"
    and fd: "p_fd (m_data st) = fd"
    using inv by (auto simp: part_inv_def has_file_def)
  have uf: "os_files (world (m_ct u)) (p_fd (m_data u)) = Some (f\<lparr>f_pos := ?p\<rparr>)"
    using f fd by (simp add: u sys_lseek_def)
  have ui: "part_inv bytes fd key uid q plen st0 u"
    using inv f by (simp add: u part_inv_def has_file_def sys_lseek_def)
  have ud: "p_fd (m_data u) = fd" "p_gb (m_data u) = NULL" "contentLength (m_data u) \<le> plen"
    using ui by (auto simp: part_inv_def)
  have un: "p_fd (m_data u) \<noteq> 0" "f_pos (f\<lparr>f_pos := ?p\<rparr>) + plen \<le> length (f_data (f\<lparr>f_pos := ?p\<rparr>))"
    using ud(1) f room by simp_all
  obtain body etag status data w where up:
    "S3_upload_part env key q plen u = Some (u\<lparr>m_data := data,
        m_man := (case etag of None \<Rightarrow> m_man u
                  | Some e \<Rightarrow> multipart_put_part_response_properies_callback q e (m_man u)),
        m_ct := emit (EvPart key (uid_of (m_man u)) q plen body etag status) ((m_ct u)\<lparr>world := w\<rparr>)\<rparr>)"
    and dd: "contentLength data \<le> plen" "p_fd data = p_fd (m_data u)" "p_gb data = p_gb (m_data u)"
    "p_status data = status"
    "map_option f_data (os_files w (p_fd (m_data u))) = Some (f_data (f\<lparr>f_pos := ?p\<rparr>))"
    "status = S3StatusOK \<longrightarrow> body = take plen (drop (f_pos (f\<lparr>f_pos := ?p\<rparr>)) (f_data (f\<lparr>f_pos := ?p\<rparr>))) \<and> etag \<noteq> None"
    "short_etags env \<longrightarrow> (\<forall>e. etag = Some e \<longrightarrow> length e \<le> 199)"
    using S3_upload_part_spec [OF uf un(1) ud(3) un(2) env(1), of key q] by (elim exE conjE) (rule that)
  have d: "contentLength data \<le> plen" "p_fd data = fd" "p_gb data = NULL" "p_status data = status"
    "map_option f_data (os_files w fd) = Some bytes"
    "status = S3StatusOK \<longrightarrow> body = take plen (drop ?p bytes) \<and> etag \<noteq> None"
    "\<forall>e. etag = Some e \<longrightarrow> length e \<le> 199"
    using dd ud(1,2) f(2) env(2) by simp_all
  define v where "v = u\<lparr>m_data := data,
        m_man := (case etag of None \<Rightarrow> m_man u
                  | Some e \<Rightarrow> multipart_put_part_response_properies_callback q e (m_man u)),
        m_ct := emit (EvPart key (uid_of (m_man u)) q plen body etag status) ((m_ct u)\<lparr>world := w\<rparr>)\<rparr>"
  have vm: "m_man v = (case etag of None \<Rightarrow> m_man u
      | Some e \<Rightarrow> multipart_put_part_response_properies_callback q e (m_man u))"
    and vc: "m_ct v = emit (EvPart key (uid_of (m_man u)) q plen body etag (p_status (m_data v))) ((m_ct u)\<lparr>world := w\<rparr>)"
    and vd: "contentLength (m_data v) \<le> plen" "p_fd (m_data v) = fd" "p_gb (m_data v) = NULL" "p_status (m_data v) = status"
    using d(1-4) by (simp_all add: v_def)
  note keeps = upload_keeps [OF ui q vm vc vd(1-3) d(5,7)]
  have "part_done (take plen (drop ?p bytes)) key uid q v" if "p_status (m_data v) = S3StatusOK"
    using keeps(2) vd(4) d(6) that by simp
  then show ?thesis using up [folded v_def] keeps(1) by blast
qed

lemma part_once_spec:
  assumes inv: "part_inv bytes fd key uid q plen st0 st" and q: "1 \<le> q" "q \<le> length (etags (m_man st0))"
    and room: "(q - 1) * unat chunk + plen \<le> length bytes" and env: "honest_part env" "short_etags env"
  shows "\<exists>again st'. part_once env opt key len chunk q plen st = Some (again, st') \<and>
           part_inv bytes fd key uid q plen st0 st' \<and>
           (p_status (m_data st') = S3StatusOK \<longrightarrow>
              part_done (take plen (drop ((q - 1) * unat chunk) bytes)) key uid q st')"
proof -
  let ?p = "(q - 1) * unat chunk"
  have fd: "p_fd (m_data st) = fd" using inv by (auto simp: part_inv_def)
  define u where "u = st\<lparr>m_data := (m_data st)\<lparr>p_status := S3StatusOK\<rparr>,
      m_ct := (m_ct st)\<lparr>world := sys_lseek (world (m_ct st)) fd ?p\<rparr>\<rparr>"
  obtain v where up: "S3_upload_part env key q plen u = Some v" and v: "part_inv bytes fd key uid q plen st0 v"
    "p_status (m_data v) = S3StatusOK \<longrightarrow> part_done (take plen (drop ?p bytes)) key uid q v"
    using part_upload_spec [OF inv q room env u_def] by (elim exE conjE) (rule that)
  define t where "t = e_time env (hist (m_ct v))"
  define v1 where "v1 = v\<lparr>m_ct := emit (EvTime t) (m_ct v)\<rparr>"
  define r where "r = (if next_etags_pos (m_man v1) \<noteq> q
      then v1\<lparr>m_data := (m_data v1)\<lparr>p_status := S3StatusErrorRequestTimeout\<rparr>\<rparr>
      else part_report env opt len chunk q plen t v1)"
  have run: "part_once env opt key len chunk q plen st = Some (e_retryable env (p_status (m_data r)), r)"
    unfolding part_once_def Let_def fd u_def [symmetric] up option.case r_def v1_def t_def ..
  have f1: "m_man v1 = m_man v" "m_data v1 = m_data v" "frame no_upload (m_ct v) (m_ct v1)"
    by (simp_all add: v1_def)
  have i1: "part_inv bytes fd key uid q plen st0 v1" using part_inv_frame [OF v(1) f1(2,1,3)] .
  show ?thesis
  proof (cases "next_etags_pos (m_man v1) = q")
    case False
    then have "part_inv bytes fd key uid q plen st0 r" using i1 by (simp add: r_def part_inv_def)
    moreover have "p_status (m_data r) \<noteq> S3StatusOK" using False by (simp add: r_def)
    ultimately show ?thesis using run by simp
  next
    case True
    then have rf: "m_data r = m_data v1" "m_man r = m_man v1" "frame no_upload (m_ct v1) (m_ct r)"
      using part_report_frame [of env opt len chunk q plen t v1 r] by (simp_all add: r_def)
    have "part_inv bytes fd key uid q plen st0 r" using part_inv_frame [OF i1 rf] .
    moreover have "part_done (take plen (drop ?p bytes)) key uid q r" if "p_status (m_data r) = S3StatusOK"
    proof -
      have "part_done (take plen (drop ?p bytes)) key uid q v" using v(2) that rf(1) f1(2) by simp
      then show ?thesis using part_done_frame f1(1,3) rf(2,3) by metis
    qed
    ultimately show ?thesis using run by simp
  qed
qed

section \<open>All parts\<close>

definition up_inv :: "byte list \<Rightarrow> int \<Rightarrow> string \<Rightarrow> nat \<Rightarrow> mpstate \<Rightarrow> bool" where
  "up_inv bytes fd uid n st \<longleftrightarrow>
     p_gb (m_data st) = NULL \<and> has_file fd bytes (m_ct st) \<and> upload_id (m_man st) = Some uid \<and>
     um_gb (m_man st) = NULL \<and> length (etags (m_man st)) = n \<and> tags_short (etags (m_man st))"

text \<open>What the upload of later parts leaves alone.\<close>

definition up_keeps :: "string \<Rightarrow> string \<Rightarrow> nat \<Rightarrow> mpstate \<Rightarrow> mpstate \<Rightarrow> bool" where
  "up_keeps key uid q st st' \<longleftrightarrow>
     (\<forall>q'. 1 \<le> q' \<and> q' < q \<longrightarrow> etags (m_man st') ! (q' - 1) = etags (m_man st) ! (q' - 1) \<and>
        latest_part (hist (m_ct st')) key uid q' = latest_part (hist (m_ct st)) key uid q') \<and>
     commit_sent (hist (m_ct st')) key uid = commit_sent (hist (m_ct st)) key uid \<and>
     err_major (m_ct st') = err_major (m_ct st) \<and> gbh (m_ct st') = gbh (m_ct st)"

lemma up_keeps_done:
  "up_keeps key uid q st st' \<Longrightarrow> 1 \<le> q' \<Longrightarrow> q' < q \<Longrightarrow> part_done body key uid q' st \<Longrightarrow> part_done body key uid q' st'"
  by (simp add: up_keeps_def part_done_def)

lemma part_inv_up:
  assumes "part_inv bytes fd key uid q plen st0 st" and "length (etags (m_man st0)) = n"
  shows "up_inv bytes fd uid n st" and "1 \<le> q \<Longrightarrow> up_keeps key uid q st0 st"
proof -
  show "up_inv bytes fd uid n st" using assms by (simp add: part_inv_def up_inv_def)
  show "up_keeps key uid q st0 st" if "1 \<le> q"
  proof -
    have "q' - 1 \<noteq> q - 1 \<and> q' \<noteq> q" if "1 \<le> q'" "q' < q" for q' using that by linarith
    then show ?thesis using assms by (simp add: part_inv_def up_keeps_def)
  qed
qed

lemma part_retry_spec:
  assumes inv: "up_inv bytes fd uid n st" and q: "1 \<le> q" "q \<le> n"
    and d: "p_fd pd = fd" "p_gb pd = NULL" "contentLength pd = plen"
    and room: "(q - 1) * unat chunk + plen \<le> length bytes" and env: "honest_part env" "short_etags env"
  shows "\<exists>st'. do_retry (part_once env opt key len chunk q plen) k (st\<lparr>m_data := pd\<rparr>) = Some st' \<and>
           up_inv bytes fd uid n st' \<and> up_keeps key uid q st st' \<and>
           (p_status (m_data st') = S3StatusOK \<longrightarrow>
              part_done (take plen (drop ((q - 1) * unat chunk) bytes)) key uid q st')"
proof -
  let ?I = "part_inv bytes fd key uid q plen st"
  let ?Q = "\<lambda>(again :: bool) st'. ?I st' \<and> (p_status (m_data st') = S3StatusOK \<longrightarrow>
              part_done (take plen (drop ((q - 1) * unat chunk) bytes)) key uid q st')"
  have n: "length (etags (m_man st)) = n" using inv by (simp add: up_inv_def)
  have "\<exists>again st'. do_retry (part_once env opt key len chunk q plen) k (st\<lparr>m_data := pd\<rparr>) = Some st' \<and> ?Q again st'"
  proof (rule do_retry_total [where I = ?I])
    show "?I (st\<lparr>m_data := pd\<rparr>)" using inv d by (simp add: part_inv_def up_inv_def)
    show "\<exists>again s'. part_once env opt key len chunk q plen u = Some (again, s') \<and> (again \<longrightarrow> ?I s') \<and> ?Q again s'"
      if "?I u" for u
      using part_once_spec [OF that q(1) _ room env, of opt len] q(2) n by auto
  qed
  then show ?thesis using part_inv_up [OF _ n] q(1) by blast
qed

text \<open>The part length and the callback data the loop prepares for a part, and one turn of the loop.\<close>

definition part_data :: "put_object_callback_data \<Rightarrow> nat \<Rightarrow> nat \<Rightarrow> nat \<Rightarrow> put_object_callback_data" where
  "part_data data plen todo tot = data\<lparr>contentLength := plen, originalContentLength := plen,
     totalContentLength := todo, totalOriginalContentLength := tot\<rparr>"

lemma part_loop_step:
  assumes "q \<le> n" and "p_gb (m_data st) = NULL" and "um_gb (m_man st1) = NULL"
    and "plen = (if contentLen > unat chunk then unat chunk else contentLen)"
    and "do_retry (part_once env opt key len chunk q plen) RETRYCOUNT (st\<lparr>m_data := part_data data plen todo tot\<rparr>) = Some st1"
  shows "part_loop env opt key len chunk tot data [q..<n + 1] contentLen todo st =
      (if p_status (m_data st1) \<noteq> S3StatusOK then Some (False, st1)
       else part_loop env opt key len chunk tot data [Suc q..<n + 1] (contentLen - plen) (todo - plen) st1)"
proof -
  have "[q..<n + 1] = q # [Suc q..<n + 1]" using assms(1) by (simp add: upt_conv_Cons)
  then show ?thesis
    using assms(3,5)
    by (simp only: part_loop.simps Let_def assms(2) simp_thms if_True if_False assms(4) [symmetric]
        part_data_def [symmetric] option.case)
qed

lemma part_room:
  assumes "q \<le> n" and "(n - 1) * c \<le> size_all" and "contentLen = size_all - (q - 1) * c" and "1 \<le> q"
    and "plen = (if contentLen > c then c else contentLen)"
  shows "(q - 1) * c + plen \<le> size_all" and "contentLen - plen = size_all - (Suc q - 1) * (c :: nat)"
proof -
  have "(q - 1) * c \<le> (n - 1) * c" using assms(1) by (intro mult_le_mono1 diff_le_mono)
  moreover have "plen \<le> size_all - (q - 1) * c" using assms(3,5) by simp
  ultimately show "(q - 1) * c + plen \<le> size_all" using assms(2) by linarith
  show "contentLen - plen = size_all - (Suc q - 1) * c" using assms(3,4,5) by (cases q) auto
qed

lemma part_loop_spec:
  assumes env: "honest_part env" "short_etags env" and d: "p_fd data = fd" "p_gb data = NULL"
    and n: "(n - 1) * unat chunk \<le> length bytes" and q: "1 \<le> q" "q \<le> n + 1" and inv: "up_inv bytes fd uid n st"
    and cl: "contentLen = length bytes - (q - 1) * unat chunk"
  shows "\<exists>ok st'. part_loop env opt key len chunk tot data [q..<n + 1] contentLen todo st = Some (ok, st') \<and>
           up_inv bytes fd uid n st' \<and> up_keeps key uid q st st' \<and>
           (ok \<longrightarrow> (\<forall>q'. q \<le> q' \<and> q' \<le> n \<longrightarrow>
              part_done (take (unat chunk) (drop ((q' - 1) * unat chunk) bytes)) key uid q' st'))"
  using q inv cl
proof (induction "n + 1 - q" arbitrary: q contentLen todo st)
  case 0
  then have "q = n + 1" by simp
  then show ?case using 0 by (intro exI [of _ True] exI [of _ st]) (auto simp: up_keeps_def)
next
  case (Suc k)
  then have qn: "q \<le> n" and k: "k = n + 1 - Suc q" by auto
  let ?c = "unat chunk"
  define plen where "plen = (if contentLen > ?c then ?c else contentLen)"
  let ?pd = "part_data data plen todo tot"
  note room = part_room [OF qn n Suc.prems(4,1) plen_def]
  have body: "take plen (drop ((q - 1) * ?c) bytes) = take ?c (drop ((q - 1) * ?c) bytes)"
    using Suc.prems(4) by (simp add: plen_def)
  have pd: "p_fd ?pd = fd" "p_gb ?pd = NULL" "contentLength ?pd = plen" using d by (simp_all add: part_data_def)
  obtain st1 where r: "do_retry (part_once env opt key len chunk q plen) RETRYCOUNT (st\<lparr>m_data := ?pd\<rparr>) = Some st1"
    "up_inv bytes fd uid n st1" "up_keeps key uid q st st1"
    "p_status (m_data st1) = S3StatusOK \<longrightarrow> part_done (take ?c (drop ((q - 1) * ?c) bytes)) key uid q st1"
    using part_retry_spec [OF Suc.prems(3) Suc.prems(1) qn pd room(1) env, of opt key len RETRYCOUNT] body by auto
  have gb: "p_gb (m_data st) = NULL" "um_gb (m_man st1) = NULL" using Suc.prems(3) r(2) by (auto simp: up_inv_def)
  note step = part_loop_step [OF qn gb plen_def r(1)]
  show ?case
  proof (cases "p_status (m_data st1) = S3StatusOK")
    case False
    then show ?thesis using step r(2,3) by (intro exI [of _ False] exI [of _ st1]) simp
  next
    case True
    obtain ok st' where st': "part_loop env opt key len chunk tot data [Suc q..<n + 1] (contentLen - plen) (todo - plen) st1
        = Some (ok, st')" "up_inv bytes fd uid n st'" "up_keeps key uid (Suc q) st1 st'"
      "ok \<longrightarrow> (\<forall>q'. Suc q \<le> q' \<and> q' \<le> n \<longrightarrow> part_done (take ?c (drop ((q' - 1) * ?c) bytes)) key uid q' st')"
      using Suc.hyps(1) [OF k _ _ r(2) room(2), of "todo - plen"] qn by auto
    have "up_keeps key uid q st st'" using r(3) st'(3) by (simp add: up_keeps_def)
    moreover have "part_done (take ?c (drop ((q - 1) * ?c) bytes)) key uid q st'"
      using up_keeps_done [OF st'(3) Suc.prems(1)] r(4) True by simp
    moreover have "part_done (take ?c (drop ((q' - 1) * ?c) bytes)) key uid q' st'"
      if "ok" "q \<le> q'" "q' \<le> n" for q'
      using that st'(4) calculation(2) by (cases "q' = q") auto
    ultimately show ?thesis using step True st'(1,2) by (intro exI [of _ ok] exI [of _ st']) simp
  qed
qed

text \<open>When all parts are done the manager has a tag for each.\<close>

lemma all_parts_done:
  assumes "up_inv bytes fd uid n st"
    and "\<forall>q'. 1 \<le> q' \<and> q' \<le> n \<longrightarrow> part_done (take c (drop ((q' - 1) * c) bytes)) key uid q' st"
  obtains tags where "etags (m_man st) = map Some tags" and "length tags = n" and "\<forall>e \<in> set tags. length e \<le> 199"
    and "\<And>i. i < n \<Longrightarrow> latest_part (hist (m_ct st)) key uid (i + 1) = Some (parts_of c n bytes ! i, tags ! i)"
proof
  define tags where "tags = map the (etags (m_man st))"
  have len: "length (etags (m_man st)) = n" using assms(1) by (simp add: up_inv_def)
  have part: "\<exists>e. latest_part (hist (m_ct st)) key uid (i + 1) = Some (parts_of c n bytes ! i, e) \<and>
      etags (m_man st) ! i = Some e" if "i < n" for i
    using assms(2) that by (auto simp: part_done_def parts_of_def dest!: spec [of _ "Suc i"])
  show tg: "etags (m_man st) = map Some tags"
    using part len by (auto simp: tags_def intro!: nth_equalityI) (metis option.sel)
  show "length tags = n" using len by (simp add: tags_def)
  show "\<forall>e \<in> set tags. length e \<le> 199" using assms(1) tg by (simp add: tags_short_def up_inv_def)
  show "latest_part (hist (m_ct st)) key uid (i + 1) = Some (parts_of c n bytes ! i, tags ! i)" if "i < n" for i
    using part [OF that] len that by (auto simp: tags_def)
qed

section \<open>The commit\<close>

text \<open>The document the protocol asks for.\<close>

fun part_entries :: "nat \<Rightarrow> string list \<Rightarrow> string" where
  "part_entries i [] = []"
| "part_entries i (e # es) = part_entry (i + 1) e @ part_entries (i + 1) es"

definition commit_document :: "string list \<Rightarrow> byte list" where
  "commit_document es =
     bytes_of (''<CompleteMultipartUpload>'' @ part_entries 0 es @ ''</CompleteMultipartUpload>'')"

declare bytes_of_append [simp]

lemma length_dec: "n < 100000 \<Longrightarrow> length (dec n) \<le> 5"
proof -
  have step: "length (dec n) \<le> Suc k" if "\<And>m. m < b \<Longrightarrow> length (dec m) \<le> k" "n < b * 10" "1 \<le> b" for n k b
    using that(1) [of "n div 10"] that(2,3) by (subst dec.simps) (auto simp: less_mult_imp_div_less)
  have 1: "length (dec n) \<le> 1" if "n < 10" for n using that by (subst dec.simps) simp
  have 2: "length (dec n) \<le> 2" if "n < 100" for n using step [of 10 1 n] 1 that by simp
  have 3: "length (dec n) \<le> 3" if "n < 1000" for n using step [of 100 2 n] 2 that by simp
  have 4: "length (dec n) \<le> 4" if "n < 10000" for n using step [of 1000 3 n] 3 that by simp
  show "n < 100000 \<Longrightarrow> length (dec n) \<le> 5" using step [of 10000 4 n] 4 by simp
qed

lemma length_part_entry: "i < 100000 \<Longrightarrow> length e \<le> 199 \<Longrightarrow> length (part_entry i e) \<le> 255"
  using length_dec [of i] by (simp add: part_entry_def)

text \<open>
  The document under construction: a well-formed queue that owns the whole heap, no shorter than
  the count, and, if memory never runs out, exactly the document so far.
\<close>

definition doc_inv :: "allocator \<Rightarrow> byte list \<Rightarrow> gbheap \<times> addr \<times> nat \<Rightarrow> bool" where
  "doc_inv al doc st \<longleftrightarrow> (case st of (h, gb, size_acc) \<Rightarrow>
     \<exists>as. gb_queue h gb as \<and> tail_unread h as \<and> dom h = set as \<and> size_acc \<le> length (contents h as) \<and>
       (never_fails al \<longrightarrow> contents h as = doc \<and> size_acc = length doc))"

lemma append_bytes_spec:
  assumes "doc_inv al doc st" and "fresh_alloc al"
  shows "\<exists>st'. append_bytes al bs st = Some st' \<and> doc_inv al (doc @ bs) st'"
proof -
  obtain h gb sz where st: "st = (h, gb, sz)" by (cases st) auto
  obtain as where as: "gb_queue h gb as" "tail_unread h as" "dom h = set as" "sz \<le> length (contents h as)"
    "never_fails al \<longrightarrow> contents h as = doc \<and> sz = length doc"
    using assms(1) st by (auto simp: doc_inv_def)
  obtain ok h' gb' as' k where l: "append_loop al h gb bs = Some (ok, h', gb')"
    "appended h as (take k bs) h' gb' as'" "if ok then k = length bs else k < length bs \<and> al h' = None"
    using append_loop_spec [OF as(1,2) assms(2), of bs] by (elim exE conjE) (rule that)
  have dom: "dom h' = set as'" using l(2) as(3) by (auto simp: appended_def)
  then have "finite (dom h')" by simp
  then have "never_fails al \<longrightarrow> ok" using l(3) unfolding never_fails_def by (metis (full_types))
  then have "doc_inv al (doc @ bs) (h', gb', sz + (if ok then length bs else 0))"
    using l(2,3) as(4,5) dom by (auto simp: doc_inv_def appended_def intro!: exI [of _ as'])
  then show ?thesis using l(1) by (simp add: append_bytes_def st growbuffer_append_def)
qed

lemma append_part_spec:
  assumes "doc_inv al doc st" and "fresh_alloc al" and "i < 100000" and "length e \<le> 199"
  shows "\<exists>st'. append_part al i (Some e) st = Some st' \<and> doc_inv al (doc @ bytes_of (part_entry i e)) st'"
  using append_bytes_spec [OF assms(1,2), of "bytes_of (part_entry i e)"] length_part_entry [OF assms(3,4)]
  by (simp add: append_part_def snprintf_def bytes_of_def)

lemma append_parts_spec:
  assumes "doc_inv al doc st" and "fresh_alloc al" and "i + length es < 100000" and "\<forall>e \<in> set es. length e \<le> 199"
  shows "\<exists>st'. append_parts al i (map Some es) st = Some st' \<and> doc_inv al (doc @ bytes_of (part_entries i es)) st'"
  using assms
proof (induction es arbitrary: i doc st)
  case Nil
  then show ?case by (simp add: bytes_of_def)
next
  case (Cons e es)
  obtain st1 where 1: "append_part al (i + 1) (Some e) st = Some st1"
    "doc_inv al (doc @ bytes_of (part_entry (i + 1) e)) st1"
    using append_part_spec [OF Cons.prems(1,2), of "i + 1" e] Cons.prems(3,4) by auto
  then show ?case using Cons.IH [OF 1(2) Cons.prems(2), of "i + 1"] Cons.prems(3,4) by simp
qed

lemma build_commit_spec:
  assumes "fresh_alloc al" and "length es < 100000" and "\<forall>e \<in> set es. length e \<le> 199"
  shows "\<exists>st'. build_commit al (map Some es) Map.empty NULL = Some st' \<and> doc_inv al (commit_document es) st'"
proof -
  have 0: "doc_inv al [] (Map.empty, NULL, 0)" using empty_queue by (fastforce simp: doc_inv_def)
  obtain st1 where 1: "append_bytes al (bytes_of ''<CompleteMultipartUpload>'') (Map.empty, NULL, 0) = Some st1"
    "doc_inv al ([] @ bytes_of ''<CompleteMultipartUpload>'') st1"
    using append_bytes_spec [OF 0 assms(1)] by blast
  obtain st2 where 2: "append_parts al 0 (map Some es) st1 = Some st2"
    "doc_inv al (([] @ bytes_of ''<CompleteMultipartUpload>'') @ bytes_of (part_entries 0 es)) st2"
    using append_parts_spec [OF 1(2) assms(1), of 0 es] assms(2,3) by auto
  obtain st3 where 3: "append_bytes al (bytes_of ''</CompleteMultipartUpload>'') st2 = Some st3"
    "doc_inv al ((([] @ bytes_of ''<CompleteMultipartUpload>'') @ bytes_of (part_entries 0 es)) @
       bytes_of ''</CompleteMultipartUpload>'') st3"
    using append_bytes_spec [OF 2(2) assms(1)] by blast
  have "build_commit al (map Some es) Map.empty NULL = Some st3"
    by (simp add: build_commit_def 1(1) 2(1) 3(1))
  then show ?thesis using 3(2) by (simp only: commit_document_def bytes_of_append append_assoc append_Nil) blast
qed

text \<open>Between the rounds of the commit loop: what was sent and what is left make up the document.\<close>

definition commit_state :: "string \<Rightarrow> string \<Rightarrow> byte list \<Rightarrow> ct \<Rightarrow> UploadManager \<times> ct \<Rightarrow> bool" where
  "commit_state key uid doc s0 st \<longleftrightarrow> (case st of (m, s) \<Rightarrow>
     upload_id m = Some uid \<and> err_major s = err_major s0 \<and> world s = world s0 \<and>
     (\<forall>q. latest_part (hist s) key uid q = latest_part (hist s0) key uid q) \<and>
     (\<exists>as sent. commit_inv (m, gbh s, as) \<and> dom (gbh s) = set as \<and>
        commit_sent (hist s) key uid = commit_sent (hist s0) key uid @ sent \<and>
        sent @ commit_pending (m, gbh s, as) = doc))"

lemma commit_once_spec:
  assumes "commit_state key uid doc s0 st"
  shows "\<exists>again st'. commit_once env key st = Some (again, st') \<and> commit_state key uid doc s0 st'"
proof -
  obtain m s where st: "st = (m, s)" by (cases st) auto
  obtain as sent where i: "upload_id m = Some uid" "err_major s = err_major s0" "world s = world s0"
    "\<forall>q. latest_part (hist s) key uid q = latest_part (hist s0) key uid q"
    "commit_inv (m, gbh s, as)" "dom (gbh s) = set as"
    "commit_sent (hist s) key uid = commit_sent (hist s0) key uid @ sent"
    "sent @ commit_pending (m, gbh s, as) = doc"
    using assms st by (auto simp: commit_state_def)
  obtain bufs outcome where e: "e_commit env (hist s) key (remaining m) = (bufs, outcome)"
    by (cases "e_commit env (hist s) key (remaining m)") auto
  obtain body m1 h1 as1 rest where "pull_all commit_pull bufs (m, gbh s, as) = Some (body, (m1, h1, as1))"
    using commitsrc.pull_all_prefix [OF i(5), of bufs] by auto
  then have p: "pull_all multipart_commit_response_callback bufs (m, gbh s) = Some (body, (m1, h1))"
    using pull_commit_ghost [of bufs m "gbh s" as] by simp
  obtain as' where a: "commit_inv (m1, h1, as')" "body @ commit_pending (m1, h1, as') = commit_pending (m, gbh s, as)"
    "dom (gbh s) = set as \<longrightarrow> dom h1 = set as'" "upload_id m1 = upload_id m"
    using pull_commit_after [OF i(5) p] by blast
  let ?s = "emit (EvCommit key (uid_of m) (remaining m) body (outcome body)) (s\<lparr>gbh := h1\<rparr>)"
  have "commit_once env key st = Some (e_retryable env (e_status_of_int env (int (remaining m1))), (m1, ?s))"
    by (simp add: commit_once_def st e p multipart_commit_response_complete_callback_def)
  moreover have "sent @ body @ commit_pending (m1, h1, as') = doc" using i(8) a(2) by simp
  then have "commit_state key uid doc s0 (m1, ?s)"
    using i a unfolding commit_state_def by (auto simp: uid_of_def intro!: exI [of _ as'] exI [of _ "sent @ body"])
  ultimately show ?thesis by blast
qed

lemma commit_upload_spec:
  assumes m: "upload_id m = Some uid" "um_gb m = NULL" "etags m = map Some es"
    and es: "length es < 100000" "\<forall>e \<in> set es. length e \<le> 199"
    and s: "gbh s = Map.empty" and al: "fresh_alloc (e_gballoc env)"
  shows "\<exists>m' s'. commit_upload env key m s = Some (m', s') \<and>
           (\<exists>as. gb_queue (gbh s') (um_gb m') as \<and> dom (gbh s') = set as) \<and>
           err_major s' = err_major s \<and> world s' = world s \<and>
           (\<forall>q. latest_part (hist s') key uid q = latest_part (hist s) key uid q) \<and>
           (remaining m' = 0 \<longrightarrow> never_fails (e_gballoc env) \<longrightarrow>
              commit_sent (hist s') key uid = commit_sent (hist s) key uid @ commit_document es)"
proof -
  obtain h gb sz where b: "build_commit (e_gballoc env) (map Some es) Map.empty NULL = Some (h, gb, sz)"
    "doc_inv (e_gballoc env) (commit_document es) (h, gb, sz)"
    using build_commit_spec [OF al es] by auto
  then obtain as where as: "gb_queue h gb as" "dom h = set as" "sz \<le> length (contents h as)"
    "never_fails (e_gballoc env) \<longrightarrow> contents h as = commit_document es \<and> sz = length (commit_document es)"
    by (auto simp: doc_inv_def)
  let ?m = "m\<lparr>um_gb := gb, remaining := sz\<rparr>" and ?doc = "take sz (contents h as)"
  have init: "commit_state key uid ?doc s (?m, s\<lparr>gbh := h\<rparr>)"
    using m(1) as by (auto simp: commit_state_def commit_inv_def commit_pending_def gb_inv_def intro!: exI [of _ as])
  have "\<exists>(again :: bool) st'. do_retry (commit_once env key) RETRYCOUNT (?m, s\<lparr>gbh := h\<rparr>) = Some st' \<and> commit_state key uid ?doc s st'"
  proof (rule do_retry_total [where I = "commit_state key uid ?doc s" and Q = "\<lambda>_. commit_state key uid ?doc s"])
    show "commit_state key uid ?doc s (?m, s\<lparr>gbh := h\<rparr>)" by (rule init)
    show "\<exists>again st'. commit_once env key u = Some (again, st') \<and> (again \<longrightarrow> commit_state key uid ?doc s st') \<and>
        commit_state key uid ?doc s st'" if "commit_state key uid ?doc s u" for u
      using commit_once_spec [OF that, of env] by (elim exE conjE) blast
  qed
  then obtain m' s' where r: "commit_upload env key m s = Some (m', s')" "commit_state key uid ?doc s (m', s')"
    using b(1) m s by (auto simp: commit_upload_def)
  then obtain as' sent where f: "commit_inv (m', gbh s', as')" "dom (gbh s') = set as'"
    "commit_sent (hist s') key uid = commit_sent (hist s) key uid @ sent"
    "sent @ commit_pending (m', gbh s', as') = ?doc"
    by (auto simp: commit_state_def)
  have "commit_sent (hist s') key uid = commit_sent (hist s) key uid @ commit_document es"
    if "remaining m' = 0" "never_fails (e_gballoc env)"
    using f(3,4) as(4) that by (simp add: commit_pending_def)
  then show ?thesis using r f(1,2) by (auto simp: commit_state_def commit_inv_def gb_inv_def)
qed

lemma big_clean_spec:
  assumes "gb_queue (gbh s) (um_gb m) as" and "dom (gbh s) = set as"
  shows "big_clean rc m s = Some (rc, s\<lparr>gbh := Map.empty\<rparr>)"
proof -
  have "(\<lambda>a. if a \<in> set as then None else gbh s a) = Map.empty"
    using assms(2) by (auto simp: fun_eq_iff domIff)
  then show ?thesis
    using assms(1) destroy_ring [of "gbh s" "um_gb m" as] by (simp add: big_clean_def gb_queue_def)
qed

lemma big_clean_empty: "gbh s = Map.empty \<Longrightarrow> um_gb m = NULL \<Longrightarrow> big_clean rc m s = Some (rc, s)"
  using big_clean_spec [of s m "[]"] empty_queue by simp

section \<open>A store that cooperates\<close>

text \<open>
  libs3 asks for the body until it has all of it, every part that comes complete is accepted,
  an upload id is given, and success is not a reason to retry. Nothing is said of the status of
  a commit.
\<close>

definition drains :: "nat list \<Rightarrow> nat \<Rightarrow> bool" where
  "drains bufs n \<longleftrightarrow> (\<forall>b \<in> set bufs. 0 < b) \<and> n \<le> length bufs"

definition good_store :: "env \<Rightarrow> bool" where
  "good_store env \<longleftrightarrow>
     \<not> e_retryable env S3StatusOK \<and> (\<forall>h key. fst (e_init env h key) \<noteq> []) \<and>
     (\<forall>h key seq n. drains (fst (e_part env h key seq n)) n \<and>
        (\<forall>body. length body = n \<longrightarrow> snd (snd (e_part env h key seq n) body) = S3StatusOK)) \<and>
     (\<forall>h key n. drains (fst (e_commit env h key n)) n)"

lemma good_storeD:
  assumes "good_store env"
  shows "\<not> e_retryable env S3StatusOK" and "fst (e_init env h key) \<noteq> []"
    and "drains (fst (e_part env h key seq n)) n"
    and "length body = n \<Longrightarrow> snd (snd (e_part env h key seq n) body) = S3StatusOK"
    and "drains (fst (e_commit env h key n)) n"
  using assms by (auto simp: good_store_def)

section \<open>Theorems\<close>

lemma init_loop_spec:
  assumes "upload_id m = None" and "um_gb m = NULL" and "next_etags_pos m = 0"
  shows "\<exists>m' s'. do_retry (init_once env key) k (m, s) = Some (m', s') \<and> um_gb m' = NULL \<and>
           etags m' = etags m \<and> next_etags_pos m' = 0 \<and> frame no_upload s s'"
proof -
  let ?I = "\<lambda>st. um_gb (fst st) = NULL \<and> etags (fst st) = etags m \<and> next_etags_pos (fst st) = 0 \<and>
      frame no_upload s (snd st)"
  have "\<exists>(again :: bool) st'. do_retry (init_once env key) k (m, s) = Some st' \<and> ?I st'"
    by (rule do_retry_total [where I = ?I and Q = "\<lambda>_. ?I"])
      (auto simp: assms init_once_def S3_initiate_multipart_def Let_def initial_multipart_response_callback_def
        multipart_init_response_complete_callback_def split: prod.splits)
  then show ?thesis by auto
qed

lemma init_good:
  assumes "good_store env" and "upload_id m = None" and "um_gb m = NULL" and "next_etags_pos m = 0"
  shows "\<exists>m' s'. do_retry (init_once env key) (Suc k) (m, s) = Some (m', s') \<and> upload_id m' \<noteq> None"
  using good_storeD(1,2) [OF assms(1)]
  by (auto simp: do_retry_Suc init_once_def S3_initiate_multipart_def Let_def initial_multipart_response_callback_def
      multipart_init_response_complete_callback_def split: prod.splits) (metis fst_conv)+

text \<open>The upload once it is initiated.\<close>

lemma big_upload_spec:
  assumes env: "honest_part env" "short_etags env" "fresh_alloc (e_gballoc env)"
    and s: "has_file fd bytes s" "gbh s = Map.empty"
    and m: "upload_id m = Some uid" "um_gb m = NULL" "etags m = replicate n None" "next_etags_pos m = 0"
    and sz: "unat st_size = length bytes" "length bytes \<le> n * unat chunk" "(n - 1) * unat chunk \<le> length bytes" "n \<le> 10000"
  shows "\<exists>rc s'. big_upload env opt src key fd st_size len chunk n t m s = Some (rc, s') \<and>
           gbh s' = Map.empty \<and> err_major s' = err_major s \<and>
           (rc = 0 \<longrightarrow> (\<exists>bodies tags. length bodies = length tags \<and> concat bodies = bytes \<and>
              (\<forall>i < length tags. latest_part (hist s') key uid (i + 1) = Some (bodies ! i, tags ! i)) \<and>
              (never_fails (e_gballoc env) \<longrightarrow>
                 commit_sent (hist s') key uid = commit_sent (hist s) key uid @ commit_document tags)))"
proof -
  define data where "data = zero_put_data\<lparr>file_name := src, p_fd := fd\<rparr>"
  define st where "st = \<lparr>m_data = zero_put_data, m_man = m, m_last = t, m_ct = s\<rparr>"
  have d: "p_fd data = fd" "p_gb data = NULL" by (simp_all add: data_def zero_put_data_def)
  have inv: "up_inv bytes fd uid n st"
    using s(1) m by (simp add: up_inv_def st_def zero_put_data_def tags_short_def)
  obtain ok st' where l: "part_loop env opt key len chunk (unat st_size) data [1..<n + 1] (unat st_size) (unat st_size) st
      = Some (ok, st')" "up_inv bytes fd uid n st'" "up_keeps key uid 1 st st'"
    "ok \<longrightarrow> (\<forall>q'. 1 \<le> q' \<and> q' \<le> n \<longrightarrow> part_done (take (unat chunk) (drop ((q' - 1) * unat chunk) bytes)) key uid q' st')"
    using part_loop_spec [OF env(1,2) d sz(3), of 1 uid st "unat st_size" opt key len "unat st_size" "unat st_size"] inv sz(1)
    by auto
  let ?s = "m_ct st'" and ?m = "m_man st'"
  have k: "gbh ?s = Map.empty" "err_major ?s = err_major s" "commit_sent (hist ?s) key uid = commit_sent (hist s) key uid"
    "um_gb ?m = NULL" "upload_id ?m = Some uid" "length (etags ?m) = n" "tags_short (etags ?m)"
    using l(2,3) s(2) by (auto simp: up_keeps_def st_def up_inv_def)
  have run: "big_upload env opt src key fd st_size len chunk n t m s =
      (if \<not> ok then big_clean (- EIO) ?m ?s
       else case commit_upload env key ?m ?s of None \<Rightarrow> None
         | Some (m, s) \<Rightarrow> big_clean (if remaining m \<noteq> 0 then - EIO else 0) m s)"
    using l(1) m(4) by (simp add: big_upload_def data_def st_def)
  show ?thesis
  proof (cases ok)
    case False
    then show ?thesis using run k big_clean_empty [of ?s ?m "- EIO"] by (simp add: errno_defs)
  next
    case True
    obtain tags where tg: "etags ?m = map Some tags" "length tags = n" "\<forall>e \<in> set tags. length e \<le> 199"
      and part: "\<And>i. i < n \<Longrightarrow> latest_part (hist ?s) key uid (i + 1) = Some (parts_of (unat chunk) n bytes ! i, tags ! i)"
      using all_parts_done [OF l(2)] l(4) True by blast
    have lt: "length tags < 100000" using tg(2) sz(4) by simp
    obtain m' s' as where c: "commit_upload env key ?m ?s = Some (m', s')"
      "gb_queue (gbh s') (um_gb m') as" "dom (gbh s') = set as" "err_major s' = err_major ?s"
      "\<forall>q. latest_part (hist s') key uid q = latest_part (hist ?s) key uid q"
      "remaining m' = 0 \<longrightarrow> never_fails (e_gballoc env) \<longrightarrow>
         commit_sent (hist s') key uid = commit_sent (hist ?s) key uid @ commit_document tags"
      using commit_upload_spec [OF k(5,4) tg(1) lt tg(3) k(1) env(3), of key] by (elim exE conjE) (rule that)
    have "concat (parts_of (unat chunk) n bytes) = bytes" using sz(2) by (simp add: concat_parts_of)
    moreover have "latest_part (hist s') key uid (i + 1) = Some (parts_of (unat chunk) n bytes ! i, tags ! i)" if "i < n" for i
      using part [OF that] c(5) by simp
    ultimately show ?thesis
      using run True c big_clean_spec [OF c(2,3)] k tg(2)
      by (auto simp: errno_defs intro!: exI [of _ "parts_of (unat chunk) n bytes"] exI [of _ tags])
  qed
qed

text \<open>Everything before the first part: the file is untouched and nothing is uploaded yet.\<close>

lemma big_prepare:
  assumes "unat st_size = length bytes" and "st_size \<le> 5 * 2 ^ 40"
  obtains rc1 s1 chunk n m s4 t where
    "ct_archive_data_big env opt src key fd st_size hai s =
       (if rc1 \<noteq> (0 :: int) then Some (-1, s1)
        else if upload_id m = None then big_clean (- EIO) m s4
        else big_upload env opt src key fd st_size (extent_length hai st_size) chunk n t m s4)"
    and "frame no_upload s s1" and "frame no_upload s s4"
    and "um_gb m = NULL" and "etags m = replicate n None" and "next_etags_pos m = 0"
    and "length bytes \<le> n * unat chunk" and "(n - 1) * unat chunk \<le> length bytes" and "n \<le> 10000"
    and "(\<forall>h. 0 \<le> e_getxattr env h) \<longrightarrow> rc1 = 0" and "good_store env \<longrightarrow> upload_id m \<noteq> None"
proof -
  let ?len = "extent_length hai st_size" and ?he = "\<lparr>he_offset = he_offset (hai_extent hai), he_length = 0\<rparr>"
  obtain rc1 s1 where 1: "ct_save_stripe env s = (rc1, s1)" by (cases "ct_save_stripe env s") auto
  define s2 where "s2 = emit (EvTime (e_time env (hist s1))) s1"
  obtain rc3 s3 where 3: "llapi_hsm_action_progress_ex env ?he ?len s2 = (rc3, s3)"
    by (cases "llapi_hsm_action_progress_ex env ?he ?len s2") auto
  obtain chunk n where c: "ct_get_chunksize st_size = Some (chunk, n)" "2 ^ 24 \<le> unat chunk" "unat n \<le> 10000"
    "unat n = (length bytes + unat chunk - 1) div unat chunk"
    using chunksize_spec [OF assms(2)] assms(1) by auto
  have c0: "0 < unat chunk" using c(2) by auto
  define m0 where "m0 = \<lparr>upload_id = None, etags = replicate (unat n) None, next_etags_pos = 0, um_gb = NULL, remaining = 0\<rparr>"
  have m0: "upload_id m0 = None" "um_gb m0 = NULL" "next_etags_pos m0 = 0" by (simp_all add: m0_def)
  obtain m s4 where 4: "do_retry (init_once env key) RETRYCOUNT (m0, s3) = Some (m, s4)" "um_gb m = NULL"
    "etags m = etags m0" "next_etags_pos m = 0" "frame no_upload s3 s4"
    using init_loop_spec [OF m0, of env key RETRYCOUNT s3] by auto
  have f1: "frame no_upload s s1" using stripe_frame [OF 1] by (auto elim!: frame_mono)
  have f3: "frame no_upload s2 s3" using progress_frame [OF 3] by (auto elim!: frame_mono)
  have run: "ct_archive_data_big env opt src key fd st_size hai s =
      (if rc1 \<noteq> 0 then Some (-1, s1) else if upload_id m = None then big_clean (- EIO) m s4
       else big_upload env opt src key fd st_size ?len chunk (unat n) (e_time env (hist s1)) m s4)"
    using 1 3 c(1) 4(1,2) by (simp add: ct_archive_data_big_def s2_def [symmetric] m0_def [symmetric] Let_def)
  have f4: "frame no_upload s s4"
    using frame_trans [OF frame_trans [OF _ f3] 4(5), of s] f1 by (simp add: s2_def)
  have tags: "etags m = replicate (unat n) None" using 4(3) by (simp add: m0_def)
  have rc1: "(\<forall>h. 0 \<le> e_getxattr env h) \<longrightarrow> rc1 = 0"
    using 1 by (auto simp: ct_save_stripe_def Let_def not_less [symmetric] split: if_splits)
  have uid: "good_store env \<longrightarrow> upload_id m \<noteq> None"
    using init_good [OF _ m0, of env key 4 s3] 4(1) by (auto simp: RETRYCOUNT_def)
  show ?thesis by (rule that [OF run f1 f4 4(2) tags 4(4) ceiling_parts [OF c0 c(4)] c(3) rc1 uid])
qed

lemma archive_data_big_spec:
  assumes "honest_part env" and "short_etags env" and "fresh_alloc (e_gballoc env)"
    and "has_file fd bytes s" and "gbh s = Map.empty"
    and "unat st_size = length bytes" and "st_size \<le> 5 * 2 ^ 40"
  shows "\<exists>rc s'. ct_archive_data_big env opt src key fd st_size hai s = Some (rc, s') \<and>
           gbh s' = Map.empty \<and> err_major s' = err_major s \<and>
           (rc = 0 \<longrightarrow> (\<exists>uid bodies tags. length bodies = length tags \<and> concat bodies = bytes \<and>
              (\<forall>i < length tags. latest_part (hist s') key uid (i + 1) = Some (bodies ! i, tags ! i)) \<and>
              (never_fails (e_gballoc env) \<longrightarrow>
                 commit_sent (hist s') key uid = commit_sent (hist s) key uid @ commit_document tags)))"
proof -
  obtain rc1 s1 chunk n m s4 t where p: "ct_archive_data_big env opt src key fd st_size hai s =
       (if rc1 \<noteq> (0 :: int) then Some (-1, s1) else if upload_id m = None then big_clean (- EIO) m s4
        else big_upload env opt src key fd st_size (extent_length hai st_size) chunk n t m s4)"
    "frame no_upload s s1" "frame no_upload s s4" "um_gb m = NULL" "etags m = replicate n None" "next_etags_pos m = 0"
    "length bytes \<le> n * unat chunk" "(n - 1) * unat chunk \<le> length bytes" "n \<le> 10000"
    by (rule big_prepare [OF assms(6,7), of env opt src key fd hai s])
  have k4: "gbh s4 = Map.empty" "err_major s4 = err_major s" "has_file fd bytes s4"
    "\<And>uid. commit_sent (hist s4) key uid = commit_sent (hist s) key uid"
    using frameD [OF p(3)] assms(4,5) has_file_frame [OF p(3)] no_upload_grows [OF frameD(1) [OF p(3)]] by auto
  show ?thesis
  proof (cases "rc1 \<noteq> 0 \<or> upload_id m = None")
    case True
    then show ?thesis
      using p(1) frameD [OF p(2)] assms(5) big_clean_empty [OF k4(1) p(4)] k4(1,2)
      by (cases "rc1 = 0") (simp_all add: errno_defs)
  next
    case False
    then obtain uid where uid: "upload_id m = Some uid" by auto
    obtain rc s' where b: "big_upload env opt src key fd st_size (extent_length hai st_size) chunk n t m s4 = Some (rc, s')"
      "gbh s' = Map.empty" "err_major s' = err_major s4"
      "rc = 0 \<longrightarrow> (\<exists>bodies tags. length bodies = length tags \<and> concat bodies = bytes \<and>
              (\<forall>i < length tags. latest_part (hist s') key uid (i + 1) = Some (bodies ! i, tags ! i)) \<and>
              (never_fails (e_gballoc env) \<longrightarrow>
                 commit_sent (hist s') key uid = commit_sent (hist s4) key uid @ commit_document tags))"
      using big_upload_spec [OF assms(1-3) k4(3,1) uid p(4-6) assms(6) p(7-9), of opt src key "extent_length hai st_size" t]
      by (elim exE conjE) (rule that)
    have "ct_archive_data_big env opt src key fd st_size hai s = Some (rc, s')" using p(1) False b(1) uid by simp
    then show ?thesis using b(2-4) unfolding k4(2,4) by blast
  qed
qed


section \<open>Success with a store that cooperates\<close>

definition quiet :: "ct \<Rightarrow> bool" where
  "quiet s \<longleftrightarrow> os_faults (world s) = []"

lemma quiet_emit [simp]: "quiet (emit e s) = quiet s"
  by (simp add: quiet_def)

lemma quiet_frame: "frame P s s' \<Longrightarrow> quiet s' = quiet s"
  by (simp add: quiet_def frame_def)

lemma upload_part_good:
  assumes fl: "os_files (world (m_ct st)) (p_fd (m_data st)) = Some f" "p_fd (m_data st) \<noteq> 0" "quiet (m_ct st)"
    and len: "contentLength (m_data st) = plen" "f_pos f + plen \<le> length (f_data f)"
    and env: "good_store env" "honest_part env"
  shows "\<exists>st'. S3_upload_part env key seq plen st = Some st' \<and> p_status (m_data st') = S3StatusOK \<and>
           next_etags_pos (m_man st') = seq \<and> quiet (m_ct st')"
proof -
  let ?d = "m_data st" and ?s = "m_ct st"
  obtain bufs outcome where e: "e_part env (hist ?s) key seq plen = (bufs, outcome)"
    by (cases "e_part env (hist ?s) key seq plen") auto
  have q: "mp_quiet (?d, world ?s)" using fl len by (simp add: mp_quiet_def mp_inv_def quiet_def)
  have pend: "length (mp_pending (?d, world ?s)) = plen" using fl len by (simp add: mp_pending_def)
  obtain d1 w where p: "pull_all multipart_put_objectdata_callback bufs (?d, world ?s) =
      Some (mp_pending (?d, world ?s), (d1, w))"
    using mpquiet.pull_all_drains [OF q, of bufs] good_storeD(3) [OF env(1), of "hist ?s" key seq plen] e pend
    by (auto simp: drains_def)
  obtain etag status where o: "outcome (mp_pending (?d, world ?s)) = (etag, status)"
    by (cases "outcome (mp_pending (?d, world ?s))") auto
  have "status = S3StatusOK" using good_storeD(4) [OF env(1) pend, of "hist ?s" key seq] e o by simp
  moreover obtain tg where "etag = Some tg"
    using calculation honest_partD [OF env(2), of "hist ?s" key seq plen "mp_pending (?d, world ?s)"] e o by auto
  ultimately show ?thesis using pull_mp_quiet [OF q p]
    by (auto simp: S3_upload_part_def e p o Let_def quiet_def multipart_put_response_complete_callback_def
        multipart_put_part_response_properies_callback_def)
qed

lemma part_once_good:
  assumes fl: "has_file fd bytes (m_ct st)" "p_fd (m_data st) = fd" "quiet (m_ct st)"
    and len: "contentLength (m_data st) = plen" "(q - 1) * unat chunk + plen \<le> length bytes"
    and env: "good_store env" "honest_part env"
  shows "\<exists>st'. part_once env opt key len chunk q plen st = Some (False, st') \<and>
           p_status (m_data st') = S3StatusOK \<and> quiet (m_ct st')"
proof -
  let ?p = "(q - 1) * unat chunk"
  obtain f where f: "os_files (world (m_ct st)) fd = Some f" "f_data f = bytes" "fd \<noteq> 0"
    using fl(1) by (auto simp: has_file_def)
  define u where "u = st\<lparr>m_data := (m_data st)\<lparr>p_status := S3StatusOK\<rparr>,
      m_ct := (m_ct st)\<lparr>world := sys_lseek (world (m_ct st)) fd ?p\<rparr>\<rparr>"
  have uf: "os_files (world (m_ct u)) (p_fd (m_data u)) = Some (f\<lparr>f_pos := ?p\<rparr>)" "p_fd (m_data u) \<noteq> 0"
    "quiet (m_ct u)" "contentLength (m_data u) = plen" "f_pos (f\<lparr>f_pos := ?p\<rparr>) + plen \<le> length (f_data (f\<lparr>f_pos := ?p\<rparr>))"
    using f fl len by (simp_all add: u_def sys_lseek_def quiet_def)
  obtain v where v: "S3_upload_part env key q plen u = Some v" "p_status (m_data v) = S3StatusOK"
    "next_etags_pos (m_man v) = q" "quiet (m_ct v)"
    using upload_part_good [OF uf env] by blast
  define t where "t = e_time env (hist (m_ct v))"
  define r where "r = part_report env opt len chunk q plen t (v\<lparr>m_ct := emit (EvTime t) (m_ct v)\<rparr>)"
  have rf: "m_data r = m_data v" "frame no_upload (emit (EvTime t) (m_ct v)) (m_ct r)"
    using part_report_frame [of env opt len chunk q plen t "v\<lparr>m_ct := emit (EvTime t) (m_ct v)\<rparr>" r] by (auto simp: r_def)
  have "part_once env opt key len chunk q plen st = Some (e_retryable env (p_status (m_data r)), r)"
    unfolding part_once_def Let_def fl(2) u_def [symmetric] v(1) option.case r_def t_def using v(3) by simp
  then show ?thesis using rf(1) v(2,4) quiet_frame [OF rf(2)] good_storeD(1) [OF env(1)] by simp
qed

lemma part_loop_good:
  assumes env: "good_store env" "honest_part env" "short_etags env" and d: "p_fd data = fd" "p_gb data = NULL"
    and n: "(n - 1) * unat chunk \<le> length bytes" and q: "1 \<le> q" "q \<le> n + 1" and inv: "up_inv bytes fd uid n st"
    and cl: "contentLen = length bytes - (q - 1) * unat chunk" and qt: "quiet (m_ct st)"
  shows "\<exists>st'. part_loop env opt key len chunk tot data [q..<n + 1] contentLen todo st = Some (True, st')"
  using q inv cl qt
proof (induction "n + 1 - q" arbitrary: q contentLen todo st)
  case 0
  then have "q = n + 1" by simp
  then show ?case by simp
next
  case (Suc k)
  then have qn: "q \<le> n" and k: "k = n + 1 - Suc q" by auto
  let ?c = "unat chunk"
  define plen where "plen = (if contentLen > ?c then ?c else contentLen)"
  let ?pd = "part_data data plen todo tot"
  note room = part_room [OF qn n Suc.prems(4,1) plen_def]
  have pd: "p_fd ?pd = fd" "p_gb ?pd = NULL" "contentLength ?pd = plen" using d by (simp_all add: part_data_def)
  obtain st1 where 1: "part_once env opt key len chunk q plen (st\<lparr>m_data := ?pd\<rparr>) = Some (False, st1)"
    "p_status (m_data st1) = S3StatusOK" "quiet (m_ct st1)"
    using part_once_good [of fd bytes "st\<lparr>m_data := ?pd\<rparr>" plen q chunk env opt key len] Suc.prems(3,5) pd room(1) env(1,2)
    by (auto simp: up_inv_def)
  have dr: "do_retry (part_once env opt key len chunk q plen) RETRYCOUNT (st\<lparr>m_data := ?pd\<rparr>) = Some st1"
    using 1(1) do_retry_Suc [of "part_once env opt key len chunk q plen" 4 "st\<lparr>m_data := ?pd\<rparr>"] by (simp add: RETRYCOUNT_def)
  have inv1: "up_inv bytes fd uid n st1"
    using part_retry_spec [OF Suc.prems(3) Suc.prems(1) qn pd room(1) env(2,3), of opt key len RETRYCOUNT] dr by auto
  have gb: "p_gb (m_data st) = NULL" "um_gb (m_man st1) = NULL" using Suc.prems(3) inv1 by (auto simp: up_inv_def)
  show ?case
    using part_loop_step [OF qn gb plen_def dr] 1(2,3) Suc.hyps(1) [OF k _ _ inv1 room(2), of "todo - plen"] qn by auto
qed

lemma commit_once_good:
  assumes "commit_state key uid doc s0 st" and "good_store env"
  shows "\<exists>again st'. commit_once env key st = Some (again, st') \<and> commit_state key uid doc s0 st' \<and> remaining (fst st') = 0"
proof -
  obtain m s where st: "st = (m, s)" by (cases st) auto
  obtain as where inv: "commit_inv (m, gbh s, as)" using assms(1) st by (auto simp: commit_state_def)
  obtain bufs outcome where e: "e_commit env (hist s) key (remaining m) = (bufs, outcome)"
    by (cases "e_commit env (hist s) key (remaining m)") auto
  have pend: "length (commit_pending (m, gbh s, as)) = remaining m"
    using inv by (simp add: commit_inv_def commit_pending_def)
  obtain st1 where "pull_all commit_pull bufs (m, gbh s, as) = Some (commit_pending (m, gbh s, as), st1)"
    using commitsrc.pull_all_drains [OF inv, of bufs] good_storeD(5) [OF assms(2), of "hist s" key "remaining m"] e pend
    by (auto simp: drains_def)
  then obtain m1 h1 where p: "pull_all multipart_commit_response_callback bufs (m, gbh s) =
      Some (commit_pending (m, gbh s, as), (m1, h1))"
    using pull_commit_ghost [of bufs m "gbh s" as] by (cases st1) auto
  have "remaining m1 = 0" using pull_commit_after [OF inv p] pend by simp
  moreover have "\<exists>again s1. commit_once env key st = Some (again, (m1, s1))"
    by (simp add: commit_once_def st e p multipart_commit_response_complete_callback_def)
  ultimately show ?thesis using commit_once_spec [OF assms(1), of env] by fastforce
qed

lemma commit_upload_good:
  assumes m: "upload_id m = Some uid" "um_gb m = NULL" "etags m = map Some es"
    and es: "length es < 100000" "\<forall>e \<in> set es. length e \<le> 199"
    and s: "gbh s = Map.empty" and al: "fresh_alloc (e_gballoc env)" and env: "good_store env"
  shows "\<exists>m' s'. commit_upload env key m s = Some (m', s') \<and> remaining m' = 0"
proof -
  obtain h gb sz where b: "build_commit (e_gballoc env) (map Some es) Map.empty NULL = Some (h, gb, sz)"
    "doc_inv (e_gballoc env) (commit_document es) (h, gb, sz)"
    using build_commit_spec [OF al es] by auto
  then obtain as where as: "gb_queue h gb as" "dom h = set as" "sz \<le> length (contents h as)"
    by (auto simp: doc_inv_def)
  let ?m = "m\<lparr>um_gb := gb, remaining := sz\<rparr>"
  let ?I = "commit_state key uid (take sz (contents h as)) s"
  have "\<exists>(again :: bool) st'. do_retry (commit_once env key) RETRYCOUNT (?m, s\<lparr>gbh := h\<rparr>) = Some st' \<and> remaining (fst st') = 0"
  proof (rule do_retry_total [where I = ?I and Q = "\<lambda>_ st. remaining (fst st) = 0"])
    show "?I (?m, s\<lparr>gbh := h\<rparr>)"
      using m(1) as by (auto simp: commit_state_def commit_inv_def commit_pending_def gb_inv_def intro!: exI [of _ as])
    show "\<exists>again st'. commit_once env key u = Some (again, st') \<and> (again \<longrightarrow> ?I st') \<and> remaining (fst st') = 0" if "?I u" for u
      using commit_once_good [OF that env] by (elim exE conjE) blast
  qed
  then show ?thesis using b(1) m s by (auto simp: commit_upload_def)
qed

lemma big_upload_good:
  assumes env: "good_store env" "honest_part env" "short_etags env" "fresh_alloc (e_gballoc env)"
    and s: "has_file fd bytes s" "quiet s" "gbh s = Map.empty"
    and m: "upload_id m = Some uid" "um_gb m = NULL" "etags m = replicate n None" "next_etags_pos m = 0"
    and sz: "unat st_size = length bytes" "(n - 1) * unat chunk \<le> length bytes" "n \<le> 10000"
  shows "\<exists>s'. big_upload env opt src key fd st_size len chunk n t m s = Some (0, s')"
proof -
  define data where "data = zero_put_data\<lparr>file_name := src, p_fd := fd\<rparr>"
  define st where "st = \<lparr>m_data = zero_put_data, m_man = m, m_last = t, m_ct = s\<rparr>"
  have d: "p_fd data = fd" "p_gb data = NULL" by (simp_all add: data_def zero_put_data_def)
  have inv: "up_inv bytes fd uid n st" "quiet (m_ct st)"
    using s m by (simp_all add: up_inv_def st_def zero_put_data_def tags_short_def)
  obtain st' where l: "part_loop env opt key len chunk (unat st_size) data [1..<n + 1] (unat st_size) (unat st_size) st = Some (True, st')"
    using part_loop_good [OF env(1-3) d sz(2) _ _ inv(1) _ inv(2), where q = 1 and contentLen = "unat st_size" and opt = opt and
        key = key and len = len and tot = "unat st_size" and todo = "unat st_size"] sz(1)
    by auto
  have l': "up_inv bytes fd uid n st'" "up_keeps key uid 1 st st'"
    "\<forall>q'. 1 \<le> q' \<and> q' \<le> n \<longrightarrow> part_done (take (unat chunk) (drop ((q' - 1) * unat chunk) bytes)) key uid q' st'"
    using part_loop_spec [OF env(2,3) d sz(2), of 1 uid st "unat st_size" opt key len "unat st_size" "unat st_size"]
      inv(1) sz(1) l by auto
  obtain tags where tg: "etags (m_man st') = map Some tags" "length tags = n" "\<forall>e \<in> set tags. length e \<le> 199"
    using all_parts_done [OF l'(1,3)] by metis
  have lt: "length tags < 100000" using tg(2) sz(3) by simp
  have k: "upload_id (m_man st') = Some uid" "um_gb (m_man st') = NULL" "gbh (m_ct st') = Map.empty"
    using l'(1,2) s(3) by (auto simp: up_inv_def up_keeps_def st_def)
  obtain m2 s5 where cm: "commit_upload env key (m_man st') (m_ct st') = Some (m2, s5)" "remaining m2 = 0"
    using commit_upload_good [OF k(1,2) tg(1) lt tg(3) k(3) env(4,1), of key] by blast
  obtain as where "gb_queue (gbh s5) (um_gb m2) as" "dom (gbh s5) = set as"
    using commit_upload_spec [OF k(1,2) tg(1) lt tg(3) k(3) env(4), of key] cm by auto
  from big_clean_spec [OF this] have "big_clean 0 m2 s5 = Some (0, s5\<lparr>gbh := Map.empty\<rparr>)" .
  then show ?thesis using l m(4) cm by (simp add: big_upload_def data_def st_def)
qed

text \<open>
  C33. Success does not depend on the commit. With a store that takes every part, an archive of a big
  file returns 0 whatever status the commit requests get: the completion callback only logs, and the
  loop and the final test look at \<open>remaining\<close>, the bytes of the document not yet read. So the
  action is reported as done even if the server refused every commit and no object exists.
\<close>

theorem ct_archive_data_big_ignores_commit_status:
  assumes "good_store env" and "honest_part env" and "short_etags env" and "fresh_alloc (e_gballoc env)"
    and "\<forall>h. 0 \<le> e_getxattr env h"
    and "has_file fd bytes s" and "gbh s = Map.empty" and "quiet s"
    and "unat st_size = length bytes" and "st_size \<le> 5 * 2 ^ 40"
  shows "\<exists>s'. ct_archive_data_big env opt src key fd st_size hai s = Some (0, s')"
proof -
  obtain rc1 s1 chunk n m s4 t where p: "ct_archive_data_big env opt src key fd st_size hai s =
       (if rc1 \<noteq> (0 :: int) then Some (-1, s1) else if upload_id m = None then big_clean (- EIO) m s4
        else big_upload env opt src key fd st_size (extent_length hai st_size) chunk n t m s4)"
    "frame no_upload s s4" "um_gb m = NULL" "etags m = replicate n None" "next_etags_pos m = 0"
    "length bytes \<le> n * unat chunk" "(n - 1) * unat chunk \<le> length bytes" "n \<le> 10000"
    "(\<forall>h. 0 \<le> e_getxattr env h) \<longrightarrow> rc1 = 0" "good_store env \<longrightarrow> upload_id m \<noteq> None"
    by (rule big_prepare [OF assms(9,10), of env opt src key fd hai s])
  then have run: "ct_archive_data_big env opt src key fd st_size hai s =
        big_upload env opt src key fd st_size (extent_length hai st_size) chunk n t m s4" and "upload_id m \<noteq> None"
    using assms(1,5) by simp_all
  then obtain uid where uid: "upload_id m = Some uid" by auto
  have k: "has_file fd bytes s4" "quiet s4" "gbh s4 = Map.empty"
    using frameD [OF p(2)] assms(6-8) has_file_frame [OF p(2)] quiet_frame [OF p(2)] by auto
  show ?thesis
    unfolding run by (rule big_upload_good [OF assms(1-4) k uid p(3-5) assms(9) p(7,8)])
qed

section \<open>Witnesses\<close>

definition demo_opt :: ct_options where
  "demo_opt = \<lparr>o_copy_attrs = 0, o_daemonize = 0, o_dry_run = 0, o_abort_on_error = 0, o_verbose = 5, o_archive_cnt = 0,
                o_archive_id = [], o_report_int = 30, o_config = None, o_mnt = ''/mnt'', o_mnt_fd = 4\<rparr>"

lemma demo_good: "good_store demo_env" "short_etags demo_env" "fresh_alloc (e_gballoc demo_env)"
  "has_file 3 bs (demo_ct bs)" "quiet (demo_ct bs)" "gbh (demo_ct bs) = Map.empty"
  by (auto simp: good_store_def drains_def demo_env_def short_etags_def fresh_alloc_def has_file_def demo_ct_def quiet_def
      split: if_splits)


theorem ct_archive_data_big_ignores_commit_status_witness:
  "\<exists>s'. ct_archive_data_big (demo_env\<lparr>e_commit := (\<lambda>h key n. (replicate n 1, \<lambda>body. S3StatusErrorInternalError))\<rparr>)
          demo_opt ''s'' ''k'' 3 2 (demo_hai HSMA_ARCHIVE) (demo_ct [7, 8]) = Some (0, s')"
proof -
  let ?env = "demo_env\<lparr>e_commit := (\<lambda>h key n. (replicate n 1, \<lambda>body. S3StatusErrorInternalError))\<rparr>"
  have e: "good_store ?env" "honest_part ?env" "short_etags ?env" "fresh_alloc (e_gballoc ?env)"
    by (auto simp: good_store_def drains_def demo_env_def honest_part_def short_etags_def fresh_alloc_def split: if_splits)
  have x: "\<forall>h. 0 \<le> e_getxattr ?env h" by (simp add: demo_env_def)
  have sz: "unat (2 :: u64) = length [7 :: byte, 8]" "(2 :: u64) \<le> 5 * 2 ^ 40" by simp_all
  show ?thesis
    by (rule ct_archive_data_big_ignores_commit_status [OF e x demo_good(4,6,5) sz])
qed

end
