(* ===== verification/S3_Store.thy ===== *)
theory S3_Store
  imports Archive_Small Archive_Big
begin

text \<open>
  What the store holds after a history of requests: the object of a key is the body of the last put that was accepted, or the
  parts that the last accepted commit lists. The lemmas: an accepted put of the whole file, or an upload whose only commit was
  accepted, leaves exactly the file in the store.
\<close>

section \<open>What the store holds\<close>

text \<open>The requests after which the object of a key is another one, or none.\<close>

fun changes :: "string \<Rightarrow> event \<Rightarrow> bool" where
  "changes key (EvPut k n body st) = (k = key \<and> st = S3StatusOK)"
| "changes key (EvCommit k uid n doc st) = (k = key \<and> st = S3StatusOK)"
| "changes key (EvDelete k st) = (k = key \<and> st = S3StatusOK)"
| "changes key _ = False"

fun commits :: "string \<Rightarrow> event \<Rightarrow> bool" where
  "commits key (EvCommit k uid n doc st) = (k = key)"
| "commits key _ = False"

text \<open>
  The object of a key after a history, newest event first: the body of the last put, or the parts that the document of the last
  commit lists, joined.
\<close>

definition assembled :: "history \<Rightarrow> string \<Rightarrow> string \<Rightarrow> byte list \<Rightarrow> byte list \<Rightarrow> bool" where
  "assembled h key uid doc obj \<longleftrightarrow>
     (\<exists>bodies tags. length bodies = length tags \<and> concat bodies = obj \<and> doc = commit_document tags \<and>
        (\<forall>i < length tags. latest_part h key uid (i + 1) = Some (bodies ! i, tags ! i)))"

fun holds :: "history \<Rightarrow> string \<Rightarrow> byte list \<Rightarrow> bool" where
  "holds [] key obj = False"
| "holds (ev # h) key obj =
     (if changes key ev then
        (case ev of EvPut k n body st \<Rightarrow> body = obj | EvCommit k uid n doc st \<Rightarrow> assembled h key uid doc obj | _ \<Rightarrow> False)
      else holds h key obj)"

lemma holds_skip: "\<forall>e \<in> set es. \<not> changes key e \<Longrightarrow> holds (es @ h) key obj = holds h key obj"
  by (induction es) auto

lemma holds_put:
  assumes "filter (changes key) es = [EvPut key n obj S3StatusOK]"
  shows "holds (es @ h) key x \<longleftrightarrow> x = obj"
proof -
  obtain as bs where "es = as @ EvPut key n obj S3StatusOK # bs" "\<forall>e \<in> set as. \<not> changes key e"
    using filter_eq_ConsD [OF assms] by auto
  then show ?thesis by (auto simp: holds_skip)
qed

text \<open>
  The bytes were brought to the store under the key between two histories: a small file with one put, a big one as the
  parts of an upload that the document sent afterwards lists (if \<open>full\<close>: the memory for the document was there).
\<close>

abbreviation small_file :: "byte list \<Rightarrow> bool" where
  "small_file bytes \<equiv> length bytes < 268435456"

definition put_between :: "byte list \<Rightarrow> string \<Rightarrow> history \<Rightarrow> history \<Rightarrow> bool" where
  "put_between bytes key h0 h \<longleftrightarrow>
     (\<exists>es. h = es @ h0 \<and> filter (changes key) es = [EvPut key (length bytes) bytes S3StatusOK])"

definition uploaded_between :: "bool \<Rightarrow> byte list \<Rightarrow> string \<Rightarrow> history \<Rightarrow> history \<Rightarrow> bool" where
  "uploaded_between full bytes key h0 h \<longleftrightarrow>
     (\<exists>uid bodies tags. length bodies = length tags \<and> concat bodies = bytes \<and>
        (\<forall>i < length tags. latest_part h key uid (i + 1) = Some (bodies ! i, tags ! i)) \<and>
        (full \<longrightarrow> commit_sent h key uid = commit_sent h0 key uid @ commit_document tags)) \<and>
     (\<exists>es1 es2. h = es2 @ es1 @ h0 \<and> (\<forall>e \<in> set es1. part_event e \<or> no_upload e) \<and> (\<forall>e \<in> set es2. commit_event e \<or> no_upload e))"

definition stored :: "bool \<Rightarrow> byte list \<Rightarrow> string \<Rightarrow> history \<Rightarrow> history \<Rightarrow> bool" where
  "stored full bytes key h0 h \<longleftrightarrow>
     (if small_file bytes then put_between bytes key h0 h else uploaded_between full bytes key h0 h)"

lemma no_upload_changes: "no_upload e \<Longrightarrow> \<not> changes key e \<and> \<not> commits key e"
  by (cases e) auto

lemma part_event_commits: "part_event e \<Longrightarrow> \<not> commits key e"
  by (cases e) auto

lemma commit_event_changes: "commit_event e \<Longrightarrow> \<not> commits key e \<Longrightarrow> \<not> changes key e"
  by (cases e) auto

lemma no_upload_hist:
  assumes "\<forall>e \<in> set es. no_upload e"
  shows "latest_part (es @ h) key uid seq = latest_part h key uid seq" "commit_sent (es @ h) key uid = commit_sent h key uid"
  using assms by (induction es) (auto simp: no_upload_keeps)

lemma put_between_grows:
  assumes "put_between bytes key h0 h" and "\<forall>e \<in> set as. no_upload e" and "\<forall>e \<in> set bs. no_upload e" and "h0 = bs @ h1"
  shows "put_between bytes key h1 (as @ h)"
proof -
  have "filter (changes key) as = []" "filter (changes key) bs = []"
    using assms(2,3) no_upload_changes by (auto simp: filter_empty_conv)
  moreover obtain es where "h = es @ h0" "filter (changes key) es = [EvPut key (length bytes) bytes S3StatusOK]"
    using assms(1) by (auto simp: put_between_def)
  ultimately show ?thesis
    unfolding put_between_def using assms(4) by (intro exI [of _ "as @ es @ bs"]) simp
qed

lemma uploaded_between_grows:
  assumes "uploaded_between full bytes key h0 h" and "\<forall>e \<in> set as. no_upload e" and "\<forall>e \<in> set bs. no_upload e" and "h0 = bs @ h1"
  shows "uploaded_between full bytes key h1 (as @ h)"
proof -
  obtain uid bodies tags where u: "length bodies = length tags" "concat bodies = bytes"
    "\<forall>i < length tags. latest_part h key uid (i + 1) = Some (bodies ! i, tags ! i)"
    "full \<longrightarrow> commit_sent h key uid = commit_sent h0 key uid @ commit_document tags"
    using assms(1) unfolding uploaded_between_def by (elim exE conjE) (rule that)
  obtain es1 es2 where e: "h = es2 @ es1 @ h0" "\<forall>e \<in> set es1. part_event e \<or> no_upload e" "\<forall>e \<in> set es2. commit_event e \<or> no_upload e"
    using assms(1) unfolding uploaded_between_def by (elim exE conjE) (rule that)
  have "as @ h = (as @ es2) @ (es1 @ bs) @ h1" "\<forall>e \<in> set (es1 @ bs). part_event e \<or> no_upload e"
    "\<forall>e \<in> set (as @ es2). commit_event e \<or> no_upload e"
    using e assms(2-4) by auto
  moreover have "\<forall>i < length tags. latest_part (as @ h) key uid (i + 1) = Some (bodies ! i, tags ! i)"
    "full \<longrightarrow> commit_sent (as @ h) key uid = commit_sent h1 key uid @ commit_document tags"
    using u(3,4) no_upload_hist [OF assms(2)] no_upload_hist [OF assms(3)] assms(4) by simp_all
  ultimately show ?thesis unfolding uploaded_between_def using u(1,2) by blast
qed

lemma stored_grows:
  assumes "grows no_upload s1 s2" and "stored full bytes key (hist s2) (hist s3)" and "grows no_upload s3 s4"
  shows "stored full bytes key (hist s1) (hist s4)"
proof -
  obtain as bs where "hist s4 = as @ hist s3" "\<forall>e \<in> set as. no_upload e" "hist s2 = bs @ hist s1" "\<forall>e \<in> set bs. no_upload e"
    using assms(1,3) by (auto simp: grows_def)
  then show ?thesis
    using assms(2) put_between_grows [of bytes key "hist s2" "hist s3" as bs "hist s1"]
      uploaded_between_grows [of full bytes key "hist s2" "hist s3" as bs "hist s1"]
    by (auto simp: stored_def split: if_splits)
qed

text \<open>When the store accepted the only commit that was sent, it holds the file.\<close>

lemma commit_sent_app:
  "\<forall>e \<in> set es. \<not> commits key e \<Longrightarrow> commit_sent (es @ h) key uid = commit_sent h key uid"
proof (induction es)
  case (Cons e es)
  then show ?case by (cases e) auto
qed simp

lemma latest_part_app:
  "\<forall>e \<in> set es. commit_event e \<or> no_upload e \<Longrightarrow> latest_part (es @ h) key uid seq = latest_part h key uid seq"
proof (induction es)
  case (Cons e es)
  then show ?case by (cases e) auto
qed simp

lemma uploaded_holds:
  assumes up: "uploaded_between True bytes key h0 h"
    and one: "filter (commits key) h = EvCommit key uid n doc S3StatusOK # filter (commits key) h0"
  shows "holds h key bytes"
proof -
  obtain uid' bodies tags where u: "length bodies = length tags" "concat bodies = bytes"
    "\<forall>i < length tags. latest_part h key uid' (i + 1) = Some (bodies ! i, tags ! i)"
    "commit_sent h key uid' = commit_sent h0 key uid' @ commit_document tags"
    using up unfolding uploaded_between_def by (elim exE conjE) (rule that, assumption+, blast)
  obtain es1 es2 where e: "h = es2 @ es1 @ h0" "\<forall>e \<in> set es1. part_event e \<or> no_upload e" "\<forall>e \<in> set es2. commit_event e \<or> no_upload e"
    using up unfolding uploaded_between_def by (elim exE conjE) (rule that)
  have c1: "\<forall>e \<in> set es1. \<not> commits key e" using e(2) part_event_commits no_upload_changes by blast
  then have "filter (commits key) es2 = [EvCommit key uid n doc S3StatusOK]"
    using one e(1) by simp
  from filter_eq_ConsD [OF this] obtain as bs where s: "es2 = as @ EvCommit key uid n doc S3StatusOK # bs"
    "\<forall>e \<in> set as. \<not> commits key e" "filter (commits key) bs = []" by auto
  have "\<forall>e \<in> set as. commit_event e \<or> no_upload e" using s(1) e(3) by simp
  then have "\<forall>e \<in> set as. \<not> changes key e" using s(2) commit_event_changes no_upload_changes by blast
  then have h: "holds h key bytes = assembled (bs @ es1 @ h0) key uid doc bytes"
    using e(1) s(1) by (simp add: holds_skip)
  have "\<forall>e \<in> set bs. \<not> commits key e" using s(3) by (simp add: filter_empty_conv)
  then have "commit_sent h key uid' = commit_sent h0 key uid' @ (if uid = uid' then doc else [])"
    using e(1) s(1,2) c1 by (simp add: commit_sent_app)
  then have d: "uid = uid'" "doc = commit_document tags"
    using u(4) by (auto simp: commit_document_def bytes_of_def split: if_splits)
  have "latest_part h key uid' i = latest_part (bs @ es1 @ h0) key uid' i" for i
    using e(1,3) s(1) latest_part_app [of "as @ [EvCommit key uid n doc S3StatusOK]" "bs @ es1 @ h0" key uid' i] by auto
  then show ?thesis unfolding h assembled_def d using u(1-3) by (intro exI [of _ bodies] exI [of _ tags]) auto
qed

lemma stored_holds:
  assumes "stored full bytes key h0 h"
    and "small_file bytes \<or> full \<and> (\<exists>uid n doc. filter (commits key) h = EvCommit key uid n doc S3StatusOK # filter (commits key) h0)"
  shows "holds h key bytes"
  using assms uploaded_holds holds_put by (auto simp: stored_def put_between_def split: if_splits)

section \<open>The two ways of archiving\<close>

lemma put_between_run:
  assumes "grows put_event s s'" and "filter accepted_put (hist s') = EvPut key (length bytes) bytes S3StatusOK # filter accepted_put (hist s)"
  shows "put_between bytes key (hist s) (hist s')"
proof -
  obtain es where es: "hist s' = es @ hist s" "\<forall>e \<in> set es. put_event e" using assms(1) by (auto simp: grows_def)
  have c: "changes key e = (accepted_put e \<and> changes key e)" if "put_event e" for e
    using that by (cases e) auto
  have "filter (changes key) es = filter (\<lambda>e. accepted_put e \<and> changes key e) es"
    using es(2) c by (intro filter_cong) auto
  also have "\<dots> = filter (changes key) (filter accepted_put es)" by (simp add: conj_commute)
  also have "filter accepted_put es = [EvPut key (length bytes) bytes S3StatusOK]" using assms(2) es(1) by simp
  finally show ?thesis using es(1) by (auto simp: put_between_def)
qed

lemma uploaded_between_run:
  assumes "upload_run s s'"
    and "\<exists>uid bodies tags. length bodies = length tags \<and> concat bodies = bytes \<and>
        (\<forall>i < length tags. latest_part (hist s') key uid (i + 1) = Some (bodies ! i, tags ! i)) \<and>
        (full \<longrightarrow> commit_sent (hist s') key uid = commit_sent (hist s) key uid @ commit_document tags)"
  shows "uploaded_between full bytes key (hist s) (hist s')"
proof -
  obtain es1 es2 where "hist s' = es2 @ es1 @ hist s" "\<forall>e \<in> set es1. part_event e" "\<forall>e \<in> set es2. commit_event e"
    using assms(1) by (auto simp: upload_run_def grows_def)
  then have "\<exists>es1 es2. hist s' = es2 @ es1 @ hist s \<and> (\<forall>e \<in> set es1. part_event e \<or> no_upload e) \<and>
      (\<forall>e \<in> set es2. commit_event e \<or> no_upload e)" by blast
  with assms(2) show ?thesis unfolding uploaded_between_def by blast
qed

end
