(* ===== verification/Archive.thy ===== *)
theory Archive
  imports S3_Store
begin

unbundle bit_operations_syntax

text \<open>
  \<^verbatim>\<open>ct_archive\<close> of \<^verbatim>\<open>lhsmtool_s3.c\<close>: the whole archive action, from the begin message to the
  completion message. The theorem about it is the one the coordinator relies on: what the completion
  reports as success is in the store, except in the two cases where the code reports success without
  copying anything.
\<close>

section \<open>ct\_archive\<close>

text \<open>Label \<^verbatim>\<open>end_ct_archive\<close>.\<close>

definition end_ct_archive :: "env \<Rightarrow> hsm_action_item \<Rightarrow> bool \<Rightarrow> int \<Rightarrow> int \<Rightarrow> ct \<Rightarrow> int \<times> ct" where
  "end_ct_archive env hai hcp src_fd rc s =
     (let s = s\<lparr>err_major := err_major s + 1\<rparr>;
          hp_flags = (if rc \<noteq> 0 \<and> ct_is_retryable rc then 0 OR HP_FLAG_RETRY env else 0);
          s = (if \<not> src_fd < 0 then emit (EvClose src_fd) (s\<lparr>world := sys_close (world s) src_fd\<rparr>) else s);
          (rc_done, s) = ct_action_done env hcp hai hp_flags rc s in
      (rc OR rc_done, s))"

text \<open>The copy itself, once the file is open and checked.\<close>

definition archive_copy ::
  "env \<Rightarrow> ct_options \<Rightarrow> string \<Rightarrow> string \<Rightarrow> hsm_action_item \<Rightarrow> string \<Rightarrow> int \<Rightarrow> u64 \<Rightarrow> ct \<Rightarrow> (int \<times> ct) option" where
  "archive_copy env opt path_prefix src hai file_path src_fd st_size s =
     (if st_size > 5 * 1024 * 1024 * 1024 * 1024 then Some (- EIO, s)
      else
        (case mk_full_path (o_mnt opt) file_path of
           None \<Rightarrow> None
         | Some full_path \<Rightarrow>
            (case ct_target path_prefix full_path of
               None \<Rightarrow> None
             | Some None \<Rightarrow> Some (0, s)
             | Some (Some obj_name) \<Rightarrow>
                if st_size \<ge> MAX_OBJ_SIZE_LEVEL
                then ct_archive_data_big env opt src obj_name src_fd st_size hai s
                else ct_archive_data env obj_name src_fd st_size hai s)))"

definition ct_archive ::
  "env \<Rightarrow> ct_options \<Rightarrow> string \<Rightarrow> hsm_action_item \<Rightarrow> string \<Rightarrow> ct \<Rightarrow> (int \<times> ct) option" where
  "ct_archive env opt path_prefix hai file_path s =
     (let ((rc, hcp), s) = ct_begin env False hai s in
      if rc < 0 then Some (end_ct_archive env hai hcp (-1) rc s)
      else
        (let src = snd (ct_path_lustre env PATH_MAX (o_mnt opt) (hai_dfid hai));
             (rc, parent, s) = fid_parent env (o_mnt opt) (hai_fid hai) PATH_MAX s in
         if o_dry_run opt \<noteq> 0 then Some (end_ct_archive env hai hcp (-1) 0 s)
         else
           (let src_fd = e_get_fd env (hist s);
                s = emit (EvCall ''llapi_hsm_action_get_fd'' src_fd) s in
            if src_fd < 0 then Some (end_ct_archive env hai hcp src_fd src_fd s)
            else
              (let (ok, st_size, s) = ct_archive_check hai src_fd s in
               if \<not> ok then Some (end_ct_archive env hai hcp src_fd (-1) s)
               else
                 (case archive_copy env opt path_prefix src hai file_path src_fd st_size s of
                    None \<Rightarrow> None
                  | Some (rc, s) \<Rightarrow> Some (end_ct_archive env hai hcp src_fd rc s))))))"

section \<open>What the action relies on\<close>

text \<open>The promises of the store and of \<^verbatim>\<open>malloc\<close> together.\<close>

definition honest :: "env \<Rightarrow> bool" where
  "honest env \<longleftrightarrow> honest_put env \<and> honest_part env \<and> short_etags env \<and> fresh_alloc (e_gballoc env)"

text \<open>A descriptor that liblustreapi hands out is an open file with these contents, at its start.\<close>

definition opens :: "env \<Rightarrow> byte list \<Rightarrow> ct \<Rightarrow> bool" where
  "opens env bytes s \<longleftrightarrow> (\<forall>h. 0 \<le> e_get_fd env h \<longrightarrow> e_get_fd env h \<noteq> 0 \<and>
     (\<exists>reg. os_files (world s) (e_get_fd env h) = Some \<lparr>f_data = bytes, f_pos = 0, f_reg = reg\<rparr>))"

text \<open>The extent Lustre asks for: all of the file.\<close>

definition whole_file :: "hsm_action_item \<Rightarrow> bool" where
  "whole_file hai \<longleftrightarrow> hai_extent hai = \<lparr>he_offset = 0, he_length = - 1\<rparr>"

lemma whole_extent: "whole_file hai \<Longrightarrow> extent_length hai sz = sz"
proof -
  assume "whole_file hai"
  moreover have "sz \<le> - 1" by simp
  ultimately show ?thesis using order.antisym [of sz "- 1"]
    by (auto simp: extent_length_def whole_file_def not_less)
qed

section \<open>Theorems\<close>

text \<open>The completion, and how its result is combined with the result of the action.\<close>

lemma action_done_or:
  assumes "ct_action_done env hcp hai fl rc s = (rd, s')"
  shows "\<exists>ends. filter is_end (hist s') = map (EvEnd (hai_extent hai) fl \<bar>rc\<bar>) ends @ filter is_end (hist s) \<and>
           (rc OR rd = 0 \<longrightarrow> rc = 0 \<and> ends \<noteq> [] \<and> hd ends = 0) \<and> frame no_upload s s'"
proof -
  obtain begins ends where n: "hist s' = map (EvEnd (hai_extent hai) fl \<bar>rc\<bar>) ends @
      map (EvBegin (hai_fid hai) (-1) 0 True) begins @ hist s"
    "ends = [] \<longrightarrow> rd < 0" "ends \<noteq> [] \<longrightarrow> rd = hd ends"
    using action_done_spec [OF assms] by (elim exE conjE) (rule that, auto)
  have "frame no_upload s s'"
    using action_done_frame [OF assms] by (rule frame_mono) (auto elim: is_notice.elims)
  moreover have "rc = 0 \<and> ends \<noteq> [] \<and> hd ends = 0" if "rc OR rd = 0"
    using that n(2,3) by (cases "ends = []") (auto simp: or_eq_0_iff)
  moreover have "filter is_end (hist s') = map (EvEnd (hai_extent hai) fl \<bar>rc\<bar>) ends @ filter is_end (hist s)"
    by (simp add: n(1))
  ultimately show ?thesis by blast
qed

lemma end_ct_archive_spec:
  assumes "end_ct_archive env hai hcp fd rc s = (rc', s')"
  shows "\<exists>ends. filter is_end (hist s') =
             map (EvEnd (hai_extent hai) (if rc = - ETIMEDOUT then HP_FLAG_RETRY env else 0) \<bar>rc\<bar>) ends @ filter is_end (hist s) \<and>
           (rc' = 0 \<longrightarrow> rc = 0 \<and> ends \<noteq> [] \<and> hd ends = 0) \<and>
           grows no_upload s s' \<and> err_major s' = err_major s + 1 \<and> gbh s' = gbh s"
proof -
  let ?fl = "if rc = - ETIMEDOUT then HP_FLAG_RETRY env else 0"
  define u where "u = (let s = s\<lparr>err_major := err_major s + 1\<rparr> in
      if \<not> fd < 0 then emit (EvClose fd) (s\<lparr>world := sys_close (world s) fd\<rparr>) else s)"
  have fl: "(if rc \<noteq> 0 \<and> ct_is_retryable rc then 0 OR HP_FLAG_RETRY env else 0) = ?fl"
    by (auto simp: ct_is_retryable_def errno_defs)
  obtain rd where d: "ct_action_done env hcp hai ?fl rc u = (rd, s')" "rc' = rc OR rd"
    using assms unfolding end_ct_archive_def Let_def fl u_def by (auto split: prod.splits)
  obtain ends where n: "filter is_end (hist s') = map (EvEnd (hai_extent hai) ?fl \<bar>rc\<bar>) ends @ filter is_end (hist u)"
    "rc OR rd = 0 \<longrightarrow> rc = 0 \<and> ends \<noteq> [] \<and> hd ends = 0" "frame no_upload u s'"
    using action_done_or [OF d(1)] by (elim exE conjE) (rule that)
  have "filter is_end (hist u) = filter is_end (hist s)" "grows no_upload s u" "err_major u = err_major s + 1" "gbh u = gbh s"
    by (auto simp: u_def Let_def)
  then have "filter is_end (hist s') = map (EvEnd (hai_extent hai) ?fl \<bar>rc\<bar>) ends @ filter is_end (hist s)"
    and "grows no_upload s s'" "err_major s' = err_major s + 1" "gbh s' = gbh s"
    using n(1) frameD [OF n(3)] grows_trans by auto
  then show ?thesis using n(2) d(2) by blast
qed

lemma archive_copy_spec:
  assumes env: "honest env" and f: "os_files (world s) fd = Some \<lparr>f_data = bytes, f_pos = 0, f_reg = reg\<rparr>" "fd \<noteq> 0"
    and sz: "unat st_size = length bytes" "length bytes < 2 ^ 63" and hai: "whole_file hai"
    and path: "mk_full_path (o_mnt opt) file_path = Some full" "ct_target pre full \<noteq> None" and h: "gbh s = Map.empty"
  shows "\<exists>rc s'. archive_copy env opt pre src hai file_path fd st_size s = Some (rc, s') \<and>
           (rc = 0 \<longrightarrow> ct_target pre full = Some None \<or>
              (\<exists>name. ct_target pre full = Some (Some name) \<and> stored (never_fails (e_gballoc env)) bytes name (hist s) (hist s'))) \<and>
           err_major s' = err_major s \<and> gbh s' = Map.empty"
proof (cases "st_size > 5 * 1024 * 1024 * 1024 * 1024 \<or> ct_target pre full = Some None")
  case True
  then show ?thesis using path h by (auto simp: archive_copy_def errno_defs)
next
  case False
  then obtain name where nm: "ct_target pre full = Some (Some name)" and small: "st_size \<le> 5 * 2 ^ 40"
    using path(2) by (auto simp: not_less)
  have e: "honest_put env" "honest_part env" "short_etags env" "fresh_alloc (e_gballoc env)"
    using env by (auto simp: honest_def)
  show ?thesis
  proof (cases "st_size \<ge> MAX_OBJ_SIZE_LEVEL")
    case True
    have fl: "has_file fd bytes s" using f by (simp add: has_file_def)
    obtain rc s' where b: "ct_archive_data_big env opt src name fd st_size hai s = Some (rc, s')"
      "gbh s' = Map.empty" "err_major s' = err_major s"
      "rc = 0 \<longrightarrow> (\<exists>uid bodies tags. length bodies = length tags \<and> concat bodies = bytes \<and>
              (\<forall>i < length tags. latest_part (hist s') name uid (i + 1) = Some (bodies ! i, tags ! i)) \<and>
              (never_fails (e_gballoc env) \<longrightarrow>
                 commit_sent (hist s') name uid = commit_sent (hist s) name uid @ commit_document tags))"
      using archive_data_big_spec [OF e(2-4) fl h sz(1) small, of opt src name hai] by (elim exE conjE) (rule that)
    have "\<not> small_file bytes" using True sz(1) by (simp add: MAX_OBJ_SIZE_LEVEL_def word_le_nat_alt)
    then have "rc = 0 \<longrightarrow> stored (never_fails (e_gballoc env)) bytes name (hist s) (hist s')"
      using b(4) uploaded_between_run [OF archive_data_big_events [OF b(1)]] by (simp add: stored_def)
    then show ?thesis using b(1-3) False True nm path(1) by (auto simp: archive_copy_def)
  next
    case big: False
    have off: "he_offset (hai_extent hai) \<le> st_size" using hai by (simp add: whole_file_def)
    have len: "unat st_size < 2 ^ 63" using sz by simp
    obtain rc s' where b: "ct_archive_data env name fd st_size hai s = Some (rc, s')"
      "filter accepted_put (hist s') = (if rc = 0 then [EvPut name (length bytes) bytes S3StatusOK] else []) @ filter accepted_put (hist s)"
      "err_major s' = err_major s" "gbh s' = gbh s"
      using archive_data_spec [OF e(1) f(1) off len, of name] sz(1) whole_extent [OF hai] by auto
    have "small_file bytes" using big sz(1) by (auto simp: MAX_OBJ_SIZE_LEVEL_def word_le_nat_alt)
    then have "rc = 0 \<longrightarrow> stored (never_fails (e_gballoc env)) bytes name (hist s) (hist s')"
      using b(2) put_between_run [OF archive_data_events [OF b(1)]] by (simp add: stored_def)
    then show ?thesis using b(1,3,4) False big nm path(1) h by (auto simp: archive_copy_def)
  qed
qed

lemma archive_copy_no_end:
  "archive_copy env opt pre src hai file_path fd st_size s = Some (rc, s') \<Longrightarrow> grows no_end s s'"
  by (auto simp: archive_copy_def split: if_splits option.splits
      intro: upload_run_no_end archive_data_big_events grows_mono [OF archive_data_events stage_no_end(1)])

lemma archive_check_spec:
  assumes "ct_archive_check hai fd s = (ok, sz, s')" and "os_files (world s) fd = Some f"
  shows "os_files (world s') = os_files (world s) \<and> hist s' = hist s \<and> err_major s' = err_major s \<and> gbh s' = gbh s \<and>
         (ok \<longrightarrow> sz = of_nat (length (f_data f)) \<and> f_reg f \<and> he_offset (hai_extent hai) \<le> sz)"
proof -
  obtain ft v where v: "next_fault (world s) = (ft, v)" by (cases "next_fault (world s)") auto
  then have "os_files v = os_files (world s)" by simp
  then show ?thesis using assms v
    by (auto simp: ct_archive_check_def sys_fstat_def Let_def not_less split: option.splits fault.splits if_splits)
qed

lemma fid_parent_frame:
  assumes "fid_parent env mnt fid n s = (rc, parent, s')"
  shows "frame (\<lambda>e. \<exists>rc. e = EvCall ''llapi_fid2path'' rc) s s'"
  using assms by (auto simp: fid_parent_def Let_def split: prod.splits if_splits option.splits)

text \<open>
  The calls of \<^verbatim>\<open>ct_archive\<close> before the file is looked at, with their results \<open>rc\<close> and \<open>fd\<close>, and what the function does with them
\<close>

definition archive_outcome where
  "archive_outcome env opt pre hai file_path hcp rc s1 s2 fd s3 =
     (if rc < 0 then Some (end_ct_archive env hai hcp (-1) rc s1)
      else if o_dry_run opt \<noteq> 0 then Some (end_ct_archive env hai hcp (-1) 0 s2)
      else if fd < 0 then Some (end_ct_archive env hai hcp fd fd s3)
      else
        (let (ok, st_size, s4) = ct_archive_check hai fd s3 in
         if \<not> ok then Some (end_ct_archive env hai hcp fd (-1) s4)
         else map_option (\<lambda>(rc, s5). end_ct_archive env hai hcp fd rc s5)
                (archive_copy env opt pre (snd (ct_path_lustre env PATH_MAX (o_mnt opt) (hai_dfid hai))) hai file_path fd st_size s4)))"

definition quiet_step :: "ct \<Rightarrow> ct \<Rightarrow> bool" where
  "quiet_step s s' \<longleftrightarrow> frame no_upload s s' \<and> filter is_end (hist s') = filter is_end (hist s)"

lemma quiet_stepI: "frame P s s' \<Longrightarrow> (\<And>e. P e \<Longrightarrow> no_upload e \<and> no_end e) \<Longrightarrow> quiet_step s s'"
  unfolding quiet_step_def using frame_mono [of P s s' no_upload] grows_filter [OF grows_mono [OF frameD(1), of P s s' no_end]] by blast

lemma quiet_step_trans: "quiet_step s t \<Longrightarrow> quiet_step t u \<Longrightarrow> quiet_step s u"
  unfolding quiet_step_def by (auto intro: frame_trans)

lemma archive_prepared:
  obtains rc hcp s1 s2 fd s3 where
    "ct_archive env opt pre hai file_path s = archive_outcome env opt pre hai file_path hcp rc s1 s2 fd s3"
    "fd = e_get_fd env (hist s2)" "quiet_step s s1" "quiet_step s s2" "quiet_step s s3"
proof -
  obtain rc hcp s1 where 1: "ct_begin env False hai s = ((rc, hcp), s1)" by (metis surj_pair)
  obtain rp parent s2 where 2: "fid_parent env (o_mnt opt) (hai_fid hai) PATH_MAX s1 = (rp, parent, s2)" by (metis surj_pair)
  define fd where "fd = e_get_fd env (hist s2)"
  define s3 where "s3 = emit (EvCall ''llapi_hsm_action_get_fd'' fd) s2"
  have q1: "quiet_step s s1"
    by (rule quiet_stepI [OF begin_frame [OF 1 [unfolded ct_begin_def ct_begin_restore_def]]]) auto
  have "quiet_step s1 s2" by (rule quiet_stepI [OF fid_parent_frame [OF 2]]) auto
  then have q2: "quiet_step s s2" by (rule quiet_step_trans [OF q1])
  moreover have "quiet_step s2 s3" by (simp add: quiet_step_def s3_def)
  ultimately have q3: "quiet_step s s3" by (rule quiet_step_trans)
  have "ct_archive env opt pre hai file_path s = archive_outcome env opt pre hai file_path hcp rc s1 s2 fd s3"
    unfolding ct_archive_def archive_outcome_def 1 Let_def split_conv 2 fd_def [symmetric] s3_def [symmetric]
    by (auto split: option.splits prod.splits)
  from that [OF this fd_def q1 q2 q3] show thesis .
qed

lemma quiet_stepD:
  assumes "quiet_step s s'"
  shows "world s' = world s" "err_major s' = err_major s" "gbh s' = gbh s" "filter is_end (hist s') = filter is_end (hist s)"
    "grows no_upload s s'"
  using assms frameD [of no_upload s s'] by (auto simp: quiet_step_def)

text \<open>Every way through \<^verbatim>\<open>ct_archive\<close> ends in its last block, with a result that is right.\<close>

definition archive_result where
  "archive_result env opt pre full bytes s rc_data s1 \<longleftrightarrow>
     (rc_data = (0 :: int) \<longrightarrow> o_dry_run opt \<noteq> 0 \<or> ct_target pre full = Some None \<or>
        (\<exists>name. ct_target pre full = Some (Some name) \<and> stored (never_fails (e_gballoc env)) bytes name (hist s) (hist s1))) \<and>
     err_major s1 = err_major s \<and> gbh s1 = Map.empty \<and> filter is_end (hist s1) = filter is_end (hist s)"

lemma archive_reaches_end:
  assumes env: "honest env" and o: "opens env bytes s" and hai: "whole_file hai" and sz: "length bytes < 2 ^ 63"
    and path: "mk_full_path (o_mnt opt) file_path = Some full" "ct_target pre full \<noteq> None" and h: "gbh s = Map.empty"
  shows "\<exists>hcp fd rc_data s1. ct_archive env opt pre hai file_path s = Some (end_ct_archive env hai hcp fd rc_data s1) \<and>
           archive_result env opt pre full bytes s rc_data s1"
proof -
  obtain rc hcp s1 s2 fd s3 where
    run: "ct_archive env opt pre hai file_path s = archive_outcome env opt pre hai file_path hcp rc s1 s2 fd s3"
    and fd: "fd = e_get_fd env (hist s2)" and q: "quiet_step s s1" "quiet_step s s2" "quiet_step s s3"
    by (rule archive_prepared)
  note k = q(1,2,3) [THEN quiet_stepD(2)] q(1,2,3) [THEN quiet_stepD(3)] q(1,2,3) [THEN quiet_stepD(4)]
  show ?thesis
  proof (cases "rc < 0 \<or> o_dry_run opt \<noteq> 0 \<or> fd < 0")
    case True
    then show ?thesis using k h unfolding run archive_outcome_def archive_result_def
      by (cases "rc < 0"; cases "o_dry_run opt \<noteq> 0") auto
  next
    case False
    then obtain reg where f: "os_files (world s3) fd = Some \<lparr>f_data = bytes, f_pos = 0, f_reg = reg\<rparr>" "fd \<noteq> 0"
      using o quiet_stepD(1) [OF q(3)] by (auto simp: opens_def fd not_less)
    obtain ok st_size s4 where 4: "ct_archive_check hai fd s3 = (ok, st_size, s4)" by (metis surj_pair)
    note c = archive_check_spec [OF 4 f(1)]
    show ?thesis
    proof (cases ok)
      case no: False
      then show ?thesis using False 4 c k h unfolding run archive_outcome_def archive_result_def
        by (intro exI [of _ hcp] exI [of _ fd] exI [of _ "-1"] exI [of _ s4]) auto
    next
      case yes: True
      let ?src = "snd (ct_path_lustre env PATH_MAX (o_mnt opt) (hai_dfid hai))"
      have u: "unat st_size = length bytes" using yes c sz u64_of_nat [of "length bytes"] by simp
      have f4: "os_files (world s4) fd = Some \<lparr>f_data = bytes, f_pos = 0, f_reg = reg\<rparr>" "gbh s4 = Map.empty"
        using c f(1) k h by simp_all
      obtain rcd s5 where 5: "archive_copy env opt pre ?src hai file_path fd st_size s4 = Some (rcd, s5)"
        "rcd = 0 \<longrightarrow> ct_target pre full = Some None \<or>
           (\<exists>name. ct_target pre full = Some (Some name) \<and> stored (never_fails (e_gballoc env)) bytes name (hist s4) (hist s5))"
        "err_major s5 = err_major s4" "gbh s5 = Map.empty"
        using archive_copy_spec [OF env f4(1) f(2) u sz hai path f4(2), of ?src] by (elim exE conjE) (rule that)
      have "stored (never_fails (e_gballoc env)) bytes name (hist s) (hist s5)"
        if "stored (never_fails (e_gballoc env)) bytes name (hist s4) (hist s5)" for name
        using stored_grows [OF quiet_stepD(5) [OF q(3)] _ grows_refl] that c by simp
      moreover have "filter is_end (hist s5) = filter is_end (hist s)"
        using grows_filter [OF archive_copy_no_end [OF 5(1)]] c k by simp
      ultimately have "archive_result env opt pre full bytes s rcd s5"
        using 5(2-4) c k unfolding archive_result_def by auto
      then show ?thesis using False yes 4 5(1) unfolding run archive_outcome_def by auto
    qed
  qed
qed

lemma archive_spec:
  assumes "honest env" and "opens env bytes s" and "whole_file hai" and "length bytes < 2 ^ 63"
    and "mk_full_path (o_mnt opt) file_path = Some full" and "ct_target pre full \<noteq> None" and "gbh s = Map.empty"
  shows "\<exists>rc s' rc_data ends. ct_archive env opt pre hai file_path s = Some (rc, s') \<and>
           filter is_end (hist s') =
             map (EvEnd (hai_extent hai) (if rc_data = - ETIMEDOUT then HP_FLAG_RETRY env else 0) \<bar>rc_data\<bar>) ends @ filter is_end (hist s) \<and>
           (rc = 0 \<longrightarrow> rc_data = 0 \<and> ends \<noteq> [] \<and> hd ends = 0) \<and>
           (rc_data = 0 \<longrightarrow> o_dry_run opt \<noteq> 0 \<or> ct_target pre full = Some None \<or>
              (\<exists>name. ct_target pre full = Some (Some name) \<and> stored (never_fails (e_gballoc env)) bytes name (hist s) (hist s'))) \<and>
           err_major s' = err_major s + 1 \<and> gbh s' = Map.empty"
proof -
  obtain hcp fd rc_data s1 where 1: "ct_archive env opt pre hai file_path s = Some (end_ct_archive env hai hcp fd rc_data s1)"
    "rc_data = 0 \<longrightarrow> o_dry_run opt \<noteq> 0 \<or> ct_target pre full = Some None \<or>
       (\<exists>name. ct_target pre full = Some (Some name) \<and> stored (never_fails (e_gballoc env)) bytes name (hist s) (hist s1))"
    "err_major s1 = err_major s" "gbh s1 = Map.empty" "filter is_end (hist s1) = filter is_end (hist s)"
    using archive_reaches_end [OF assms] unfolding archive_result_def by (elim exE conjE) (rule that)
  obtain rc s' where e: "end_ct_archive env hai hcp fd rc_data s1 = (rc, s')" by (metis surj_pair)
  obtain ends where 2: "filter is_end (hist s') =
      map (EvEnd (hai_extent hai) (if rc_data = - ETIMEDOUT then HP_FLAG_RETRY env else 0) \<bar>rc_data\<bar>) ends @ filter is_end (hist s1)"
    "rc = 0 \<longrightarrow> rc_data = 0 \<and> ends \<noteq> [] \<and> hd ends = 0" "grows no_upload s1 s'"
    "err_major s' = err_major s1 + 1" "gbh s' = gbh s1"
    using end_ct_archive_spec [OF e] by (elim exE conjE) (rule that)
  have "rc_data = 0 \<longrightarrow> o_dry_run opt \<noteq> 0 \<or> ct_target pre full = Some None \<or>
       (\<exists>name. ct_target pre full = Some (Some name) \<and> stored (never_fails (e_gballoc env)) bytes name (hist s) (hist s'))"
    using 1(2) stored_grows [OF grows_refl _ 2(3)] by blast
  then show ?thesis using 1(1,3-5) 2(1,2,4,5) e
    by (intro exI [of _ rc] exI [of _ s'] exI [of _ rc_data] exI [of _ ends] conjI) simp_all
qed


text \<open>A coordinator that accepts every message and gives the file.\<close>

definition good_coordinator :: "env \<Rightarrow> bool" where
  "good_coordinator env \<longleftrightarrow> (\<forall>h f. e_begin env h f = (0, True)) \<and> (\<forall>h. e_end env h = 0) \<and> (\<forall>h. 0 \<le> e_get_fd env h)"

lemma good_begin:
  "good_coordinator env \<Longrightarrow> ct_begin env False hai s = ((0, True), emit (EvBegin (hai_fid hai) (-1) 0 False 0) s)"
  by (simp add: good_coordinator_def ct_begin_def ct_begin_restore_def llapi_hsm_action_begin_ex_def max_retry_def
      resend_nonneg call_once_def)

lemma good_done:
  "good_coordinator env \<Longrightarrow> ct_action_done env True hai fl rc s = (0, emit (EvEnd (hai_extent hai) fl \<bar>rc\<bar> 0) s)"
  by (simp add: good_coordinator_def ct_action_done_def action_end_ex_def max_retry_def resend_nonneg call_once_def)

text \<open>
  C34. A file whose path is not under the configured prefix is not copied, and the action is reported as
  a success. This is the whole history of the action: the begin, the two queries, the close, and
  the completion without error.
\<close>

theorem ct_archive_outside_prefix_reports_success:
  assumes "good_coordinator env" and "opens env bytes s" and "quiet s"
    and "\<forall>h f. os_files (world s) (e_get_fd env h) = Some f \<longrightarrow> f_reg f"
    and "whole_file hai" and "length bytes \<le> 5 * 2 ^ 40" and "o_dry_run opt = 0"
    and "mk_full_path (o_mnt opt) file_path = Some full" and "ct_target pre full = Some None"
  shows "\<exists>s' rp fd. ct_archive env opt pre hai file_path s = Some (0, s') \<and>
           hist s' = [EvEnd (hai_extent hai) 0 0 0, EvClose fd, EvCall ''llapi_hsm_action_get_fd'' fd,
                      EvCall ''llapi_fid2path'' rp, EvBegin (hai_fid hai) (-1) 0 False 0] @ hist s"
proof -
  define s1 where "s1 = emit (EvBegin (hai_fid hai) (-1) 0 False 0) s"
  obtain rc parent s2 where 2: "fid_parent env (o_mnt opt) (hai_fid hai) PATH_MAX s1 = (rc, parent, s2)" by (metis surj_pair)
  then obtain rp where s2: "s2 = emit (EvCall ''llapi_fid2path'' rp) s1"
    by (auto simp: fid_parent_def Let_def split: prod.splits if_splits option.splits)
  define fd where "fd = e_get_fd env (hist s2)"
  define s3 where "s3 = emit (EvCall ''llapi_hsm_action_get_fd'' fd) s2"
  have fd: "\<not> fd < 0" using assms(1) by (simp add: fd_def good_coordinator_def not_less)
  obtain f where f: "os_files (world s3) fd = Some f" "f_data f = bytes" "f_reg f"
    using assms(2,4) fd by (fastforce simp: opens_def fd_def s3_def s2 s1_def not_less)
  have c: "ct_archive_check hai fd s3 = (True, of_nat (length bytes), s3)"
    using f assms(3,5) by (simp add: ct_archive_check_def sys_fstat_def next_fault_def quiet_def s3_def s2 s1_def whole_file_def)
  have u: "unat (of_nat (length bytes) :: u64) = length bytes"
    using assms(6) u64_of_nat [of "length bytes"] by simp
  have sz: "\<not> (of_nat (length bytes) :: u64) > 5 * 1024 * 1024 * 1024 * 1024"
    using u assms(6) by (simp add: word_less_nat_alt)
  have "archive_copy env opt pre src hai file_path fd (of_nat (length bytes)) s3 = Some (0, s3)" for src
    using sz assms(8,9) by (simp add: archive_copy_def)
  then have "ct_archive env opt pre hai file_path s = Some (end_ct_archive env hai True fd 0 s3)"
    unfolding ct_archive_def Let_def good_begin [OF assms(1)] split_conv s1_def [symmetric] 2 fd_def [symmetric] s3_def [symmetric] c
    using assms(7) fd by simp
  then show ?thesis
    using fd by (auto simp: end_ct_archive_def Let_def good_done [OF assms(1)] s3_def s2 s1_def)
qed

section \<open>Witnesses\<close>

lemma demo_honest_all: "honest demo_env" "good_coordinator demo_env" "opens demo_env bs (demo_ct bs)"
  "whole_file (demo_hai act)" "quiet (demo_ct bs)"
  using demo_honest demo_good
  by (auto simp: honest_def good_coordinator_def opens_def whole_file_def demo_env_def demo_ct_def demo_hai_def quiet_def)


theorem ct_archive_outside_prefix_reports_success_witness:
  "\<exists>s'. ct_archive demo_env demo_opt ''/other'' (demo_hai HSMA_ARCHIVE) ''a/b'' (demo_ct [7, 8]) = Some (0, s') \<and>
     EvEnd (hai_extent (demo_hai HSMA_ARCHIVE)) 0 0 0 \<in> set (hist s')"
proof -
  have p: "mk_full_path (o_mnt demo_opt) ''a/b'' = Some ''/mnt/a/b''" by (simp add: mk_full_path_def demo_opt_def PATH_MAX_def)
  have t: "ct_target ''/other'' ''/mnt/a/b'' = Some None" by (simp add: ct_target_def)
  have r: "\<forall>h f. os_files (world (demo_ct [7, 8])) (e_get_fd demo_env h) = Some f \<longrightarrow> f_reg f"
    by (simp add: demo_ct_def demo_env_def)
  have l: "length [7 :: byte, 8] \<le> 5 * 2 ^ 40" "o_dry_run demo_opt = 0" by (simp_all add: demo_opt_def)
  show ?thesis
    using ct_archive_outside_prefix_reports_success [OF demo_honest_all(2,3,5) r demo_honest_all(4) l p t] by fastforce
qed

end
