(* ===== verification/Restore.thy ===== *)
theory Restore
  imports Archive
begin

unbundle bit_operations_syntax

text \<open>
  The restore, remove and cancel actions of \<^verbatim>\<open>lhsmtool_s3.c\<close>. A restore gets the object in ranges
  of 16 MB until a range comes up short or lies past the end, with retries that seek back. The
  theorems say that the range loop ends for every object and every pattern of failures, that a
  restore that succeeds leaves exactly the object in the file, and what the completion messages
  report.
\<close>

section \<open>The get request\<close>

text \<open>
  The callbacks of a get, run on what arrives. A data callback that does not return
  \<^verbatim>\<open>S3StatusOK\<close> stops the transfer with that status.
\<close>

fun run_get :: "get_reply list \<Rightarrow> get_object_callback_data \<times> os \<Rightarrow> (S3Status option \<times> get_object_callback_data \<times> os) option" where
  "run_get [] st = Some (None, st)"
| "run_get (GetProperties n eTag # rs) st =
     run_get rs (s3_response_get_object_properties_callback n eTag (fst st), snd st)"
| "run_get (GetData bs # rs) st =
     (case get_objectdata_callback bs st of
        None \<Rightarrow> None
      | Some (status, st) \<Rightarrow> if status \<noteq> S3StatusOK then Some (Some status, st) else run_get rs st)"

definition S3_get_object ::
  "env \<Rightarrow> string \<Rightarrow> u64 \<Rightarrow> u64 \<Rightarrow> get_object_callback_data \<times> ct \<Rightarrow> (get_object_callback_data \<times> ct) option" where
  "S3_get_object env key startByte byteCount st =
     (let (replies, status) = e_get env (hist (snd st)) key startByte byteCount in
      case run_get replies (fst st, world (snd st)) of
        None \<Rightarrow> None
      | Some (stopped, data, w) \<Rightarrow>
         (let status = (case stopped of None \<Rightarrow> status | Some x \<Rightarrow> x) in
          Some (s3_get_response_complete_callback status data,
                emit (EvGet key startByte byteCount status) ((snd st)\<lparr>world := w\<rparr>))))"

section \<open>get\_s3\_object\<close>

partial_function (option) get_loop ::
  "env \<Rightarrow> string \<Rightarrow> u64 \<Rightarrow> int \<Rightarrow> get_object_callback_data \<times> ct \<Rightarrow> (get_object_callback_data \<times> ct) option" where
  "get_loop env key startByte retry_count st =
     (let s = (snd st)\<lparr>world := sys_lseek (world (snd st)) (g_fd (fst st)) (unat startByte)\<rparr> in
      case S3_get_object env key startByte CHUNK_SIZE (fst st, s) of
        None \<Rightarrow> None
      | Some (data, s) \<Rightarrow>
         if g_status data = S3StatusOK then
           (let data = data\<lparr>totalLength := totalLength data + g_contentLength data\<rparr> in
            if unat CHUNK_SIZE \<noteq> g_contentLength data then Some (data, s)
            else get_loop env key (startByte + CHUNK_SIZE) retry_count (data, s))
         else if g_status data = S3StatusErrorInvalidRange then
           Some (data\<lparr>g_status := S3StatusOK\<rparr>, s)
         else if e_retryable env (g_status data) \<and> fst (should_retry retry_count) then
           get_loop env key startByte (snd (should_retry retry_count)) (data, s)
         else Some (data, s))"

definition get_s3_object ::
  "env \<Rightarrow> string \<Rightarrow> get_object_callback_data \<Rightarrow> ct \<Rightarrow> (int \<times> get_object_callback_data \<times> ct) option" where
  "get_s3_object env objectName data s =
     (case get_loop env objectName 0 (int RETRYCOUNT) (data, s) of
        None \<Rightarrow> None
      | Some (data, s) \<Rightarrow> Some (if g_status data \<noteq> S3StatusOK then - EIO else 0, data, s))"

section \<open>ct\_restore\_data\<close>

definition zero_get_data :: get_object_callback_data where
  "zero_get_data = \<lparr>totalLength = 0, g_contentLength = 0, g_status = S3StatusOK, md5 = replicate 33 (CHR 0x00),
                     g_fd = 0, g_file_path = [], g_file_offset = 0\<rparr>"

text \<open>After the transfer: the second report, whose result becomes the result.\<close>

definition restore_report :: "env \<Rightarrow> ct_options \<Rightarrow> u64 \<Rightarrow> u64 \<Rightarrow> int \<Rightarrow> int \<Rightarrow> ct \<Rightarrow> int \<times> ct" where
  "restore_report env opt foff len last_report rc s =
     (let now = e_time env (hist s); s = emit (EvTime now) s in
      if now \<ge> last_report + o_report_int opt
      then llapi_hsm_action_progress_ex env \<lparr>he_offset = foff, he_length = len\<rparr> len s
      else (rc, s))"

definition ct_restore_data ::
  "env \<Rightarrow> ct_options \<Rightarrow> string \<Rightarrow> int \<Rightarrow> hsm_action_item \<Rightarrow> string \<Rightarrow> ct \<Rightarrow> (int \<times> ct) option" where
  "ct_restore_data env opt path_prefix dst_fd hai file_path s =
     (let foff = he_offset (hai_extent hai);
          len = he_length (hai_extent hai);
          (st, w) = sys_fstat (world s) dst_fd;
          s = s\<lparr>world := w\<rparr> in
      case st of
        None \<Rightarrow> Some (- e_errno env (hist s), s)
      | Some (is_reg, _) \<Rightarrow>
         if \<not> is_reg then Some (- EINVAL, s)
         else
           (let (_, s) = llapi_hsm_action_progress_ex env \<lparr>he_offset = foff, he_length = 0\<rparr> len s;
                last_report = e_time env (hist s);
                s = emit (EvTime last_report) s in
            case mk_full_path (o_mnt opt) file_path of
              None \<Rightarrow> None
            | Some full_path \<Rightarrow>
               (case ct_target path_prefix full_path of
                  None \<Rightarrow> None
                | Some None \<Rightarrow> Some (0, s)
                | Some (Some object_name) \<Rightarrow>
                   if len \<noteq> - 1 \<or> foff \<noteq> 0 then None
                   else
                     (case get_s3_object env object_name
                             (zero_get_data\<lparr>g_fd := dst_fd, g_file_path := file_path\<rparr>) s of
                        None \<Rightarrow> None
                      | Some (rc, data, s) \<Rightarrow>
                         if rc < 0 then Some (rc, s)
                         else Some (restore_report env opt foff (of_nat (g_contentLength data)) last_report rc s)))))"

section \<open>ct\_restore\<close>

text \<open>Label \<^verbatim>\<open>end_ct_restore\<close>.\<close>

definition end_ct_restore :: "env \<Rightarrow> hsm_action_item \<Rightarrow> bool \<Rightarrow> int \<Rightarrow> int \<Rightarrow> int \<Rightarrow> ct \<Rightarrow> int \<times> ct" where
  "end_ct_restore env hai hcp hp_flags dst_fd rc s =
     (let s = (if \<not> dst_fd < 0 then emit (EvClose dst_fd) (s\<lparr>world := sys_close (world s) dst_fd\<rparr>) else s);
          (rc_done, s) = ct_action_done env hcp hai hp_flags rc s in
      (rc OR rc_done, s))"

definition ct_restore ::
  "env \<Rightarrow> ct_options \<Rightarrow> string \<Rightarrow> hsm_action_item \<Rightarrow> string \<Rightarrow> ct \<Rightarrow> (int \<times> ct) option" where
  "ct_restore env opt path_prefix hai file_path s =
     (let (rc, mdt_index) = e_mdt_index env (hist s);
          s = emit (EvCall ''llapi_get_mdt_index_by_fid'' rc) s in
      if rc < 0 then Some (rc, s)
      else
        (let ((rc, hcp), s) = ct_begin_restore env False hai mdt_index 0 s in
         if rc < 0 then Some (end_ct_restore env hai hcp 0 (-1) rc s)
         else
           (let (rc, dfid) = e_get_dfid env (hist s);
                s = emit (EvCall ''llapi_hsm_action_get_dfid'' rc) s in
            if rc < 0 then Some (end_ct_restore env hai hcp 0 (-1) rc s)
            else if o_dry_run opt \<noteq> 0 then Some (end_ct_restore env hai hcp 0 (-1) 0 s)
            else
              (let dst_fd = e_get_fd env (hist s);
                   s = emit (EvCall ''llapi_hsm_action_get_fd'' dst_fd) s in
               if dst_fd < 0 then Some (end_ct_restore env hai hcp 0 dst_fd dst_fd s)
               else
                 (case ct_restore_data env opt path_prefix dst_fd hai file_path s of
                    None \<Rightarrow> None
                  | Some (rc, s) \<Rightarrow>
                     if rc < 0
                     then Some (end_ct_restore env hai hcp (if ct_is_retryable rc then 0 OR HP_FLAG_RETRY env else 0)
                                  dst_fd rc (s\<lparr>err_major := err_major s + 1\<rparr>))
                     else Some (end_ct_restore env hai hcp 0 dst_fd rc s))))))"

section \<open>ct\_remove and ct\_cancel\<close>

definition delete_once :: "env \<Rightarrow> string \<Rightarrow> del_object_callback_data \<times> ct \<Rightarrow> (bool \<times> (del_object_callback_data \<times> ct)) option" where
  "delete_once env object_name st =
     (let status = e_delete env (hist (snd st)) object_name;
          data = s3_del_response_complete_callback status (fst st) in
      Some (e_retryable env data, (data, emit (EvDelete object_name status) (snd st))))"

text \<open>The delete data starts uninitialised; its first value \<open>junk\<close> is an argument.\<close>

definition ct_remove ::
  "env \<Rightarrow> ct_options \<Rightarrow> S3Status \<Rightarrow> hsm_action_item \<Rightarrow> string \<Rightarrow> ct \<Rightarrow> (int \<times> ct) option" where
  "ct_remove env opt junk hai file_path s =
     (let ((rc, hcp), s) = ct_begin env False hai s;
          finish = (\<lambda>rc s. let (rc_done, s) = ct_action_done env hcp hai 0 rc s in Some (rc OR rc_done, s)) in
      if rc < 0 then finish rc s
      else if o_dry_run opt \<noteq> 0 then finish 0 s
      else
        (case do_retry (delete_once env file_path) RETRYCOUNT (junk, s) of
           None \<Rightarrow> None
         | Some (delete_data, s) \<Rightarrow>
            if delete_data \<noteq> S3StatusOK then finish (- EIO) s else finish rc s))"

definition ct_cancel :: "hsm_action_item \<Rightarrow> int" where
  "ct_cancel hai = 0"

section \<open>The object and the file\<close>

text \<open>
  What S3 promises of a ranged get of an object that does not change: the bytes that arrive are the
  front of the range, announced by its length; with status OK they are all of it. A range that
  starts past the end is refused and nothing arrives.
\<close>

definition range_of :: "byte list \<Rightarrow> u64 \<Rightarrow> u64 \<Rightarrow> byte list" where
  "range_of obj startByte byteCount = take (unat byteCount) (drop (unat startByte) obj)"

definition serves :: "env \<Rightarrow> string \<Rightarrow> byte list \<Rightarrow> bool" where
  "serves env key obj \<longleftrightarrow> length obj < 2 ^ 63 \<and>
     (\<forall>h start n. case e_get env h key start n of (replies, status) \<Rightarrow>
        if unat start < length obj then
          status \<noteq> S3StatusErrorInvalidRange \<and>
          (replies = [] \<and> status \<noteq> S3StatusOK \<or>
           (\<exists>tag chunks rest. replies = GetProperties (length (range_of obj start n)) tag # map GetData chunks \<and>
              concat chunks @ rest = range_of obj start n \<and> (status = S3StatusOK \<longrightarrow> rest = [])))
        else replies = [] \<and> status \<noteq> S3StatusOK)"

lemma servesD:
  assumes "serves env key obj" and "e_get env h key start n = (replies, status)"
  shows "unat start < length obj \<Longrightarrow> status \<noteq> S3StatusErrorInvalidRange \<and>
          (replies = [] \<and> status \<noteq> S3StatusOK \<or>
           (\<exists>tag chunks rest. replies = GetProperties (length (range_of obj start n)) tag # map GetData chunks \<and>
              concat chunks @ rest = range_of obj start n \<and> (status = S3StatusOK \<longrightarrow> rest = [])))"
    and "\<not> unat start < length obj \<Longrightarrow> replies = [] \<and> status \<noteq> S3StatusOK"
proof -
  note sv = assms(1) [unfolded serves_def, THEN conjunct2, THEN spec, THEN spec, THEN spec, of start n h, unfolded assms(2) split_conv]
  show "unat start < length obj \<Longrightarrow> status \<noteq> S3StatusErrorInvalidRange \<and>
          (replies = [] \<and> status \<noteq> S3StatusOK \<or>
           (\<exists>tag chunks rest. replies = GetProperties (length (range_of obj start n)) tag # map GetData chunks \<and>
              concat chunks @ rest = range_of obj start n \<and> (status = S3StatusOK \<longrightarrow> rest = [])))"
    using sv by (simp only: if_True simp_thms)
  show "\<not> unat start < length obj \<Longrightarrow> replies = [] \<and> status \<noteq> S3StatusOK" using sv by (simp only: if_False simp_thms)
qed

text \<open>The file holds a front part of the object, at least up to a given position.\<close>

definition restored_to :: "byte list \<Rightarrow> int \<Rightarrow> nat \<Rightarrow> os \<Rightarrow> bool" where
  "restored_to obj fd k w \<longleftrightarrow>
     (\<exists>f. os_files w fd = Some f \<and> f_data f = take (length (f_data f)) obj \<and> k \<le> length (f_data f) \<and>
        length (f_data f) \<le> length obj)"

definition positioned :: "int \<Rightarrow> nat \<Rightarrow> os \<Rightarrow> bool" where
  "positioned fd p w \<longleftrightarrow> (\<exists>f. os_files w fd = Some f \<and> f_pos f = p)"

lemma restored_to_mono: "restored_to obj fd k w \<Longrightarrow> k' \<le> k \<Longrightarrow> restored_to obj fd k' w"
  by (auto simp: restored_to_def)

lemma restored_to_seek:
  "restored_to obj fd k w \<Longrightarrow> restored_to obj fd k (sys_lseek w fd p) \<and> positioned fd p (sys_lseek w fd p)"
  by (auto simp: restored_to_def positioned_def sys_lseek_def)

lemma write_prefix:
  assumes "d = take (length d) obj" and "p \<le> length d" and "bs = take (length bs) (drop p obj)" and "p + length bs \<le> length obj"
  shows "write_at p bs d = take (max (length d) (p + length bs)) obj"
proof -
  have t: "take p d = take p obj" using assms(1,2) by (metis min.absorb1 take_take)
  have "take p obj @ bs = take (p + length bs) obj"
    using drop_take_append [of p obj "length bs"] assms(3) by simp
  then have "write_at p bs d = take (p + length bs) obj @ drop (p + length bs) d"
    using t assms(2) by (simp add: write_at_def)
  also have "drop (p + length bs) d = take (length d - (p + length bs)) (drop (p + length bs) obj)"
    using assms(1) by (metis drop_take)
  finally show ?thesis
    using drop_take_append [of "p + length bs" obj "length d - (p + length bs)"] by (simp add: max_def)
qed

lemma get_data_step:
  assumes r: "restored_to obj (g_fd d) p w" "positioned (g_fd d) p w" and n: "g_contentLength d \<noteq> 0"
    and bs: "bs = take (length bs) (drop p obj)" "p + length bs \<le> length obj"
  shows "\<exists>status d' w'. get_objectdata_callback bs (d, w) = Some (status, d', w') \<and>
           g_fd d' = g_fd d \<and> g_contentLength d' = g_contentLength d \<and>
           restored_to obj (g_fd d) p w' \<and> status \<in> {S3StatusOK, S3StatusAbortedByCallback} \<and>
           (status = S3StatusOK \<longrightarrow> restored_to obj (g_fd d) (p + length bs) w' \<and> positioned (g_fd d) (p + length bs) w')"
proof -
  obtain f where f: "os_files w (g_fd d) = Some f" "f_pos f = p" "f_data f = take (length (f_data f)) obj"
    "p \<le> length (f_data f)" "length (f_data f) \<le> length obj"
    using r by (auto simp: restored_to_def positioned_def)
  obtain ret w' where wr: "sys_write w (g_fd d) bs = (ret, w')" by (cases "sys_write w (g_fd d) bs") auto
  have run: "get_objectdata_callback bs (d, w) =
      (if ret < int (length bs) then Some (S3StatusAbortedByCallback, d\<lparr>g_status := S3StatusAbortedByCallback\<rparr>, w')
       else Some (S3StatusOK, d\<lparr>g_file_offset := g_file_offset d + nat ret\<rparr>, w'))"
    using n wr by (simp add: get_objectdata_callback_def)
  have written: "restored_to obj (g_fd d) (p + k) w' \<and> positioned (g_fd d) (p + k) w'"
    if k: "k \<le> length bs" "os_files w' = (os_files w)(g_fd d \<mapsto>
        f\<lparr>f_data := write_at p (take k bs) (f_data f), f_pos := p + k\<rparr>)" for k
  proof -
    have "take k bs = take (length (take k bs)) (drop p obj)" using bs k(1) by (metis length_take min.absorb2 take_take)
    then have "write_at p (take k bs) (f_data f) = take (max (length (f_data f)) (p + k)) obj"
      using write_prefix [OF f(3,4), of "take k bs"] bs(2) k(1) by simp
    then show ?thesis using k(2) f(5) bs(2) k(1) by (auto simp: restored_to_def positioned_def)
  qed
  from sys_write_cases [OF wr f(1)] show ?thesis
  proof (elim disjE exE conjE)
    assume "os_files w' = os_files w" "ret = - 1"
    then show ?thesis using run r(1) by (auto simp: restored_to_def)
  next
    fix k assume k: "k \<le> length bs" "ret = int k"
      "os_files w' = (os_files w)(g_fd d \<mapsto> f\<lparr>f_data := write_at (f_pos f) (take k bs) (f_data f), f_pos := f_pos f + k\<rparr>)"
    then have "restored_to obj (g_fd d) (p + k) w' \<and> positioned (g_fd d) (p + k) w'" using written f(2) by simp
    then show ?thesis using run k(1,2) restored_to_mono [of obj "g_fd d" "p + k" w' p] by (cases "k = length bs") auto
  qed
qed

lemma run_get_data:
  assumes "restored_to obj (g_fd d) p w" and "positioned (g_fd d) p w" and "g_contentLength d \<noteq> 0"
    and "concat chunks = take (length (concat chunks)) (drop p obj)" and "p + length (concat chunks) \<le> length obj"
  shows "\<exists>stopped d' w'. run_get (map GetData chunks) (d, w) = Some (stopped, d', w') \<and>
           g_fd d' = g_fd d \<and> g_contentLength d' = g_contentLength d \<and> restored_to obj (g_fd d) p w' \<and>
           (stopped = None \<and> restored_to obj (g_fd d) (p + length (concat chunks)) w' \<or>
            stopped = Some S3StatusAbortedByCallback)"
  using assms
proof (induction chunks arbitrary: d w p)
  case Nil
  then show ?case by auto
next
  case (Cons c cs)
  have c: "c = take (length c) (drop p obj)" "p + length c \<le> length obj"
    and rest: "concat cs = take (length (concat cs)) (drop (p + length c) obj)" "p + length c + length (concat cs) \<le> length obj"
  proof -
    have a: "c @ concat cs = take (length c + length (concat cs)) (drop p obj)" using Cons.prems(4) by simp
    then show "c = take (length c) (drop p obj)" by (metis append_eq_conv_conj le_add1 min.absorb1 take_take)
    from a show "concat cs = take (length (concat cs)) (drop (p + length c) obj)"
      by (metis add.commute append_eq_conv_conj drop_drop take_drop)
    show "p + length c \<le> length obj" "p + length c + length (concat cs) \<le> length obj" using Cons.prems(5) by auto
  qed
  obtain status d1 w1 where 1: "get_objectdata_callback c (d, w) = Some (status, d1, w1)"
    "g_fd d1 = g_fd d" "g_contentLength d1 = g_contentLength d" "restored_to obj (g_fd d) p w1"
    "status \<in> {S3StatusOK, S3StatusAbortedByCallback}"
    "status = S3StatusOK \<longrightarrow> restored_to obj (g_fd d) (p + length c) w1 \<and> positioned (g_fd d) (p + length c) w1"
    using get_data_step [OF Cons.prems(1-3) c] by (elim exE conjE) (rule that)
  show ?case
  proof (cases "status = S3StatusOK")
    case False
    then show ?thesis using 1 by auto
  next
    case True
    obtain stopped d2 w2 where 2: "run_get (map GetData cs) (d1, w1) = Some (stopped, d2, w2)"
      "g_fd d2 = g_fd d1" "g_contentLength d2 = g_contentLength d1" "restored_to obj (g_fd d1) (p + length c) w2"
      "stopped = None \<and> restored_to obj (g_fd d1) (p + length c + length (concat cs)) w2 \<or> stopped = Some S3StatusAbortedByCallback"
      using Cons.IH [of d1 "p + length c" w1] 1(2,3,6) True Cons.prems(3) rest by auto
    then show ?thesis using 1(1-3) True restored_to_mono [OF 2(4), of p] by (auto simp: add.assoc)
  qed
qed

fun is_get :: "event \<Rightarrow> bool" where
  "is_get (EvGet key st n status) = True"
| "is_get _ = False"

definition get_keeps :: "ct \<Rightarrow> ct \<Rightarrow> bool" where
  "get_keeps s s' \<longleftrightarrow> grows is_get s s' \<and> err_major s' = err_major s \<and> gbh s' = gbh s"

lemma get_keeps_trans: "get_keeps s s' \<Longrightarrow> get_keeps s' s'' \<Longrightarrow> get_keeps s s''"
  by (auto simp: get_keeps_def intro: grows_trans)

lemma S3_get_object_spec:
  assumes srv: "serves env key obj" and r: "restored_to obj (g_fd d) (unat start) (world s)"
    "positioned (g_fd d) (unat start) (world s)" and n: "0 < unat n"
  shows "\<exists>d' s'. S3_get_object env key start n (d, s) = Some (d', s') \<and> g_fd d' = g_fd d \<and> get_keeps s s' \<and>
           restored_to obj (g_fd d) (unat start) (world s') \<and>
           (g_status d' = S3StatusOK \<longrightarrow> g_contentLength d' = length (range_of obj start n) \<and>
              unat start < length obj \<and> restored_to obj (g_fd d) (unat start + length (range_of obj start n)) (world s')) \<and>
           (g_status d' = S3StatusErrorInvalidRange \<longrightarrow> length obj \<le> unat start)"
proof -
  obtain replies status where e: "e_get env (hist s) key start n = (replies, status)"
    by (cases "e_get env (hist s) key start n") auto
  note sv = servesD [OF srv e]
  show ?thesis
  proof (cases "replies = []")
    case True
    then have "status \<noteq> S3StatusOK" "status = S3StatusErrorInvalidRange \<longrightarrow> length obj \<le> unat start"
      using sv by (cases "unat start < length obj"; auto)+
    then show ?thesis using True e r
      by (auto simp: S3_get_object_def s3_get_response_complete_callback_def get_keeps_def)
  next
    case False
    then obtain tag chunks rest where rp: "replies = GetProperties (length (range_of obj start n)) tag # map GetData chunks"
      "concat chunks @ rest = range_of obj start n" "status = S3StatusOK \<longrightarrow> rest = []"
      and st: "unat start < length obj" "status \<noteq> S3StatusErrorInvalidRange"
      using sv by (cases "unat start < length obj") auto
    define d1 where "d1 = s3_response_get_object_properties_callback (length (range_of obj start n)) tag d"
    have d1: "g_fd d1 = g_fd d" "g_contentLength d1 = length (range_of obj start n)"
      by (auto simp: d1_def s3_response_get_object_properties_callback_def Let_def split: option.splits)
    have rl: "length (range_of obj start n) \<noteq> 0" "unat start + length (range_of obj start n) \<le> length obj"
      using st(1) n by (auto simp: range_of_def)
    have cc: "concat chunks = take (length (concat chunks)) (drop (unat start) obj)"
      using rp(2) unfolding range_of_def by (rule front_of_take)
    have cl: "unat start + length (concat chunks) \<le> length obj"
      using arg_cong [OF rp(2), of length] rl(2) by simp
    obtain stopped d2 w2 where g: "run_get (map GetData chunks) (d1, world s) = Some (stopped, d2, w2)"
      "g_fd d2 = g_fd d1" "g_contentLength d2 = g_contentLength d1" "restored_to obj (g_fd d1) (unat start) w2"
      "stopped = None \<and> restored_to obj (g_fd d1) (unat start + length (concat chunks)) w2 \<or>
       stopped = Some S3StatusAbortedByCallback"
      using run_get_data [of obj d1 "unat start" "world s" chunks] r d1 rl(1) cc cl by auto
    let ?st = "case stopped of None \<Rightarrow> status | Some x \<Rightarrow> x"
    have run: "S3_get_object env key start n (d, s) = Some (s3_get_response_complete_callback ?st d2,
        emit (EvGet key start n ?st) (s\<lparr>world := w2\<rparr>))"
      by (simp add: S3_get_object_def e rp(1) d1_def [symmetric] g(1) Let_def)
    have "?st = S3StatusOK \<longrightarrow> concat chunks = range_of obj start n \<and> stopped = None"
      using g(5) rp(2,3) by auto
    then show ?thesis using run g(2-5) d1 st
      by (auto simp: s3_get_response_complete_callback_def get_keeps_def)
  qed
qed

lemma serves_length: "serves env key obj \<Longrightarrow> length obj < 2 ^ 63"
  by (simp add: serves_def)

lemma CHUNK_unat: "unat CHUNK_SIZE = 2 ^ 24"
  by (simp add: CHUNK_SIZE_def)

text \<open>One round of the range loop\<close>

lemma get_loop_round:
  assumes "serves env key obj" and "restored_to obj (g_fd d) (unat start) (world s)"
  obtains d1 s1 where "g_fd d1 = g_fd d" and "get_keeps s s1" and "restored_to obj (g_fd d) (unat start) (world s1)"
    and "g_status d1 = S3StatusOK \<longrightarrow> g_contentLength d1 = length (range_of obj start CHUNK_SIZE) \<and>
        unat start < length obj \<and> restored_to obj (g_fd d) (unat start + length (range_of obj start CHUNK_SIZE)) (world s1)"
    and "g_status d1 = S3StatusErrorInvalidRange \<longrightarrow> length obj \<le> unat start"
    and "get_loop env key start retry (d, s) =
      (if g_status d1 = S3StatusOK then
         (if unat CHUNK_SIZE \<noteq> g_contentLength d1 then Some (d1\<lparr>totalLength := totalLength d1 + g_contentLength d1\<rparr>, s1)
          else get_loop env key (start + CHUNK_SIZE) retry (d1\<lparr>totalLength := totalLength d1 + g_contentLength d1\<rparr>, s1))
       else if g_status d1 = S3StatusErrorInvalidRange then Some (d1\<lparr>g_status := S3StatusOK\<rparr>, s1)
       else if e_retryable env (g_status d1) \<and> fst (should_retry retry)
         then get_loop env key start (snd (should_retry retry)) (d1, s1) else Some (d1, s1))"
proof -
  define u where "u = s\<lparr>world := sys_lseek (world s) (g_fd d) (unat start)\<rparr>"
  have ur: "get_keeps s u" "restored_to obj (g_fd d) (unat start) (world u)" "positioned (g_fd d) (unat start) (world u)"
    using restored_to_seek [OF assms(2)] by (auto simp: u_def get_keeps_def)
  from S3_get_object_spec [OF assms(1) ur(2,3), of CHUNK_SIZE] obtain d1 s1 where
    g: "S3_get_object env key start CHUNK_SIZE (d, u) = Some (d1, s1)" "g_fd d1 = g_fd d" "get_keeps u s1"
    "restored_to obj (g_fd d) (unat start) (world s1)"
    "g_status d1 = S3StatusOK \<longrightarrow> g_contentLength d1 = length (range_of obj start CHUNK_SIZE) \<and>
        unat start < length obj \<and> restored_to obj (g_fd d) (unat start + length (range_of obj start CHUNK_SIZE)) (world s1)"
    "g_status d1 = S3StatusErrorInvalidRange \<longrightarrow> length obj \<le> unat start" by (auto simp: CHUNK_unat)
  show ?thesis
    by (rule that [OF g(2) get_keeps_trans [OF ur(1) g(3)] g(4-6)])
      (subst get_loop.simps, simp add: u_def [symmetric] g(1) Let_def)
qed

lemma next_range:
  assumes "length obj < 2 ^ 63" and "unat start \<le> length obj" and "length (range_of obj start CHUNK_SIZE) = unat CHUNK_SIZE"
  shows "unat (start + CHUNK_SIZE) = unat start + unat CHUNK_SIZE" "unat start + unat CHUNK_SIZE \<le> length obj"
    "length obj - unat (start + CHUNK_SIZE) < length obj - unat start"
proof -
  show le: "unat start + unat CHUNK_SIZE \<le> length obj" using assms(2,3) by (auto simp: range_of_def CHUNK_unat)
  with assms(1) show a: "unat (start + CHUNK_SIZE) = unat start + unat CHUNK_SIZE" by (intro u64_add) simp
  show "length obj - unat (start + CHUNK_SIZE) < length obj - unat start" using a le by (simp add: CHUNK_unat)
qed

lemma get_loop_spec:
  assumes srv: "serves env key obj" and "unat start \<le> length obj" and "0 \<le> retry"
    and "restored_to obj (g_fd d) (unat start) (world s)"
  shows "\<exists>d' s'. get_loop env key start retry (d, s) = Some (d', s') \<and> get_keeps s s' \<and>
           (g_status d' = S3StatusOK \<longrightarrow> restored_to obj (g_fd d) (length obj) (world s'))"
  using assms(2-4)
proof (induction "length obj - unat start + nat retry" arbitrary: start retry d s rule: less_induct)
  case less
  note bound = serves_length [OF srv]
  from get_loop_round [OF srv less.prems(3), of retry] obtain d1 s1 where
    g: "g_fd d1 = g_fd d" "get_keeps s s1" "restored_to obj (g_fd d) (unat start) (world s1)"
    "g_status d1 = S3StatusOK \<longrightarrow> g_contentLength d1 = length (range_of obj start CHUNK_SIZE) \<and>
        unat start < length obj \<and> restored_to obj (g_fd d) (unat start + length (range_of obj start CHUNK_SIZE)) (world s1)"
    "g_status d1 = S3StatusErrorInvalidRange \<longrightarrow> length obj \<le> unat start"
    and step: "get_loop env key start retry (d, s) =
      (if g_status d1 = S3StatusOK then
         (if unat CHUNK_SIZE \<noteq> g_contentLength d1 then Some (d1\<lparr>totalLength := totalLength d1 + g_contentLength d1\<rparr>, s1)
          else get_loop env key (start + CHUNK_SIZE) retry (d1\<lparr>totalLength := totalLength d1 + g_contentLength d1\<rparr>, s1))
       else if g_status d1 = S3StatusErrorInvalidRange then Some (d1\<lparr>g_status := S3StatusOK\<rparr>, s1)
       else if e_retryable env (g_status d1) \<and> fst (should_retry retry)
         then get_loop env key start (snd (should_retry retry)) (d1, s1) else Some (d1, s1))" .
  consider (last) "g_status d1 = S3StatusOK" "unat CHUNK_SIZE \<noteq> g_contentLength d1"
    | (more) "g_status d1 = S3StatusOK" "unat CHUNK_SIZE = g_contentLength d1"
    | (past) "g_status d1 = S3StatusErrorInvalidRange"
    | (again) "g_status d1 \<noteq> S3StatusOK" "g_status d1 \<noteq> S3StatusErrorInvalidRange" "e_retryable env (g_status d1)" "retry \<noteq> 0"
    | (fail) "g_status d1 \<noteq> S3StatusOK" "g_status d1 \<noteq> S3StatusErrorInvalidRange" "\<not> (e_retryable env (g_status d1) \<and> retry \<noteq> 0)"
    by blast
  then show ?case
  proof cases
    case last
    then show ?thesis using step g(2,4) by (auto simp: range_of_def min_def split: if_splits)
  next
    case more
    then have r: "length (range_of obj start CHUNK_SIZE) = unat CHUNK_SIZE"
      "restored_to obj (g_fd d) (unat start + unat CHUNK_SIZE) (world s1)" using g(4) by auto
    note n = next_range [OF bound less.prems(1) r(1)]
    from less.hyps [OF add_less_mono1 [OF n(3)], of "d1\<lparr>totalLength := totalLength d1 + g_contentLength d1\<rparr>" s1] show ?thesis
      using step more n r(2) g(1) less.prems(2) get_keeps_trans [OF g(2)] by auto
  next
    case past
    then show ?thesis using step g(2,3,5) less.prems(1) by auto
  next
    case again
    then have "length obj - unat start + nat (retry - 1) < length obj - unat start + nat retry" using less.prems(2) by simp
    from less.hyps [OF this, of d1 s1] show ?thesis
      using step again g(1,3) less.prems get_keeps_trans [OF g(2)] by (auto simp: should_retry_def)
  next
    case fail
    then show ?thesis using step g(2) by (auto simp: should_retry_def)
  qed
qed

section \<open>Theorems\<close>

lemma restored_full:
  assumes "restored_to obj fd (length obj) w"
  obtains f where "os_files w fd = Some f" and "f_data f = obj"
  using assms by (auto simp: restored_to_def)

lemma restored_empty: "os_files w fd = Some f \<Longrightarrow> f_data f = [] \<Longrightarrow> restored_to obj fd 0 w"
  by (simp add: restored_to_def)

lemma get_object_spec:
  assumes "serves env key obj" and "restored_to obj (g_fd d) 0 (world s)"
  shows "\<exists>rc d' s'. get_s3_object env key d s = Some (rc, d', s') \<and> rc \<in> {0, - EIO} \<and> get_keeps s s' \<and>
           (rc = 0 \<longrightarrow> restored_to obj (g_fd d) (length obj) (world s'))"
  using get_loop_spec [OF assms(1), of 0 "int RETRYCOUNT" d s] assms(2)
  by (auto simp: get_s3_object_def errno_defs)

text \<open>
  C6. Getting an object. Whatever ranges fail or break off and however often writes come up short,
  \<^verbatim>\<open>get_s3_object\<close> returns; if it returns 0 the file, empty at the start, holds exactly the object,
  and otherwise it returns \<^verbatim>\<open>-EIO\<close>.
\<close>

theorem get_s3_object_correct:
  assumes "serves env key obj" and "os_files (world s) (g_fd d) = Some f" and "f_data f = []"
  shows "\<exists>rc d' s'. get_s3_object env key d s = Some (rc, d', s') \<and> rc \<in> {0, - EIO} \<and>
           (rc = 0 \<longrightarrow> map_option f_data (os_files (world s') (g_fd d)) = Some obj)"
  using get_object_spec [OF assms(1) restored_empty [OF assms(2,3)]] by (fastforce elim: restored_full)

lemma restore_report_frame:
  assumes "restore_report env opt off len t rc s = (rc', s')"
  shows "frame no_end s s'"
proof -
  let ?s = "emit (EvTime (e_time env (hist s))) s" and ?he = "\<lparr>he_offset = off, he_length = len\<rparr>"
  have "frame no_end ?s s'" if "llapi_hsm_action_progress_ex env ?he len ?s = (rc', s')"
    by (rule no_end_frames(1) [OF that])
  moreover have "frame no_end s ?s" by simp
  ultimately show ?thesis using assms frame_trans by (fastforce simp: restore_report_def Let_def split: if_splits)
qed

lemma restore_transfer:
  assumes "serves env name obj" and "restored_to obj (g_fd d) 0 (world s)"
  shows "\<exists>rc0 data s0 rc s'. get_s3_object env name d s = Some (rc0, data, s0) \<and>
           (if rc0 < 0 then (rc0, s0) else restore_report env opt foff (of_nat (g_contentLength data)) t rc0 s0) = (rc, s') \<and>
           (rc = 0 \<longrightarrow> restored_to obj (g_fd d) (length obj) (world s')) \<and> gbh s' = gbh s \<and>
           filter is_end (hist s') = filter is_end (hist s)"
proof -
  obtain rc d' s1 where g: "get_s3_object env name d s = Some (rc, d', s1)" "rc \<in> {0, - EIO}" "get_keeps s s1"
    "rc = 0 \<longrightarrow> restored_to obj (g_fd d) (length obj) (world s1)"
    using get_object_spec [OF assms] by auto
  obtain rc2 s2 where r: "restore_report env opt foff (of_nat (g_contentLength d')) t rc s1 = (rc2, s2)" by (metis surj_pair)
  note k = frameD [OF restore_report_frame [OF r]]
  have "grows no_end s s1" using g(3) by (auto simp: get_keeps_def elim!: grows_mono is_get.elims)
  then have "filter is_end (hist s1) = filter is_end (hist s)" "filter is_end (hist s2) = filter is_end (hist s)"
    using grows_filter [OF k(1)] grows_filter [of is_end s s1] by simp_all
  moreover have "gbh s1 = gbh s" "gbh s2 = gbh s" "world s2 = world s1" using g(3) k(2,4) by (simp_all add: get_keeps_def)
  note kept = calculation this
  show ?thesis
  proof (cases "rc < 0")
    case True
    then show ?thesis using g kept by (intro exI [of _ rc] exI [of _ d'] exI [of _ s1] exI [of _ rc] exI [of _ s1]) simp
  next
    case False
    then have "rc = 0" using g(2) by (auto simp: errno_defs)
    then show ?thesis using g r kept by (intro exI [of _ rc] exI [of _ d'] exI [of _ s1] exI [of _ rc2] exI [of _ s2]) simp
  qed
qed

lemma restore_data_spec:
  assumes hai: "whole_file hai" and path: "mk_full_path (o_mnt opt) file_path = Some full" "ct_target pre full \<noteq> None"
    and srv: "\<forall>name. ct_target pre full = Some (Some name) \<longrightarrow> serves env name obj"
    and f: "os_files (world s) fd = Some f" "f_data f = []" and err: "\<forall>h. 0 < e_errno env h"
  shows "\<exists>rc s'. ct_restore_data env opt pre fd hai file_path s = Some (rc, s') \<and>
           (rc = 0 \<longrightarrow> ct_target pre full = Some None \<or> restored_to obj fd (length obj) (world s')) \<and>
           gbh s' = gbh s \<and> filter is_end (hist s') = filter is_end (hist s)"
proof -
  obtain st w where fs: "sys_fstat (world s) fd = (st, w)" by (cases "sys_fstat (world s) fd") auto
  have w: "os_files w = os_files (world s)"
    using fs by (auto simp: sys_fstat_def Let_def split: prod.splits fault.splits option.splits)
  let ?len = "he_length (hai_extent hai)" and ?off = "he_offset (hai_extent hai)"
  obtain rc1 s1 where p: "llapi_hsm_action_progress_ex env \<lparr>he_offset = ?off, he_length = 0\<rparr> ?len (s\<lparr>world := w\<rparr>) = (rc1, s1)"
    by (metis surj_pair)
  note k1 = frameD [OF progress_frame [OF p]]
  define s2 where "s2 = emit (EvTime (e_time env (hist s1))) s1"
  have "filter is_end (hist s1) = filter is_end (hist s)"
    using grows_filter [OF frameD(1) [OF no_end_frames(1) [OF p]]] by simp
  then have n2: "filter is_end (hist s2) = filter is_end (hist s)" by (simp add: s2_def)
  show ?thesis
  proof (cases "st = None \<or> (\<exists>n. st = Some (False, n)) \<or> ct_target pre full = Some None")
    case True
    then consider "st = None" | n where "st = Some (False, n)" | n where "st = Some (True, n)" "ct_target pre full = Some None"
      by (cases st) auto
    then show ?thesis
    proof cases
      case 1
      then show ?thesis using fs err [rule_format, of "hist s"] by (simp add: ct_restore_data_def)
    next
      case 2
      then show ?thesis using fs by (simp add: ct_restore_data_def errno_defs)
    next
      case 3
      then show ?thesis using fs p path(1) k1(4) n2 by (simp add: ct_restore_data_def Let_def s2_def)
    qed
  next
    case False
    then obtain n name where st: "st = Some (True, n)" and nm: "ct_target pre full = Some (Some name)"
      using path(2) by (cases st) auto
    let ?d = "zero_get_data\<lparr>g_fd := fd, g_file_path := file_path\<rparr>"
    have "restored_to obj (g_fd ?d) 0 (world s2)"
      using f w k1(2) by (intro restored_empty [of _ _ f]) (simp_all add: s2_def)
    from restore_transfer [OF srv [rule_format, OF nm] this, of opt ?off "e_time env (hist s1)"] obtain rc0 data s3 rc s' where
      r: "get_s3_object env name ?d s2 = Some (rc0, data, s3)"
      "(if rc0 < 0 then (rc0, s3) else restore_report env opt ?off (of_nat (g_contentLength data)) (e_time env (hist s1)) rc0 s3) = (rc, s')"
      "rc = 0 \<longrightarrow> restored_to obj fd (length obj) (world s')" "gbh s' = gbh s2" "filter is_end (hist s') = filter is_end (hist s2)"
      by auto
    have "ct_restore_data env opt pre fd hai file_path s = Some (rc, s')"
      using fs st p path(1) nm hai r(1,2) by (auto simp: ct_restore_data_def Let_def s2_def [symmetric] whole_file_def split: if_splits)
    then show ?thesis using r(3-5) n2 k1(4) by (simp add: s2_def)
  qed
qed

lemma end_ct_restore_spec:
  assumes "end_ct_restore env hai hcp fl fd rc s = (rc', s')"
  shows "\<exists>ends. filter is_end (hist s') = map (EvEnd (hai_extent hai) fl \<bar>rc\<bar>) ends @ filter is_end (hist s) \<and>
           (rc' = 0 \<longrightarrow> rc = 0 \<and> ends \<noteq> [] \<and> hd ends = 0) \<and> gbh s' = gbh s \<and>
           (\<not> fd < 0 \<longrightarrow> world s' = sys_close (world s) fd)"
proof -
  define u where "u = (if \<not> fd < 0 then emit (EvClose fd) (s\<lparr>world := sys_close (world s) fd\<rparr>) else s)"
  obtain rd where d: "ct_action_done env hcp hai fl rc u = (rd, s')" "rc' = rc OR rd"
    using assms unfolding end_ct_restore_def Let_def u_def by (auto split: prod.splits)
  obtain ends where n: "filter is_end (hist s') = map (EvEnd (hai_extent hai) fl \<bar>rc\<bar>) ends @ filter is_end (hist u)"
    "rc OR rd = 0 \<longrightarrow> rc = 0 \<and> ends \<noteq> [] \<and> hd ends = 0" "frame no_upload u s'"
    using action_done_or [OF d(1)] by (elim exE conjE) (rule that)
  have "gbh s' = gbh s" "\<not> fd < 0 \<longrightarrow> world s' = sys_close (world s) fd" "filter is_end (hist u) = filter is_end (hist s)"
    using frameD [OF n(3)] by (auto simp: u_def)
  then show ?thesis using n(1,2) d(2) by auto
qed

text \<open>
  Every way through \<^verbatim>\<open>ct_restore\<close> but the first ends in its last block; the flag is set exactly
  for a timeout of the data transfer, and a result of 0 means the data is there.
\<close>

text \<open>What \<^verbatim>\<open>ct_restore\<close> does with the results \<open>rc\<close>, \<open>rd\<close> and \<open>fd\<close> of the calls before the data\<close>

definition restore_outcome where
  "restore_outcome env opt pre hai file_path hcp rc s1 rd s2 (fd :: int) s3 =
       (if rc < 0 then Some (end_ct_restore env hai hcp 0 (-1) rc s1)
        else if rd < 0 then Some (end_ct_restore env hai hcp 0 (-1) rd s2)
        else if o_dry_run opt \<noteq> 0 then Some (end_ct_restore env hai hcp 0 (-1) 0 s2)
        else if fd < 0 then Some (end_ct_restore env hai hcp 0 fd fd s3)
        else case ct_restore_data env opt pre fd hai file_path s3 of
            None \<Rightarrow> None
          | Some (rc, s) \<Rightarrow>
             if rc < 0 then Some (end_ct_restore env hai hcp (if ct_is_retryable rc then 0 OR HP_FLAG_RETRY env else 0)
                                    fd rc (s\<lparr>err_major := err_major s + 1\<rparr>))
             else Some (end_ct_restore env hai hcp 0 fd rc s))"

text \<open>The calls of \<^verbatim>\<open>ct_restore\<close> before the data: nothing of the world or the completions changes.\<close>

lemma restore_prepared:
  assumes mdt: "0 \<le> fst (e_mdt_index env (hist s))"
  obtains rc hcp s1 rd s2 fd s3 where
    "ct_restore env opt pre hai file_path s = restore_outcome env opt pre hai file_path hcp rc s1 rd s2 fd s3"
    "fd = e_get_fd env (hist s2)" "world s3 = world s" "gbh s3 = gbh s" "gbh s2 = gbh s" "gbh s1 = gbh s"
    "filter is_end (hist s1) = filter is_end (hist s)" "filter is_end (hist s2) = filter is_end (hist s)"
    "filter is_end (hist s3) = filter is_end (hist s)"
proof -
  obtain rm mdt_index where m: "e_mdt_index env (hist s) = (rm, mdt_index)" by (metis surj_pair)
  define s0 where "s0 = emit (EvCall ''llapi_get_mdt_index_by_fid'' rm) s"
  obtain rc hcp s1 where 1: "ct_begin_restore env False hai mdt_index 0 s0 = ((rc, hcp), s1)" by (metis surj_pair)
  note f1 = frameD [OF begin_frame [OF 1 [unfolded ct_begin_restore_def]]]
  obtain rd dfid where dd: "e_get_dfid env (hist s1) = (rd, dfid)" by (metis surj_pair)
  define s2 where "s2 = emit (EvCall ''llapi_hsm_action_get_dfid'' rd) s1"
  define fd where "fd = e_get_fd env (hist s2)"
  define s3 where "s3 = emit (EvCall ''llapi_hsm_action_get_fd'' fd) s2"
  have "filter is_end (hist s1) = filter is_end (hist s)"
    using grows_filter [OF frameD(1) [OF no_end_frames(2) [OF 1 [unfolded ct_begin_restore_def]]]] by (simp add: s0_def)
  then have k: "world s3 = world s" "gbh s3 = gbh s" "gbh s2 = gbh s" "gbh s1 = gbh s"
    "filter is_end (hist s1) = filter is_end (hist s)" "filter is_end (hist s2) = filter is_end (hist s)"
    "filter is_end (hist s3) = filter is_end (hist s)"
    using f1 by (simp_all add: s3_def s2_def s0_def)
  note run = ct_restore_def [of env opt pre hai file_path s, unfolded m Let_def split_conv s0_def [symmetric] 1 dd
      s2_def [symmetric] fd_def [symmetric] s3_def [symmetric]]
  have "\<not> rm < 0" using mdt m by simp
  then have "ct_restore env opt pre hai file_path s = restore_outcome env opt pre hai file_path hcp rc s1 rd s2 fd s3"
    using run by (simp add: restore_outcome_def)
  from that [OF this fd_def k] show thesis .
qed

lemma restore_outcome_early:
  assumes "rc < 0 \<or> rd < 0 \<or> o_dry_run opt \<noteq> 0 \<or> fd < 0"
  shows "\<exists>fl fd' rc_data u. restore_outcome env opt pre hai file_path hcp rc s1 rd s2 fd s3 =
             Some (end_ct_restore env hai hcp fl fd' rc_data u) \<and> u \<in> {s1, s2, s3} \<and> (rc_data = 0 \<longrightarrow> o_dry_run opt \<noteq> 0)"
proof -
  consider "rc < 0" | "\<not> rc < 0" "rd < 0" | "\<not> rc < 0" "\<not> rd < 0" "o_dry_run opt \<noteq> 0"
    | "\<not> rc < 0" "\<not> rd < 0" "o_dry_run opt = 0" "fd < 0" using assms by blast
  then show ?thesis
  proof cases
    case 1
    then show ?thesis by (intro exI [of _ 0] exI [of _ "-1"] exI [of _ rc] exI [of _ s1]) (simp add: restore_outcome_def)
  next
    case 2
    then show ?thesis by (intro exI [of _ 0] exI [of _ "-1"] exI [of _ rd] exI [of _ s2]) (simp add: restore_outcome_def)
  next
    case 3
    then show ?thesis by (intro exI [of _ 0] exI [of _ "-1"] exI [of _ 0] exI [of _ s2]) (simp add: restore_outcome_def)
  next
    case 4
    then show ?thesis by (intro exI [of _ 0] exI [of _ fd] exI [of _ fd] exI [of _ s3]) (simp add: restore_outcome_def)
  qed
qed

lemma restore_reaches_end:
  assumes hai: "whole_file hai" and path: "mk_full_path (o_mnt opt) file_path = Some full" "ct_target pre full \<noteq> None"
    and srv: "\<forall>name. ct_target pre full = Some (Some name) \<longrightarrow> serves env name obj"
    and o: "opens env [] s" and err: "\<forall>h. 0 < e_errno env h" and mdt: "0 \<le> fst (e_mdt_index env (hist s))"
  shows "\<exists>hcp fl fd rc_data s1. ct_restore env opt pre hai file_path s = Some (end_ct_restore env hai hcp fl fd rc_data s1) \<and>
           gbh s1 = gbh s \<and> filter is_end (hist s1) = filter is_end (hist s) \<and>
           (rc_data = 0 \<longrightarrow> o_dry_run opt \<noteq> 0 \<or> ct_target pre full = Some None \<or>
              \<not> fd < 0 \<and> restored_to obj fd (length obj) (world s1))"
proof -
  obtain rc hcp s1 rd s2 fd s3 where
    run: "ct_restore env opt pre hai file_path s = restore_outcome env opt pre hai file_path hcp rc s1 rd s2 fd s3"
    and fd: "fd = e_get_fd env (hist s2)"
    and k: "world s3 = world s" "gbh s3 = gbh s" "gbh s2 = gbh s" "gbh s1 = gbh s"
    "filter is_end (hist s1) = filter is_end (hist s)" "filter is_end (hist s2) = filter is_end (hist s)"
    "filter is_end (hist s3) = filter is_end (hist s)"
    using mdt by (rule restore_prepared)
  show ?thesis
  proof (cases "rc < 0 \<or> rd < 0 \<or> o_dry_run opt \<noteq> 0 \<or> fd < 0")
    case True
    then obtain fl fd' rc_data u where "ct_restore env opt pre hai file_path s = Some (end_ct_restore env hai hcp fl fd' rc_data u)"
      "u \<in> {s1, s2, s3}" "rc_data = 0 \<longrightarrow> o_dry_run opt \<noteq> 0"
      using restore_outcome_early [of rc rd opt fd env pre hai file_path hcp s1 s2 s3] unfolding run by blast
    then show ?thesis using k
      by (intro exI [of _ hcp] exI [of _ fl] exI [of _ fd'] exI [of _ rc_data] exI [of _ u]) auto
  next
    case False
    then obtain reg where f: "os_files (world s3) fd = Some \<lparr>f_data = [], f_pos = 0, f_reg = reg\<rparr>"
      using o k(1) fd by (auto simp: opens_def not_less)
    obtain rcd s4 where r: "ct_restore_data env opt pre fd hai file_path s3 = Some (rcd, s4)"
      "rcd = 0 \<longrightarrow> ct_target pre full = Some None \<or> restored_to obj fd (length obj) (world s4)" "gbh s4 = gbh s3"
      "filter is_end (hist s4) = filter is_end (hist s3)"
      using restore_data_spec [OF hai path srv f _ err] by auto
    show ?thesis
    proof (cases "rcd < 0")
      case True
      then show ?thesis using False r k(2,7) unfolding run restore_outcome_def
        by (intro exI [of _ hcp] exI [of _ "if ct_is_retryable rcd then 0 OR HP_FLAG_RETRY env else 0"] exI [of _ fd]
            exI [of _ rcd] exI [of _ "s4\<lparr>err_major := err_major s4 + 1\<rparr>"]) simp
    next
      case ge: False
      then show ?thesis using False r k(2,7) unfolding run restore_outcome_def
        by (intro exI [of _ hcp] exI [of _ 0] exI [of _ fd] exI [of _ rcd] exI [of _ s4]) simp
    qed
  qed
qed

lemma restore_spec:
  assumes "whole_file hai" and "mk_full_path (o_mnt opt) file_path = Some full" and "ct_target pre full \<noteq> None"
    and "\<forall>name. ct_target pre full = Some (Some name) \<longrightarrow> serves env name obj"
    and "opens env [] s" and "\<forall>h. 0 < e_errno env h" and "0 \<le> fst (e_mdt_index env (hist s))"
  shows "\<exists>rc s' rc_data fl ends. ct_restore env opt pre hai file_path s = Some (rc, s') \<and>
           filter is_end (hist s') = map (EvEnd (hai_extent hai) fl \<bar>rc_data\<bar>) ends @ filter is_end (hist s) \<and>
           (rc = 0 \<longrightarrow> rc_data = 0 \<and> ends \<noteq> [] \<and> hd ends = 0) \<and>
           (rc_data = 0 \<longrightarrow> o_dry_run opt \<noteq> 0 \<or> ct_target pre full = Some None \<or>
              (\<exists>fd closed. os_closed (world s') = (fd, obj) # closed))"
proof -
  obtain hcp fl fd rc_data s1 where 1:
    "ct_restore env opt pre hai file_path s = Some (end_ct_restore env hai hcp fl fd rc_data s1)"
    "filter is_end (hist s1) = filter is_end (hist s)"
    "rc_data = 0 \<longrightarrow> o_dry_run opt \<noteq> 0 \<or> ct_target pre full = Some None \<or>
       \<not> fd < 0 \<and> restored_to obj fd (length obj) (world s1)"
    using restore_reaches_end [OF assms] by (elim exE conjE) (rule that)
  obtain rc s' where e: "end_ct_restore env hai hcp fl fd rc_data s1 = (rc, s')" by (metis surj_pair)
  obtain ends where 2: "filter is_end (hist s') = map (EvEnd (hai_extent hai) fl \<bar>rc_data\<bar>) ends @ filter is_end (hist s1)"
    "rc = 0 \<longrightarrow> rc_data = 0 \<and> ends \<noteq> [] \<and> hd ends = 0" "\<not> fd < 0 \<longrightarrow> world s' = sys_close (world s1) fd"
    using end_ct_restore_spec [OF e] by (elim exE conjE) (rule that)
  have "\<exists>fd closed. os_closed (world s') = (fd, obj) # closed" if "\<not> fd < 0" "restored_to obj fd (length obj) (world s1)"
    using 2(3) that by (auto simp: sys_close_def elim!: restored_full)
  then have "rc_data = 0 \<longrightarrow> o_dry_run opt \<noteq> 0 \<or> ct_target pre full = Some None \<or>
       (\<exists>fd closed. os_closed (world s') = (fd, obj) # closed)" using 1(3) by blast
  then show ?thesis using 1(1,2) 2(1,2) e
    by (intro exI [of _ rc] exI [of _ s'] exI [of _ rc_data] exI [of _ fl] exI [of _ ends] conjI) simp_all
qed

text \<open>
  C2. The restore action. For every behaviour of the store, the coordinator and the file system
  \<^verbatim>\<open>ct_restore\<close> returns. The completion messages it has sent all carry the same
  error value. They report no error only if the file that was closed holds exactly the
  archived object, or the action is a dry run, or the path is not under the prefix; and the
  function returns 0 only if the coordinator accepted a completion without error.
\<close>

theorem ct_restore_correct:
  assumes "whole_file hai" and "mk_full_path (o_mnt opt) file_path = Some full" and "ct_target pre full \<noteq> None"
    and "\<forall>name. ct_target pre full = Some (Some name) \<longrightarrow> serves env name obj"
    and "opens env [] s" and "\<forall>h. 0 < e_errno env h" and "0 \<le> fst (e_mdt_index env (hist s))"
  shows "\<exists>rc s' rc_data fl ends. ct_restore env opt pre hai file_path s = Some (rc, s') \<and>
           filter is_end (hist s') = map (EvEnd (hai_extent hai) fl \<bar>rc_data\<bar>) ends @ filter is_end (hist s) \<and>
           (rc = 0 \<longrightarrow> rc_data = 0 \<and> ends \<noteq> [] \<and> hd ends = 0) \<and>
           (rc_data = 0 \<longrightarrow> o_dry_run opt \<noteq> 0 \<or> ct_target pre full = Some None \<or>
              (\<exists>fd closed. os_closed (world s') = (fd, obj) # closed))"
  by (rule restore_spec [OF assms])

fun is_delete :: "event \<Rightarrow> bool" where
  "is_delete (EvDelete key status) = True"
| "is_delete _ = False"

lemma delete_loop_spec:
  "\<exists>status s'. do_retry (delete_once env key) k (junk, s) = Some (status, s') \<and>
     (\<exists>before. filter is_delete (hist s') = EvDelete key status # before) \<and>
     filter is_end (hist s') = filter is_end (hist s)"
proof -
  let ?Q = "\<lambda>(again :: bool) st. (\<exists>before. filter is_delete (hist (snd st)) = EvDelete key (fst st) # before) \<and>
      filter is_end (hist (snd st)) = filter is_end (hist s)"
  have "\<exists>again st'. do_retry (delete_once env key) k (junk, s) = Some st' \<and> ?Q again st'"
    by (rule do_retry_total [where I = "\<lambda>st. filter is_end (hist (snd st)) = filter is_end (hist s)" and Q = ?Q])
      (auto simp: delete_once_def Let_def s3_del_response_complete_callback_def)
  then show ?thesis by auto
qed

lemma remove_end_spec:
  assumes "ct_action_done env hcp hai 0 rc s = (rd, s')"
  shows "\<exists>ends. filter is_end (hist s') = map (EvEnd (hai_extent hai) 0 \<bar>rc\<bar>) ends @ filter is_end (hist s) \<and>
           (rc OR rd = 0 \<longrightarrow> rc = 0 \<and> ends \<noteq> [] \<and> hd ends = 0) \<and>
           filter is_delete (hist s') = filter is_delete (hist s)"
proof -
  have "frame (\<lambda>e. \<not> is_delete e) s s'"
    using action_done_frame [OF assms] by (rule frame_mono) (auto elim: is_notice.elims)
  then have "filter is_delete (hist s') = filter is_delete (hist s)" by (rule grows_filter [OF frameD(1)])
  then show ?thesis using action_done_or [OF assms] by blast
qed

text \<open>
  C18. The remove action. \<^verbatim>\<open>ct_remove\<close> returns; its completion messages report no error only if it was
  a dry run or the last delete request the store got from it succeeded, and it returns 0
  only if the coordinator accepted such a completion.
\<close>

theorem ct_remove_correct:
  "\<exists>rc s' rc_data ends. ct_remove env opt junk hai key s = Some (rc, s') \<and>
     filter is_end (hist s') = map (EvEnd (hai_extent hai) 0 \<bar>rc_data\<bar>) ends @ filter is_end (hist s) \<and>
     (rc = 0 \<longrightarrow> rc_data = 0 \<and> ends \<noteq> [] \<and> hd ends = 0) \<and>
     (rc_data = 0 \<longrightarrow> o_dry_run opt \<noteq> 0 \<or> (\<exists>before. filter is_delete (hist s') = EvDelete key S3StatusOK # before))"
proof -
  obtain rc hcp s1 where b: "ct_begin env False hai s = ((rc, hcp), s1)" by (metis surj_pair)
  obtain status s2 before where d: "do_retry (delete_once env key) RETRYCOUNT (junk, s1) = Some (status, s2)"
    "filter is_delete (hist s2) = EvDelete key status # before" "filter is_end (hist s2) = filter is_end (hist s1)"
    using delete_loop_spec [of env key RETRYCOUNT junk s1] by blast
  have "filter is_end (hist s1) = filter is_end (hist s)"
    using grows_filter [OF frameD(1) [OF no_end_frames(2) [OF b [unfolded ct_begin_def ct_begin_restore_def]]]] .
  then have n: "filter is_end (hist s1) = filter is_end (hist s)" "filter is_end (hist s2) = filter is_end (hist s)"
    using d(3) by simp_all
  define rcd where "rcd = (if rc < 0 then rc else if o_dry_run opt \<noteq> 0 then 0 else if status \<noteq> S3StatusOK then - EIO else rc)"
  define u where "u = (if rc < 0 \<or> o_dry_run opt \<noteq> 0 then s1 else s2)"
  obtain rd s' where a: "ct_action_done env hcp hai 0 rcd u = (rd, s')" by (metis surj_pair)
  have run: "ct_remove env opt junk hai key s = Some (rcd OR rd, s')"
    using b d(1) a by (simp add: ct_remove_def Let_def rcd_def u_def split: if_splits)
  have ok: "rcd = 0 \<longrightarrow> o_dry_run opt \<noteq> 0 \<or> (u = s2 \<and> status = S3StatusOK)"
    by (auto simp: rcd_def u_def errno_defs)
  obtain ends where e: "filter is_end (hist s') = map (EvEnd (hai_extent hai) 0 \<bar>rcd\<bar>) ends @ filter is_end (hist u)"
    "rcd OR rd = 0 \<longrightarrow> rcd = 0 \<and> ends \<noteq> [] \<and> hd ends = 0"
    "filter is_delete (hist s') = filter is_delete (hist u)"
    using remove_end_spec [OF a] by (elim exE conjE) (rule that)
  have "rcd = 0 \<longrightarrow> o_dry_run opt \<noteq> 0 \<or> (\<exists>before. filter is_delete (hist s') = EvDelete key S3StatusOK # before)"
    using ok e(3) d(2) by auto
  moreover have "filter is_end (hist u) = filter is_end (hist s)" using n by (simp add: u_def)
  ultimately show ?thesis using run e(1,2)
    by (intro exI [of _ "rcd OR rd"] exI [of _ s'] exI [of _ rcd] exI [of _ ends] conjI) simp_all
qed

section \<open>Witnesses\<close>

lemma demo_serves: "serves demo_env key [7, 8]"
proof -
  have "\<exists>tag chunks rest. [GetProperties (length r) None, GetData r] = GetProperties (length r) tag # map GetData chunks \<and>
      concat chunks @ rest = r \<and> (S3StatusOK = S3StatusOK \<longrightarrow> rest = [])" for r
    by (intro exI [of _ None] exI [of _ "[r]"] exI [of _ "[]"]) simp
  then show ?thesis by (auto simp: serves_def demo_env_def range_of_def Let_def)
qed

theorem get_s3_object_correct_witness:
  "\<exists>rc d' s'. get_s3_object demo_env ''k'' (zero_get_data\<lparr>g_fd := 3\<rparr>) (demo_ct []) = Some (rc, d', s') \<and>
     (rc = 0 \<longrightarrow> map_option f_data (os_files (world s') 3) = Some [7, 8])"
  using get_s3_object_correct [OF demo_serves, of "demo_ct []" "zero_get_data\<lparr>g_fd := 3\<rparr>"]
  by (fastforce simp: demo_ct_def)

theorem ct_restore_correct_witness:
  "\<exists>rc s' rc_data fl ends. ct_restore demo_env demo_opt ''/mnt'' (demo_hai HSMA_RESTORE) ''a/b'' (demo_ct []) = Some (rc, s') \<and>
     filter is_end (hist s') = map (EvEnd (hai_extent (demo_hai HSMA_RESTORE)) fl \<bar>rc_data\<bar>) ends @ filter is_end (hist (demo_ct [])) \<and>
     (rc_data = 0 \<longrightarrow> (\<exists>fd closed. os_closed (world s') = (fd, [7, 8]) # closed))"
proof -
  have p: "mk_full_path (o_mnt demo_opt) ''a/b'' = Some ''/mnt/a/b''" by (simp add: mk_full_path_def demo_opt_def PATH_MAX_def)
  have t: "ct_target ''/mnt'' ''/mnt/a/b'' \<noteq> None" "ct_target ''/mnt'' ''/mnt/a/b'' \<noteq> Some None" by (simp_all add: ct_target_def)
  have v: "\<forall>name. ct_target ''/mnt'' ''/mnt/a/b'' = Some (Some name) \<longrightarrow> serves demo_env name [7, 8]" by (simp add: demo_serves)
  have e: "\<forall>h. 0 < e_errno demo_env h" "0 \<le> fst (e_mdt_index demo_env (hist (demo_ct [])))" by (simp_all add: demo_env_def)
  show ?thesis
    using ct_restore_correct [OF demo_honest_all(4) [of HSMA_RESTORE] p t(1) v demo_honest_all(3) e] t(2)
    by (elim exE conjE) (intro exI conjI, assumption, assumption, auto simp: demo_opt_def)
qed

theorem ct_remove_correct_witness:
  "\<exists>rc s'. ct_remove demo_env demo_opt S3StatusOK (demo_hai HSMA_REMOVE) ''k'' (demo_ct []) = Some (rc, s')"
  using ct_remove_correct [of demo_env demo_opt S3StatusOK "demo_hai HSMA_REMOVE" "''k''" "demo_ct []"] by blast

end
