(* ===== verification/Roundtrip.thy ===== *)
theory Roundtrip
  imports Restore
begin

text \<open>
  Archive and restore together: a file that was archived, with both actions returning 0, comes back byte for byte. The store
  between the two actions appears only through what it holds after the history of the first (\<open>holds\<close>) and serves in the second (\<open>serves\<close>).
\<close>

lemma archive_stored:
  assumes "honest env" and "opens env bytes s" and "whole_file hai" and "length bytes < 2 ^ 63"
    and "mk_full_path (o_mnt opt) file_path = Some full" and "ct_target pre full = Some (Some name)" and "gbh s = Map.empty"
    and "o_dry_run opt = 0" and "ct_archive env opt pre hai file_path s = Some (0, s')"
  shows "stored (never_fails (e_gballoc env)) bytes name (hist s) (hist s')"
proof -
  have t: "ct_target pre full \<noteq> None" using assms(6) by simp
  show ?thesis using archive_spec [OF assms(1-5) t assms(7)] assms(6,8,9) by auto
qed

text \<open>
  C3. Round trip. A file is archived and \<^verbatim>\<open>ct_archive\<close> returns 0; if it is big, the memory for the commit document was there and the only commit request was accepted. Later its
  path is restored, from a store that serves what it holds, by an invocation with its own behaviour of coordinator and system, and
  \<^verbatim>\<open>ct_restore\<close> returns 0. Then the file that was closed holds exactly the bytes that were archived.
\<close>

theorem archive_restore_roundtrip:
  assumes "honest env" and "opens env bytes s" and "whole_file hai" and "length bytes < 2 ^ 63"
    and path: "mk_full_path (o_mnt opt) file_path = Some full" and nm: "ct_target pre full = Some (Some name)" and "gbh s = Map.empty"
    and live: "o_dry_run opt = 0" and "ct_archive env opt pre hai file_path s = Some (0, s')"
    and "small_file bytes \<or> never_fails (e_gballoc env) \<and> (\<exists>uid n doc. filter (commits name) (hist s') = EvCommit name uid n doc S3StatusOK # filter (commits name) (hist s))"
    and "whole_file hai2" and served: "\<forall>obj. holds (hist s') name obj \<longrightarrow> serves env2 name obj"
    and "opens env2 [] u" and "\<forall>h. 0 < e_errno env2 h" and "0 \<le> fst (e_mdt_index env2 (hist u))"
    and restored: "ct_restore env2 opt pre hai2 file_path u = Some (0, u')"
  shows "\<exists>fd closed. os_closed (world u') = (fd, bytes) # closed"
proof -
  have t: "ct_target pre full \<noteq> None" using nm by simp
  have "serves env2 name bytes"
    using served stored_holds [OF archive_stored [OF assms(1-9)] assms(10)] by blast
  then have "\<forall>n. ct_target pre full = Some (Some n) \<longrightarrow> serves env2 n bytes" using nm by simp
  then show ?thesis
    using restore_spec [OF assms(11) path t _ assms(13-15)] restored nm live by auto
qed

section \<open>Witness\<close>

lemma demo_archived:
  "\<exists>s'. ct_archive demo_env demo_opt ''/mnt'' (demo_hai HSMA_ARCHIVE) ''a/b'' (demo_ct [7, 8]) = Some (0, s')"
proof -
  have "map_option fst (ct_archive demo_env demo_opt ''/mnt'' (demo_hai HSMA_ARCHIVE) ''a/b'' (demo_ct [7, 8])) = Some 0"
    by code_simp
  then show ?thesis by auto
qed

lemma demo_get:
  assumes "world s = world (demo_ct [])" and "d = zero_get_data\<lparr>g_fd := 3, g_file_path := ''a/b''\<rparr>"
  shows "\<exists>d' s'. get_s3_object demo_env ''a/b'' d s = Some (0, d', s')"
proof -
  have seek: "sys_lseek (world (demo_ct [])) 3 0 = world (demo_ct [])" by (simp add: sys_lseek_def demo_ct_def)
  have reply: "e_get demo_env h ''a/b'' 0 CHUNK_SIZE = ([GetProperties 2 None, GetData [7, 8]], S3StatusOK)" for h
    by (simp add: demo_env_def CHUNK_unat)
  have "map_option (\<lambda>(stopped, d', w). (stopped, g_contentLength d')) (run_get [GetProperties 2 None, GetData [7, 8]] (d, world (demo_ct []))) =
      Some (None, 2)" unfolding assms(2) by code_simp
  then obtain d1 w where "run_get [GetProperties 2 None, GetData [7, 8]] (d, world (demo_ct [])) = Some (None, d1, w)" "g_contentLength d1 = 2"
    by auto
  then have "S3_get_object demo_env ''a/b'' 0 CHUNK_SIZE (d, s\<lparr>world := world (demo_ct [])\<rparr>) =
      Some (s3_get_response_complete_callback S3StatusOK d1, emit (EvGet ''a/b'' 0 CHUNK_SIZE S3StatusOK) (s\<lparr>world := w\<rparr>))"
    using reply by (simp add: S3_get_object_def del: run_get.simps)
  then show ?thesis using \<open>g_contentLength d1 = 2\<close> seek assms
    by (simp add: get_s3_object_def get_loop.simps [of demo_env "''a/b''" 0] s3_get_response_complete_callback_def CHUNK_unat)
qed

lemma demo_data:
  assumes "world s = world (demo_ct [])"
  shows "\<exists>s'. ct_restore_data demo_env demo_opt ''/mnt'' 3 (demo_hai HSMA_RESTORE) ''a/b'' s = Some (0, s')"
proof -
  have p: "mk_full_path (o_mnt demo_opt) ''a/b'' = Some ''/mnt/a/b''" by (simp add: mk_full_path_def demo_opt_def PATH_MAX_def)
  have t: "ct_target ''/mnt'' ''/mnt/a/b'' = Some (Some ''a/b'')" by (simp add: ct_target_def)
  have w: "sys_fstat (world (demo_ct [])) 3 = (Some (True, 0), world (demo_ct []))"
    by (simp add: sys_fstat_def demo_ct_def next_fault_def)
  have r: "llapi_hsm_action_progress_ex demo_env he n u = (0, emit (EvProgress he n 0) u)" for he n u
    by (simp add: llapi_hsm_action_progress_ex_def resend_nonneg max_retry_def call_once_def demo_env_def)
  have q: "fst (restore_report demo_env demo_opt off n m 0 u) = 0" for off n m u
    by (simp add: restore_report_def Let_def r)
  let ?s = "emit (EvTime (e_time demo_env (EvProgress \<lparr>he_offset = 0, he_length = 0\<rparr> (- 1) 0 # hist s)))
      (emit (EvProgress \<lparr>he_offset = 0, he_length = 0\<rparr> (- 1) 0) (s\<lparr>world := world (demo_ct [])\<rparr>))"
  obtain d' s' where "get_s3_object demo_env ''a/b'' (zero_get_data\<lparr>g_fd := 3, g_file_path := ''a/b''\<rparr>) ?s = Some (0, d', s')"
    using demo_get [of ?s] by auto
  then show ?thesis
    by (simp add: ct_restore_data_def Let_def p t w r assms demo_hai_def prod_eq_iff q)
qed

lemma demo_restored:
  "\<exists>s'. ct_restore demo_env demo_opt ''/mnt'' (demo_hai HSMA_RESTORE) ''a/b'' (demo_ct []) = Some (0, s')"
proof -
  have b: "ct_begin_restore demo_env hcp hai mdt fl u = ((0, True), emit (EvBegin (hai_fid hai) mdt fl False 0) u)" for hcp hai mdt fl u
    by (simp add: ct_begin_restore_def llapi_hsm_action_begin_ex_def resend_nonneg max_retry_def call_once_def demo_env_def)
  have e: "fst (end_ct_restore demo_env hai True 0 3 0 u) = 0" for hai u
    by (simp add: end_ct_restore_def ct_action_done_def action_end_ex_def resend_nonneg max_retry_def call_once_def demo_env_def Let_def)
  have m: "e_mdt_index demo_env h = (0, 0)" "fst (e_get_dfid demo_env h) = 0" "e_get_fd demo_env h = 3" for h by (simp_all add: demo_env_def)
  let ?u = "emit (EvCall ''llapi_hsm_action_get_fd'' 3) (emit (EvCall ''llapi_hsm_action_get_dfid'' 0)
      (emit (EvBegin (hai_fid (demo_hai HSMA_RESTORE)) 0 0 False 0) (emit (EvCall ''llapi_get_mdt_index_by_fid'' 0) (demo_ct []))))"
  obtain s' where "ct_restore_data demo_env demo_opt ''/mnt'' 3 (demo_hai HSMA_RESTORE) ''a/b'' ?u = Some (0, s')"
    using demo_data [of ?u] by auto
  then show ?thesis
    by (simp add: ct_restore_def Let_def b m e split_beta prod_eq_iff) (simp add: demo_opt_def)
qed

lemma demo_holds:
  assumes "ct_archive demo_env demo_opt ''/mnt'' (demo_hai HSMA_ARCHIVE) ''a/b'' (demo_ct [7, 8]) = Some (0, s')"
  shows "holds (hist s') ''a/b'' obj \<longleftrightarrow> obj = [7, 8]"
proof -
  have p: "mk_full_path (o_mnt demo_opt) ''a/b'' = Some ''/mnt/a/b''" by (simp add: mk_full_path_def demo_opt_def PATH_MAX_def)
  have t: "ct_target ''/mnt'' ''/mnt/a/b'' = Some (Some ''a/b'')" by (simp add: ct_target_def)
  have "stored (never_fails (e_gballoc demo_env)) [7, 8] ''a/b'' (hist (demo_ct [7, 8])) (hist s')"
    by (rule archive_stored [OF demo_honest_all(1,3) demo_honest_all(4) _ p t demo_good(6) _ assms]) (simp_all add: demo_opt_def)
  then obtain es where "hist s' = es @ hist (demo_ct [7, 8])" "filter (changes ''a/b'') es = [EvPut ''a/b'' 2 [7, 8] S3StatusOK]"
    by (auto simp: stored_def put_between_def)
  then show ?thesis by (simp add: holds_put)
qed

theorem archive_restore_roundtrip_witness:
  "\<exists>u'. ct_restore demo_env demo_opt ''/mnt'' (demo_hai HSMA_RESTORE) ''a/b'' (demo_ct []) = Some (0, u') \<and>
     (\<exists>fd closed. os_closed (world u') = (fd, [7, 8]) # closed)"
proof -
  obtain s' where a: "ct_archive demo_env demo_opt ''/mnt'' (demo_hai HSMA_ARCHIVE) ''a/b'' (demo_ct [7, 8]) = Some (0, s')"
    using demo_archived by blast
  obtain u' where r: "ct_restore demo_env demo_opt ''/mnt'' (demo_hai HSMA_RESTORE) ''a/b'' (demo_ct []) = Some (0, u')"
    using demo_restored by blast
  have "\<exists>fd closed. os_closed (world u') = (fd, [7, 8]) # closed"
  proof (rule archive_restore_roundtrip [OF demo_honest_all(1,3) demo_honest_all(4) [of HSMA_ARCHIVE] _ _ _ demo_good(6) _ a _
        demo_honest_all(4) [of HSMA_RESTORE] _ demo_honest_all(3) _ _ r])
    show "mk_full_path (o_mnt demo_opt) ''a/b'' = Some ''/mnt/a/b''" by (simp add: mk_full_path_def demo_opt_def PATH_MAX_def)
    show "ct_target ''/mnt'' ''/mnt/a/b'' = Some (Some ''a/b'')" by (simp add: ct_target_def)
    show "\<forall>obj. holds (hist s') ''a/b'' obj \<longrightarrow> serves demo_env ''a/b'' obj" by (simp add: demo_holds [OF a] demo_serves)
  qed (simp_all add: demo_opt_def demo_env_def)
  with r show ?thesis by blast
qed

end
