(* ===== verification/Dispatch.thy ===== *)
theory Dispatch
  imports Restore
begin

text \<open>
  The dispatch of one action item in \<^verbatim>\<open>ct_common.c\<close>: \<^verbatim>\<open>ct_process_item\<close>, which looks up the path of
  the file and calls the action, and the allocation and thread creation in
  \<^verbatim>\<open>ct_process_item_async\<close>. Two theorems are about what goes wrong before an action
  starts: the path buffer that is never filled, and the lookup failure nobody is told about.
\<close>

section \<open>ct\_process\_item\<close>

text \<open>
  The switch on the action. The last three cases cannot be reached from \<^verbatim>\<open>ct_process_item\<close>, which
  filters them first; they are in the code and so they are here.
\<close>

definition process_switch ::
  "env \<Rightarrow> ct_options \<Rightarrow> string \<Rightarrow> S3Status \<Rightarrow> hsm_action_item \<Rightarrow> string \<Rightarrow> ct \<Rightarrow> (int \<times> ct) option" where
  "process_switch env opt path_prefix junk hai file_path s =
     (case hai_action hai of
        HSMA_ARCHIVE \<Rightarrow> ct_archive env opt path_prefix hai file_path s
      | HSMA_RESTORE \<Rightarrow> ct_restore env opt path_prefix hai file_path s
      | HSMA_REMOVE \<Rightarrow> ct_remove env opt junk hai file_path s
      | HSMA_CANCEL \<Rightarrow> Some (ct_cancel hai, s)
      | _ \<Rightarrow> (let (_, s) = ct_action_done env False hai 0 (- EINVAL) s in Some (- EINVAL, s)))"

text \<open>
  When the path is not looked up, \<^verbatim>\<open>file_path\<close> is read uninitialised (\<open>None\<close>).
\<close>

definition ct_process_item ::
  "env \<Rightarrow> ct_options \<Rightarrow> string \<Rightarrow> S3Status \<Rightarrow> hsm_action_item \<Rightarrow> ct \<Rightarrow> (int \<times> ct) option" where
  "ct_process_item env opt path_prefix junk hai s =
     (if hai_action hai \<noteq> HSMA_ARCHIVE \<and> hai_action hai \<noteq> HSMA_RESTORE then
        (let (_, s) = ct_action_done env False hai 0 (- EINVAL) s in Some (0, s))
      else if o_verbose opt \<ge> LLAPI_MSG_INFO env \<or> o_dry_run opt \<noteq> 0 then
        (let (rc, file_path) = e_fid2path env (hist s) (hai_fid hai);
             s = emit (EvCall ''llapi_fid2path'' rc) s in
         if rc < 0 then Some (rc, s)
         else process_switch env opt path_prefix junk hai file_path s)
      else None)"

section \<open>ct\_process\_item\_async\<close>

text \<open>
  The results of the two \<^verbatim>\<open>malloc\<close> calls, of \<^verbatim>\<open>pthread_attr_init\<close> and of
  \<^verbatim>\<open>pthread_create\<close> are arguments. The result is the return value, the number of blocks still allocated,
  and whether a thread owns them.
\<close>

definition ct_process_item_async :: "bool \<Rightarrow> bool \<Rightarrow> int \<Rightarrow> int \<Rightarrow> int \<times> nat \<times> bool" where
  "ct_process_item_async got_data got_hai attr_rc create_rc =
     (if \<not> got_data then (- ENOMEM, 0, False)
      else if \<not> got_hai then (- ENOMEM, 0, False)
      else if attr_rc \<noteq> 0 then (- attr_rc, 0, False)
      else (create_rc, 2, create_rc = 0))"

section \<open>Theorems\<close>

text \<open>
  Unsupported actions. A remove, a cancel or an unknown action is answered with a completion that
  carries \<^verbatim>\<open>EINVAL\<close>, unless the coordinator refuses all seven tries to begin the action first; the item counts as
  processed, and besides these messages nothing happens: no request reaches the store and no file is touched.
\<close>

lemma ct_process_item_unsupported:
  assumes "hai_action hai \<noteq> HSMA_ARCHIVE" and "hai_action hai \<noteq> HSMA_RESTORE"
  shows "\<exists>s' begins ends. ct_process_item env opt pre junk hai s = Some (0, s') \<and>
           hist s' = map (EvEnd (hai_extent hai) 0 22) ends @ map (EvBegin (hai_fid hai) (-1) 0 True) begins @ hist s \<and>
           (ends = [] \<longrightarrow> length begins = 7 \<and> hd begins < 0) \<and> world s' = world s"
proof -
  obtain rd s' where d: "ct_action_done env False hai 0 (- EINVAL) s = (rd, s')" by (metis surj_pair)
  obtain begins ends where h: "hist s' = map (EvEnd (hai_extent hai) 0 \<bar>- EINVAL\<bar>) ends @
      map (EvBegin (hai_fid hai) (-1) 0 True) begins @ hist s" "ends = [] \<longrightarrow> length begins = 7 \<and> hd begins < 0"
    using action_done_spec [OF d] by (elim exE conjE) (rule that, auto)
  have "ct_process_item env opt pre junk hai s = Some (0, s')" using assms d by (simp add: ct_process_item_def)
  moreover have "hist s' = map (EvEnd (hai_extent hai) 0 22) ends @ map (EvBegin (hai_fid hai) (-1) 0 True) begins @ hist s"
    using h(1) by (simp add: EINVAL_def)
  ultimately show ?thesis using h(2) frameD(2) [OF action_done_frame [OF d]] by blast
qed

text \<open>
  Quiet mode. The path is only looked up when messages of level info are on or for a dry run. With
  \<^verbatim>\<open>--quiet\<close> every archive and every restore works on an uninitialised path buffer.
\<close>

lemma ct_process_item_quiet_undefined:
  assumes "hai_action hai \<in> {HSMA_ARCHIVE, HSMA_RESTORE}" and "o_verbose opt < LLAPI_MSG_INFO env" and "o_dry_run opt = 0"
  shows "ct_process_item env opt pre junk hai s = None"
  using assms by (auto simp: ct_process_item_def)

text \<open>
  When the path of the FID cannot be found, the item is dropped: the error is returned to the
  thread, which discards it, and the coordinator gets no completion; the lookup is the only
  interaction.
\<close>

lemma ct_process_item_lookup_failure_unreported:
  assumes "hai_action hai \<in> {HSMA_ARCHIVE, HSMA_RESTORE}" and "LLAPI_MSG_INFO env \<le> o_verbose opt"
    and "fst (e_fid2path env (hist s) (hai_fid hai)) < 0"
  shows "\<exists>s'. ct_process_item env opt pre junk hai s = Some (fst (e_fid2path env (hist s) (hai_fid hai)), s') \<and>
           hist s' = EvCall ''llapi_fid2path'' (fst (e_fid2path env (hist s) (hai_fid hai))) # hist s"
  using assms by (auto simp: ct_process_item_def Let_def split: prod.splits)

text \<open>
  When \<^verbatim>\<open>ct_process_item_async\<close> fails, nothing it allocated is left, except when
  \<^verbatim>\<open>pthread_create\<close> fails: then both blocks are lost. When it succeeds the thread owns them.
\<close>

lemma ct_process_item_async_memory:
  "case ct_process_item_async got_data got_hai attr_rc create_rc of (rc, blocks, owned) \<Rightarrow>
     (rc = 0 \<longleftrightarrow> owned) \<and> (rc \<noteq> 0 \<and> blocks \<noteq> 0 \<longleftrightarrow> got_data \<and> got_hai \<and> attr_rc = 0 \<and> create_rc \<noteq> 0)"
  by (auto simp: ct_process_item_async_def errno_defs)

section \<open>Witnesses\<close>

lemma ct_process_item_unsupported_witness:
  "\<exists>s' begins ends. ct_process_item demo_env demo_opt ''/mnt'' S3StatusOK (demo_hai HSMA_CANCEL) (demo_ct []) = Some (0, s') \<and>
     hist s' = map (EvEnd (hai_extent (demo_hai HSMA_CANCEL)) 0 22) ends @
       map (EvBegin (hai_fid (demo_hai HSMA_CANCEL)) (-1) 0 True) begins @ hist (demo_ct [])"
  using ct_process_item_unsupported [of "demo_hai HSMA_CANCEL" demo_env demo_opt "''/mnt''" S3StatusOK "demo_ct []"]
  by (fastforce simp: demo_hai_def)

lemma ct_process_item_quiet_undefined_witness:
  "ct_process_item demo_env (demo_opt\<lparr>o_verbose := 4\<rparr>) ''/mnt'' S3StatusOK (demo_hai HSMA_ARCHIVE) (demo_ct []) = None"
  by (rule ct_process_item_quiet_undefined) (simp_all add: demo_hai_def demo_env_def demo_opt_def)

lemma ct_process_item_lookup_failure_unreported_witness:
  "\<exists>s'. ct_process_item (demo_env\<lparr>e_fid2path := \<lambda>h f. (-2, [])\<rparr>) demo_opt ''/mnt'' S3StatusOK (demo_hai HSMA_ARCHIVE) (demo_ct []) = Some (-2, s') \<and>
     hist s' = [EvCall ''llapi_fid2path'' (-2)]"
  using ct_process_item_lookup_failure_unreported [of "demo_hai HSMA_ARCHIVE" "demo_env\<lparr>e_fid2path := \<lambda>h f. (-2, [])\<rparr>" demo_opt "demo_ct []" "''/mnt''" S3StatusOK]
  by (simp add: demo_hai_def demo_env_def demo_opt_def demo_ct_def)

end
