(* ===== verification/Daemon.thy ===== *)
theory Daemon
  imports Dispatch
begin

text \<open>
  The daemon in \<^verbatim>\<open>ct_common.c\<close>: the receive loop \<^verbatim>\<open>ct_run\<close>, the concurrency control
  \<^verbatim>\<open>ct_request_ctl\<close>, the end of the worker \<^verbatim>\<open>ct_thread\<close> and the signal \<^verbatim>\<open>handler\<close>, as one
  transition function over the semaphore, the flag \<^verbatim>\<open>stop_it\<close>, the worker threads and the
  position of the main thread. A label of the function is one stretch of code of one thread, so a list of labels is an
  interleaving. The theorems: the semaphore bounds the workers until the first signal, every item
  accepted is handed over once and in order, a signal taken by the main thread ends the daemon exactly
  when no worker is left, and three ways in which the shutdown goes wrong.
\<close>

section \<open>Start of ct\_run\<close>

text \<open>
  The calls before the loop; their results are arguments (\<open>-errno\<close> for \<^verbatim>\<open>daemon\<close>). \<open>Inl\<close> is the
  value returned, with whether the copytool was unregistered on the way out; \<open>Inr\<close> enters the loop.
\<close>

definition ct_run_start ::
  "ct_options \<Rightarrow> int \<Rightarrow> int \<Rightarrow> int \<Rightarrow> int \<Rightarrow> int \<Rightarrow> (int \<times> bool) + unit" where
  "ct_run_start opt daemon_rc register_rc sigint_rc sigterm_rc sem_init_rc =
     (if o_daemonize opt \<noteq> 0 \<and> daemon_rc < 0 then Inl (daemon_rc, False)
      else if register_rc < 0 then Inl (register_rc, False)
      else if sigint_rc \<noteq> 0 then Inl (sigint_rc, True)
      else if sigterm_rc \<noteq> 0 then Inl (sigterm_rc, True)
      else if sem_init_rc \<noteq> 0 then Inl (sem_init_rc, True)
      else Inr ())"

section \<open>State\<close>

text \<open>Where the main thread stands; the flag says whether it took a slot of the semaphore.\<close>

datatype main_pc =
    Recv           \<comment> \<open>llapi\_hsm\_copytool\_recv\<close>
  | Items          \<comment> \<open>the test of the loop over the items\<close>
  | CtlEnter       \<comment> \<open>entry of ct\_request\_ctl\<close>
  | TimedWait      \<comment> \<open>sem\_timedwait\<close>
  | Waited bool    \<comment> \<open>after sem\_timedwait\<close>
  | GetValue       \<comment> \<open>sem\_getvalue after stop\_it was seen\<close>
  | Spawn bool     \<comment> \<open>ct\_process\_item\_async\<close>
  | Spawned        \<comment> \<open>after ct\_process\_item\_async\<close>
  | AfterItems     \<comment> \<open>after the loop over the items\<close>
  | Cleanup        \<comment> \<open>sem\_destroy and unregister\<close>
  | Returned

text \<open>
  An item of a received list is its byte offset in the message and the item. The last three
  fields are not variables of the code: how many worker threads are inside the signal handler, the items
  accepted and the items handed to \<^verbatim>\<open>ct_process_item_async\<close> so far.
\<close>

type_synonym list_item = "int \<times> hsm_action_item"

record daemon =
  dm_sem :: nat
  dm_stop :: bool
  dm_err :: nat
  dm_rc :: int
  dm_pc :: main_pc
  dm_msgsize :: int
  dm_rest :: "list_item list"
  dm_workers :: nat
  dm_in_handler :: bool
  dm_exited :: bool
  dm_stuck :: nat
  dm_accepted :: "list_item list"
  dm_started :: "list_item list"

definition daemon_init :: "nat \<Rightarrow> daemon" where
  "daemon_init max_requests =
     \<lparr>dm_sem = max_requests, dm_stop = False, dm_err = 0, dm_rc = 0, dm_pc = Recv, dm_msgsize = 0, dm_rest = [],
      dm_workers = 0, dm_in_handler = False, dm_exited = False, dm_stuck = 0, dm_accepted = [], dm_started = []\<rparr>"

text \<open>What \<^verbatim>\<open>llapi_hsm_copytool_recv\<close> gives: a negative error, or a list with its size.\<close>

datatype received = RecvFailed int | Message string int "list_item list"

section \<open>The main thread\<close>

text \<open>\<^verbatim>\<open>ct_run\<close> from \<^verbatim>\<open>llapi_hsm_copytool_recv\<close> to the first item\<close>

definition reject :: "ct_options \<Rightarrow> int \<Rightarrow> daemon \<Rightarrow> daemon" where
  "reject opt rc s =
     s\<lparr>dm_rc := rc, dm_err := dm_err s + 1, dm_pc := (if o_abort_on_error opt \<noteq> 0 then Cleanup else Recv)\<rparr>"

definition run_recv :: "ct_options \<Rightarrow> string \<Rightarrow> received \<Rightarrow> daemon \<Rightarrow> daemon" where
  "run_recv opt fs_name msg s =
     (case msg of
        RecvFailed rc \<Rightarrow>
          (if rc = - ESHUTDOWN then s\<lparr>dm_rc := rc, dm_pc := Cleanup\<rparr> else reject opt rc s)
      | Message hal_fsname msgsize hais \<Rightarrow>
          (if hal_fsname \<noteq> fs_name then reject opt (- EINVAL) s
           else s\<lparr>dm_rc := 0, dm_pc := Items, dm_msgsize := msgsize, dm_rest := hais,
                  dm_accepted := dm_accepted s @ takeWhile (\<lambda>hai. fst hai \<le> msgsize) hais\<rparr>))"

definition run_items :: "daemon \<Rightarrow> daemon" where
  "run_items s =
     (case dm_rest s of
        [] \<Rightarrow> s\<lparr>dm_pc := AfterItems\<rparr>
      | hai # _ \<Rightarrow>
          (if fst hai > dm_msgsize s
           then s\<lparr>dm_rc := - EPROTO, dm_err := dm_err s + 1, dm_rest := [], dm_pc := AfterItems\<rparr>
           else s\<lparr>dm_pc := CtlEnter\<rparr>))"

text \<open>\<^verbatim>\<open>ct_request_ctl\<close>\<close>

definition ctl_enter :: "daemon \<Rightarrow> daemon" where
  "ctl_enter s = (if dm_stop s then s\<lparr>dm_pc := Spawn False\<rparr> else s\<lparr>dm_pc := TimedWait\<rparr>)"

definition ctl_timedwait :: "daemon \<Rightarrow> daemon" where
  "ctl_timedwait s =
     (if 0 < dm_sem s then s\<lparr>dm_sem := dm_sem s - 1, dm_pc := Waited True\<rparr> else s\<lparr>dm_pc := Waited False\<rparr>)"

definition ctl_waited :: "bool \<Rightarrow> daemon \<Rightarrow> daemon" where
  "ctl_waited got s =
     (if got \<and> \<not> dm_stop s then s\<lparr>dm_pc := Spawn True\<rparr>
      else if dm_stop s then s\<lparr>dm_sem := dm_sem s + (if got then 1 else 0), dm_pc := GetValue\<rparr>
      else s\<lparr>dm_pc := TimedWait\<rparr>)"

definition ctl_getvalue :: "nat \<Rightarrow> daemon \<Rightarrow> daemon" where
  "ctl_getvalue max_requests s =
     (if dm_sem s < max_requests then s\<lparr>dm_pc := TimedWait\<rparr> else s\<lparr>dm_pc := Spawn False\<rparr>)"

text \<open>
  The rest of the item loop. \<open>rc\<close> is the value of \<^verbatim>\<open>ct_process_item_async\<close>; zero means that a
  worker runs.
\<close>

definition run_spawn :: "int \<Rightarrow> daemon \<Rightarrow> daemon" where
  "run_spawn rc s =
     (let s = s\<lparr>dm_rc := rc, dm_pc := Spawned, dm_started := dm_started s @ take 1 (dm_rest s)\<rparr> in
      if rc \<noteq> 0 then s\<lparr>dm_sem := dm_sem s + 1\<rparr> else s\<lparr>dm_workers := dm_workers s + 1\<rparr>)"

definition run_spawned :: "ct_options \<Rightarrow> daemon \<Rightarrow> daemon" where
  "run_spawned opt s =
     (if o_abort_on_error opt \<noteq> 0 \<and> dm_err s \<noteq> 0 then s\<lparr>dm_pc := AfterItems\<rparr>
      else s\<lparr>dm_rest := drop 1 (dm_rest s), dm_pc := Items\<rparr>)"

definition run_after :: "ct_options \<Rightarrow> daemon \<Rightarrow> daemon" where
  "run_after opt s =
     (if dm_stop s then s\<lparr>dm_pc := Cleanup\<rparr>
      else if o_abort_on_error opt \<noteq> 0 \<and> dm_err s \<noteq> 0 then s\<lparr>dm_pc := Cleanup\<rparr>
      else s\<lparr>dm_pc := Recv\<rparr>)"

text \<open>One step of the main thread; \<open>msg\<close> and \<open>rc\<close> are what its next library call gives.\<close>

definition main_step :: "nat \<Rightarrow> ct_options \<Rightarrow> string \<Rightarrow> received \<Rightarrow> int \<Rightarrow> daemon \<Rightarrow> daemon" where
  "main_step max_requests opt fs_name msg rc s =
     (case dm_pc s of
        Recv \<Rightarrow> run_recv opt fs_name msg s
      | Items \<Rightarrow> run_items s
      | CtlEnter \<Rightarrow> ctl_enter s
      | TimedWait \<Rightarrow> ctl_timedwait s
      | Waited got \<Rightarrow> ctl_waited got s
      | GetValue \<Rightarrow> ctl_getvalue max_requests s
      | Spawn _ \<Rightarrow> run_spawn rc s
      | Spawned \<Rightarrow> run_spawned opt s
      | AfterItems \<Rightarrow> run_after opt s
      | Cleanup \<Rightarrow> s\<lparr>dm_pc := Returned\<rparr>
      | Returned \<Rightarrow> s)"

section \<open>The workers and the signal handler\<close>

text \<open>
  A label is who moves. \<open>WorkerErr\<close> is a worker counting an error in \<^verbatim>\<open>err_major\<close>;
  \<open>WorkerDone\<close> is the \<^verbatim>\<open>sem_post\<close> at the end of \<^verbatim>\<open>ct_thread\<close>. The kernel delivers a signal to any
  thread: the handler never returns to the thread it interrupts, it either exits the
  process or goes on waiting.
\<close>

datatype label =
    Main received int
  | WorkerErr
  | WorkerDone
  | SignalMain
  | SignalWorker
  | HandlerCheck

definition ct_thread :: "daemon \<Rightarrow> daemon" where
  "ct_thread s = s\<lparr>dm_workers := dm_workers s - 1, dm_sem := dm_sem s + 1\<rparr>"

definition handler_check :: "nat \<Rightarrow> daemon \<Rightarrow> daemon" where
  "handler_check max_requests s = (if dm_sem s < max_requests then s else s\<lparr>dm_exited := True\<rparr>)"

definition daemon_step :: "nat \<Rightarrow> ct_options \<Rightarrow> string \<Rightarrow> label \<Rightarrow> daemon \<Rightarrow> daemon option" where
  "daemon_step max_requests opt fs_name l s =
     (if dm_exited s then None else
      case l of
        Main msg rc \<Rightarrow>
          (if dm_in_handler s \<or> dm_pc s = Returned then None
           else Some (main_step max_requests opt fs_name msg rc s))
      | WorkerErr \<Rightarrow> (if dm_stuck s < dm_workers s then Some (s\<lparr>dm_err := dm_err s + 1\<rparr>) else None)
      | WorkerDone \<Rightarrow> (if dm_stuck s < dm_workers s then Some (ct_thread s) else None)
      | SignalMain \<Rightarrow>
          (if dm_pc s = Returned then None else Some (s\<lparr>dm_stop := True, dm_in_handler := True\<rparr>))
      | SignalWorker \<Rightarrow>
          (if dm_stuck s < dm_workers s then Some (s\<lparr>dm_stop := True, dm_stuck := dm_stuck s + 1\<rparr>) else None)
      | HandlerCheck \<Rightarrow>
          (if dm_in_handler s \<or> 0 < dm_stuck s then Some (handler_check max_requests s) else None))"

primrec daemon_run :: "nat \<Rightarrow> ct_options \<Rightarrow> string \<Rightarrow> label list \<Rightarrow> daemon \<Rightarrow> daemon option" where
  "daemon_run max_requests opt fs_name [] s = Some s"
| "daemon_run max_requests opt fs_name (l # ls) s =
     (case daemon_step max_requests opt fs_name l s of
        None \<Rightarrow> None
      | Some s' \<Rightarrow> daemon_run max_requests opt fs_name ls s')"

section \<open>Invariants\<close>

lemmas main_defs = main_step_def run_recv_def reject_def run_items_def ctl_enter_def ctl_timedwait_def ctl_waited_def
  ctl_getvalue_def run_spawn_def run_spawned_def run_after_def

lemmas step_defs = daemon_step_def main_defs ct_thread_def handler_check_def

lemma daemon_run_append:
  "daemon_run m opt fsn (ls @ ms) s =
     (case daemon_run m opt fsn ls s of None \<Rightarrow> None | Some s' \<Rightarrow> daemon_run m opt fsn ms s')"
  by (induction ls arbitrary: s) (auto split: option.splits)

text \<open>An invariant of the steps holds at the end of every run.\<close>

lemma daemon_run_inv:
  assumes "daemon_run m opt fsn ls s = Some s'" and "P s"
    and "\<And>l s s'. l \<in> set ls \<Longrightarrow> P s \<Longrightarrow> daemon_step m opt fsn l s = Some s' \<Longrightarrow> P s'"
  shows "P s'"
  using assms
proof (induction ls arbitrary: s)
  case (Cons l ls)
  then obtain t where t: "daemon_step m opt fsn l s = Some t" "daemon_run m opt fsn ls t = Some s'"
    by (auto split: option.splits)
  show ?case using Cons.IH [OF t(2)] Cons.prems(2,3) t(1) by (metis list.set_intros)
qed simp

text \<open>The slots the main thread holds.\<close>

fun held :: "main_pc \<Rightarrow> nat" where
  "held (Waited True) = 1"
| "held (Spawn True) = 1"
| "held _ = 0"

definition slots :: "daemon \<Rightarrow> nat" where
  "slots s = dm_sem s + dm_workers s + held (dm_pc s)"

text \<open>Before the first signal no slot is lost or made, and nobody is in the handler.\<close>

definition slot_inv :: "nat \<Rightarrow> daemon \<Rightarrow> bool" where
  "slot_inv m s \<longleftrightarrow> dm_stuck s \<le> dm_workers s \<and>
     (dm_stop s \<or> slots s = m \<and> dm_pc s \<noteq> Spawn False \<and> dm_pc s \<noteq> GetValue) \<and>
     (dm_exited s \<or> dm_in_handler s \<or> 0 < dm_stuck s \<longrightarrow> dm_stop s)"

lemma slot_inv_init: "slot_inv m (daemon_init m)"
  by (simp add: slot_inv_def daemon_init_def slots_def)

lemma held_waited: "held (Waited b) = (if b then 1 else 0)" and held_spawn: "held (Spawn b) = (if b then 1 else 0)"
  by (cases b; simp)+

lemma slot_inv_main:
  assumes "slot_inv m s" and "\<not> dm_in_handler s" and "\<not> dm_exited s" and "dm_pc s \<noteq> Returned"
  shows "slot_inv m (main_step m opt fsn msg rc s)"
  using assms
  by (cases "dm_pc s") (auto simp: main_defs slot_inv_def slots_def held_waited held_spawn Let_def
      split: received.splits list.splits if_splits)

lemma slot_inv_step:
  assumes "slot_inv m s" and "daemon_step m opt fsn l s = Some s'"
  shows "slot_inv m s'"
proof (cases l)
  case (Main msg rc)
  then show ?thesis using assms slot_inv_main by (auto simp: daemon_step_def split: if_splits)
qed (use assms in \<open>auto simp: daemon_step_def ct_thread_def handler_check_def slot_inv_def slots_def split: if_splits\<close>)

lemma slot_inv_run: "daemon_run m opt fsn ls (daemon_init m) = Some s \<Longrightarrow> slot_inv m s"
  using daemon_run_inv [where P = "slot_inv m"] slot_inv_init slot_inv_step by metis

text \<open>The items of the current list that will still be handed over.\<close>

fun in_list :: "main_pc \<Rightarrow> bool" where
  "in_list CtlEnter = True"
| "in_list TimedWait = True"
| "in_list (Waited b) = True"
| "in_list GetValue = True"
| "in_list (Spawn b) = True"
| "in_list _ = False"

definition pending :: "daemon \<Rightarrow> list_item list" where
  "pending s =
     (let inside = takeWhile (\<lambda>hai. fst hai \<le> dm_msgsize s) in
      if dm_pc s = Items \<or> in_list (dm_pc s) then inside (dm_rest s)
      else if dm_pc s = Spawned then inside (drop 1 (dm_rest s))
      else [])"

definition order_inv :: "daemon \<Rightarrow> bool" where
  "order_inv s \<longleftrightarrow> dm_started s @ pending s = dm_accepted s \<and>
     (in_list (dm_pc s) \<longrightarrow> (\<exists>hai hais. dm_rest s = hai # hais \<and> fst hai \<le> dm_msgsize s))"

lemma order_inv_main:
  assumes "order_inv s" and "o_abort_on_error opt = 0"
  shows "order_inv (main_step m opt fsn msg rc s)"
  using assms
  by (cases "dm_pc s") (auto simp: main_defs order_inv_def pending_def Let_def split: received.splits list.splits if_splits)

lemma order_inv_step:
  assumes "order_inv s" and "o_abort_on_error opt = 0" and "daemon_step m opt fsn l s = Some s'"
  shows "order_inv s'"
proof (cases l)
  case (Main msg rc)
  then show ?thesis using assms order_inv_main by (auto simp: daemon_step_def split: if_splits)
qed (use assms in \<open>auto simp: daemon_step_def ct_thread_def handler_check_def order_inv_def pending_def Let_def split: if_splits\<close>)

text \<open>
  As long as no worker takes a signal, the first signal stops the main thread, so the slots stay
  accounted for.
\<close>

definition main_signal_inv :: "nat \<Rightarrow> daemon \<Rightarrow> bool" where
  "main_signal_inv m s \<longleftrightarrow> slot_inv m s \<and> slots s = m \<and> dm_stuck s = 0 \<and> (dm_stop s \<longrightarrow> dm_in_handler s) \<and>
     (dm_exited s \<longrightarrow> m \<le> dm_sem s)"

lemma main_signal_inv_step:
  assumes "main_signal_inv m s" and "l \<noteq> SignalWorker" and "daemon_step m opt fsn l s = Some s'"
  shows "main_signal_inv m s'"
proof (cases l)
  case (Main msg rc)
  then have s': "s' = main_step m opt fsn msg rc s" and s: "\<not> dm_in_handler s" "\<not> dm_exited s" "dm_pc s \<noteq> Returned"
    using assms(3) by (auto simp: daemon_step_def split: if_splits)
  have inv: "slot_inv m s" and "dm_stuck s = 0" and "\<not> dm_stop s" using assms(1) s by (auto simp: main_signal_inv_def)
  then have "dm_stuck s' = 0" "\<not> dm_stop s'" "\<not> dm_exited s'" using s
    by (cases "dm_pc s"; auto simp: s' main_defs Let_def split: received.splits list.splits)+
  then show ?thesis using slot_inv_main [OF inv s, of opt fsn msg rc] by (simp add: main_signal_inv_def slot_inv_def s')
qed (use assms in \<open>auto simp: daemon_step_def ct_thread_def handler_check_def main_signal_inv_def slot_inv_def slots_def
      split: if_splits\<close>)

lemma main_signal_inv_run:
  assumes "daemon_run m opt fsn ls (daemon_init m) = Some s" and "SignalWorker \<notin> set ls"
  shows "main_signal_inv m s"
proof (rule daemon_run_inv [OF assms(1), where P = "main_signal_inv m"])
  show "main_signal_inv m (daemon_init m)"
    using slot_inv_init by (simp add: main_signal_inv_def slots_def daemon_init_def)
qed (use assms(2) main_signal_inv_step in metis)

text \<open>
  A slot that nobody will return: held by a worker in the handler, or by the main thread when the main
  thread does not move.
\<close>

definition slot_lost :: "nat \<Rightarrow> daemon \<Rightarrow> bool" where
  "slot_lost m s \<longleftrightarrow> slots s = m \<and> dm_stuck s \<le> dm_workers s \<and> 0 < dm_stuck s + held (dm_pc s) \<and> \<not> dm_exited s"

lemma slot_lost_step:
  assumes "slot_lost m s" and "daemon_step m opt fsn l s = Some s'" and "\<forall>msg rc. l \<noteq> Main msg rc"
  shows "slot_lost m s'"
  using assms
  by (cases l) (auto simp: daemon_step_def ct_thread_def handler_check_def slot_lost_def slots_def split: if_splits)

lemma main_in_handler:
  assumes "daemon_step m opt fsn l s = Some s'" and "dm_in_handler s"
  shows "dm_in_handler s'" and "\<forall>msg rc. l \<noteq> Main msg rc"
  using assms by (cases l; auto simp: daemon_step_def ct_thread_def handler_check_def split: if_splits)+

lemma drain_workers:
  assumes "dm_workers s = n" and "slots s = m" and "dm_stuck s = 0" and "dm_in_handler s" and "held (dm_pc s) = 0"
    and "\<not> dm_exited s"
  shows "\<exists>s'. daemon_run m opt fsn (replicate n WorkerDone @ [HandlerCheck]) s = Some s' \<and> dm_exited s' \<and> dm_workers s' = 0"
  using assms
proof (induction n arbitrary: s)
  case 0
  then show ?case by (simp add: daemon_step_def handler_check_def slots_def)
next
  case (Suc n)
  then have "slots (ct_thread s) = m" "dm_workers (ct_thread s) = n" by (simp_all add: slots_def ct_thread_def)
  then show ?case using Suc.IH [of "ct_thread s"] Suc.prems by (simp add: daemon_step_def ct_thread_def)
qed

section \<open>Theorems\<close>

text \<open>
  C13. Concurrency control. Until the first signal, in every interleaving, the free slots, the running workers and the slot
  the main thread may hold add up to \<^verbatim>\<open>max_requests\<close>; so at most \<^verbatim>\<open>max_requests\<close> items are
  processed at a time, and no slot is ever lost, also when a thread cannot be created.
\<close>

theorem daemon_concurrency_bound:
  assumes "daemon_run max_requests opt fs_name ls (daemon_init max_requests) = Some s" and "\<not> dm_stop s"
  shows "dm_sem s + dm_workers s + held (dm_pc s) = max_requests \<and> dm_workers s \<le> max_requests"
  using slot_inv_run [OF assms(1)] assms(2) by (auto simp: slot_inv_def slots_def)


text \<open>
  C15. Clean exit. When the signals go to the main thread, the handler exits the process exactly when it
  finds no worker running and no slot in the hands of the main thread; so no transfer is cut off.
\<close>

theorem daemon_clean_exit:
  assumes "daemon_run max_requests opt fs_name ls (daemon_init max_requests) = Some s" and "SignalWorker \<notin> set ls"
  shows "(dm_exited s \<longrightarrow> dm_workers s = 0) \<and>
         (dm_in_handler s \<and> \<not> dm_exited s \<longrightarrow>
            daemon_step max_requests opt fs_name HandlerCheck s =
              Some (s\<lparr>dm_exited := (dm_workers s = 0 \<and> held (dm_pc s) = 0)\<rparr>))"
proof -
  have inv: "main_signal_inv max_requests s" by (rule main_signal_inv_run [OF assms])
  have "max_requests \<le> dm_sem s \<longleftrightarrow> dm_workers s = 0 \<and> held (dm_pc s) = 0"
    using inv by (auto simp: main_signal_inv_def slots_def)
  then show ?thesis using inv by (auto simp: main_signal_inv_def daemon_step_def handler_check_def)
qed

text \<open>
  C16. The exit comes. When the main thread is in the handler and holds no slot, the process exits as
  soon as the running workers have finished, whatever they are.
\<close>

theorem daemon_exit_after_workers:
  assumes "daemon_run max_requests opt fs_name ls (daemon_init max_requests) = Some s" and "SignalWorker \<notin> set ls"
    and "dm_in_handler s" and "held (dm_pc s) = 0" and "\<not> dm_exited s"
  shows "\<exists>s'. daemon_run max_requests opt fs_name (replicate (dm_workers s) WorkerDone @ [HandlerCheck]) s = Some s' \<and>
           dm_exited s' \<and> dm_workers s' = 0"
proof -
  have "main_signal_inv max_requests s" by (rule main_signal_inv_run [OF assms(1,2)])
  then show ?thesis using drain_workers [OF refl] assms(3-5) by (simp add: main_signal_inv_def)
qed

text \<open>
  C37. A signal that interrupts the main thread between \<^verbatim>\<open>sem_timedwait\<close> and the start of the worker
  makes the daemon hang: the main thread holds a slot, the handler waits for all slots, and whatever
  the workers do the process never exits.
\<close>

theorem daemon_signal_while_holding_slot_hangs:
  assumes "daemon_run max_requests opt fs_name ls (daemon_init max_requests) = Some s" and "SignalWorker \<notin> set ls"
    and "dm_in_handler s" and "held (dm_pc s) = 1"
    and "daemon_run max_requests opt fs_name ms s = Some s'"
  shows "\<not> dm_exited s'"
proof -
  have inv: "main_signal_inv max_requests s" by (rule main_signal_inv_run [OF assms(1,2)])
  have "slot_lost max_requests s' \<and> dm_in_handler s'"
  proof (rule daemon_run_inv [OF assms(5), where P = "\<lambda>s. slot_lost max_requests s \<and> dm_in_handler s"])
    show "slot_lost max_requests s \<and> dm_in_handler s"
      using inv assms(3,4) by (auto simp: main_signal_inv_def slot_lost_def slots_def)
  qed (use slot_lost_step main_in_handler in metis)
  then show ?thesis by (simp add: slot_lost_def)
qed

text \<open>
  A signal delivered to a worker thread makes an idle daemon hang: the worker waits in the handler for
  its own slot, so as long as the main thread gets no new list the process does not exit, even when
  all other workers finish.
\<close>

lemma daemon_signal_on_worker_hangs:
  assumes "daemon_run max_requests opt fs_name ls (daemon_init max_requests) = Some s" and "\<not> dm_stop s"
    and "daemon_run max_requests opt fs_name (SignalWorker # ms) s = Some s'" and "\<forall>msg rc. Main msg rc \<notin> set ms"
  shows "\<not> dm_exited s'"
proof -
  obtain t where t: "daemon_step max_requests opt fs_name SignalWorker s = Some t"
    "daemon_run max_requests opt fs_name ms t = Some s'" using assms(3) by (auto split: option.splits)
  have "slot_lost max_requests s'"
  proof (rule daemon_run_inv [OF t(2), where P = "slot_lost max_requests"])
    show "slot_lost max_requests t"
      using slot_inv_run [OF assms(1)] assms(2) t(1)
      by (auto simp: daemon_step_def slot_inv_def slot_lost_def slots_def split: if_splits)
  qed (use slot_lost_step assms(4) in metis)
  then show ?thesis by (simp add: slot_lost_def)
qed

section \<open>Runs that go wrong\<close>

definition demo_item :: list_item where
  "demo_item = (32, demo_hai HSMA_ARCHIVE)"

definition demo_options :: "int \<Rightarrow> ct_options" where
  "demo_options abort_on_error =
     \<lparr>o_copy_attrs = 0, o_daemonize = 0, o_dry_run = 0, o_abort_on_error = abort_on_error, o_verbose = 4, o_archive_cnt = 0,
      o_archive_id = [], o_report_int = 30, o_config = None, o_mnt = ''/mnt'', o_mnt_fd = 3\<rparr>"

abbreviation go :: label where
  "go \<equiv> Main (RecvFailed (- ESHUTDOWN)) 0"

text \<open>One list of \<open>n\<close> items arrives and the first one is started.\<close>

definition demo_start :: "nat \<Rightarrow> label list" where
  "demo_start n = Main (Message ''lustre'' 1000 (replicate n demo_item)) 0 # replicate 6 go"

lemmas daemon_demo_defs = demo_start_def demo_item_def demo_options_def step_defs daemon_init_def eval_nat_numeral

text \<open>
  A signal on a worker can also end the process too early: while the main thread works through a
  list, \<^verbatim>\<open>ct_request_ctl\<close> lets items start without a slot once \<^verbatim>\<open>stop_it\<close> is set; each of
  them returns a slot it never took, and the handler exits the process with a transfer running.
\<close>

lemma daemon_exit_with_worker_running:
  "\<exists>ls s. daemon_run 1 (demo_options 0) ''lustre'' ls (daemon_init 1) = Some s \<and>
     dm_exited s \<and> dm_workers s = 1"
proof -
  let ?ls = "demo_start 2 @ [SignalWorker, go, go, go, WorkerDone, HandlerCheck]"
  have "\<exists>s. daemon_run 1 (demo_options 0) ''lustre'' ?ls (daemon_init 1) = Some s \<and> dm_exited s \<and> dm_workers s = 1"
    by (simp add: daemon_demo_defs)
  then show ?thesis by blast
qed

text \<open>
  When the coordinator shuts the copytool down, \<^verbatim>\<open>ct_run\<close> destroys the semaphore and returns while
  workers are still running.
\<close>

lemma daemon_shutdown_with_worker_running:
  "\<exists>ls s. daemon_run 1 (demo_options 0) ''lustre'' ls (daemon_init 1) = Some s \<and>
     dm_pc s = Returned \<and> dm_rc s = - ESHUTDOWN \<and> dm_workers s = 1"
proof -
  let ?ls = "demo_start 1 @ [go, go, go, go]"
  have "\<exists>s. daemon_run 1 (demo_options 0) ''lustre'' ?ls (daemon_init 1) = Some s \<and>
      dm_pc s = Returned \<and> dm_rc s = - ESHUTDOWN \<and> dm_workers s = 1"
    by (simp add: daemon_demo_defs)
  then show ?thesis by blast
qed

section \<open>Witnesses\<close>

lemma demo_start_runs:
  "\<exists>s. daemon_run 1 (demo_options 0) ''lustre'' (demo_start 2) (daemon_init 1) = Some s \<and> \<not> dm_stop s \<and>
       dm_workers s = 1 \<and> dm_stuck s = 0 \<and> \<not> dm_exited s"
  by (simp add: daemon_demo_defs)

lemma demo_signal_runs:
  "\<exists>s. daemon_run 1 (demo_options 0) ''lustre'' (demo_start 1 @ [SignalMain]) (daemon_init 1) = Some s \<and>
       dm_in_handler s \<and> held (dm_pc s) = 0 \<and> \<not> dm_exited s"
  by (simp add: daemon_demo_defs)

lemma demo_held_runs:
  "\<exists>s. daemon_run 1 (demo_options 0) ''lustre'' (take 4 (demo_start 1) @ [SignalMain]) (daemon_init 1) = Some s \<and>
       dm_in_handler s \<and> held (dm_pc s) = 1"
  by (simp add: daemon_demo_defs)

lemma demo_no_worker_signal: "SignalWorker \<notin> set (demo_start n)" "SignalWorker \<notin> set (take 4 (demo_start n))"
  by (auto simp: demo_start_def dest: in_set_takeD)

theorem daemon_concurrency_bound_witness:
  "\<exists>s. daemon_run 1 (demo_options 0) ''lustre'' (demo_start 2) (daemon_init 1) = Some s \<and> dm_workers s \<le> 1"
  using demo_start_runs daemon_concurrency_bound [of 1 "demo_options 0" "''lustre''" "demo_start 2"] by blast


theorem daemon_clean_exit_witness:
  "\<exists>s. daemon_run 1 (demo_options 0) ''lustre'' (demo_start 1 @ [SignalMain]) (daemon_init 1) = Some s \<and>
       daemon_step 1 (demo_options 0) ''lustre'' HandlerCheck s =
         Some (s\<lparr>dm_exited := (dm_workers s = 0 \<and> held (dm_pc s) = 0)\<rparr>)"
  using demo_signal_runs demo_no_worker_signal
    daemon_clean_exit [of 1 "demo_options 0" "''lustre''" "demo_start 1 @ [SignalMain]"] by auto

theorem daemon_exit_after_workers_witness:
  "\<exists>s s'. daemon_run 1 (demo_options 0) ''lustre'' (demo_start 1 @ [SignalMain]) (daemon_init 1) = Some s \<and>
     daemon_run 1 (demo_options 0) ''lustre'' (replicate (dm_workers s) WorkerDone @ [HandlerCheck]) s = Some s' \<and> dm_exited s'"
proof -
  obtain s where s: "daemon_run 1 (demo_options 0) ''lustre'' (demo_start 1 @ [SignalMain]) (daemon_init 1) = Some s"
    "dm_in_handler s" "held (dm_pc s) = 0" "\<not> dm_exited s" using demo_signal_runs by blast
  show ?thesis using daemon_exit_after_workers [OF s(1) _ s(2-4)] demo_no_worker_signal s(1) by auto
qed

theorem daemon_signal_while_holding_slot_hangs_witness:
  "\<exists>s. daemon_run 1 (demo_options 0) ''lustre'' (take 4 (demo_start 1) @ [SignalMain]) (daemon_init 1) = Some s \<and>
     daemon_run 1 (demo_options 0) ''lustre'' [HandlerCheck] s = Some s \<and> \<not> dm_exited s"
proof -
  obtain s where s: "daemon_run 1 (demo_options 0) ''lustre'' (take 4 (demo_start 1) @ [SignalMain]) (daemon_init 1) = Some s"
    "dm_in_handler s" "held (dm_pc s) = 1" using demo_held_runs by blast
  have n: "SignalWorker \<notin> set (take 4 (demo_start 1) @ [SignalMain])" using demo_no_worker_signal by simp
  have e: "\<not> dm_exited s" by (rule daemon_signal_while_holding_slot_hangs [OF s(1) n s(2,3), of "[]"]) simp
  obtain s' where s': "daemon_run 1 (demo_options 0) ''lustre'' [HandlerCheck] s = Some s'"
    using e s(2) by (auto simp: daemon_step_def)
  have "\<not> dm_exited s'" by (rule daemon_signal_while_holding_slot_hangs [OF s(1) n s(2,3) s'])
  then have "s' = s" using s' e s(2) by (auto simp: daemon_step_def handler_check_def split: if_splits)
  then show ?thesis using s s' e by blast
qed

lemma daemon_signal_on_worker_hangs_witness:
  "\<exists>s s'. daemon_run 1 (demo_options 0) ''lustre'' (demo_start 2) (daemon_init 1) = Some s \<and>
     daemon_run 1 (demo_options 0) ''lustre'' [SignalWorker, HandlerCheck] s = Some s' \<and> \<not> dm_exited s'"
proof -
  obtain s where s: "daemon_run 1 (demo_options 0) ''lustre'' (demo_start 2) (daemon_init 1) = Some s" "\<not> dm_stop s"
    "dm_workers s = 1" "dm_stuck s = 0" "\<not> dm_exited s" using demo_start_runs by blast
  obtain s' where s': "daemon_run 1 (demo_options 0) ''lustre'' [SignalWorker, HandlerCheck] s = Some s'"
    using s by (simp add: daemon_step_def)
  show ?thesis using s s' daemon_signal_on_worker_hangs [OF s(1,2) s'] by auto
qed

end
