(* ===== verification/Ct_Options.thy ===== *)
theory Ct_Options
  imports Ct_Common
begin

text \<open>
  The start and the end of the tool in \<^verbatim>\<open>lhsmtool_s3.c\<close>: the command line and the configuration file
  (\<^verbatim>\<open>ct_opt_setup\<close>, \<^verbatim>\<open>ct_parseopts\<close>), and \<^verbatim>\<open>main\<close> with its exit paths and
  \<^verbatim>\<open>ct_s3_cleanup\<close>. What \<^verbatim>\<open>getopt_long\<close> delivers (the options with their arguments and the index
  of the first operand) and what libconfig finds are arguments. The fixed character arrays of the code are
  lists of their exact size. The theorems: what holds of the options when \<^verbatim>\<open>ct_parseopts\<close> returns 0, when it
  does, what the character arrays then hold, and what \<^verbatim>\<open>main\<close> calls on each way out.
\<close>

section \<open>C strings and numbers\<close>

definition NUL :: char where "NUL = CHR 0x00"

text \<open>The string an array holds; \<open>None\<close> when a reader runs past its end.\<close>

definition c_string :: "string \<Rightarrow> string option" where
  "c_string buf = (if NUL \<in> set buf then Some (takeWhile (\<lambda>c. c \<noteq> NUL) buf) else None)"

definition INT_MAX :: int where "INT_MAX = 2147483647"
definition LONG_MAX :: int where "LONG_MAX = 9223372036854775807"

definition c_isspace :: "char \<Rightarrow> bool" where
  "c_isspace c \<longleftrightarrow> of_char c \<in> {32 :: nat, 9, 10, 11, 12, 13}"

definition c_isdigit :: "char \<Rightarrow> bool" where
  "c_isdigit c \<longleftrightarrow> 48 \<le> (of_char c :: nat) \<and> (of_char c :: nat) \<le> 57"

definition decimal :: "string \<Rightarrow> int" where
  "decimal s = fold (\<lambda>c n. 10 * n + (of_char c - 48)) (takeWhile c_isdigit s) 0"

text \<open>\<^verbatim>\<open>atol\<close> is \<^verbatim>\<open>strtol\<close>, which saturates; \<^verbatim>\<open>atoi\<close> converts its value to an \<^verbatim>\<open>int\<close>.\<close>

definition atol :: "string \<Rightarrow> int" where
  "atol s =
     (let s = dropWhile c_isspace s in
      if take 1 s = ''-'' then max (- LONG_MAX - 1) (- decimal (drop 1 s))
      else min LONG_MAX (decimal (if take 1 s = ''+'' then drop 1 s else s)))"

definition atoi :: "string \<Rightarrow> int" where
  "atoi s = (atol s + 2 ^ 31) mod 2 ^ 32 - 2 ^ 31"

section \<open>State\<close>

text \<open>The sizes the headers of libs3 and Lustre define.\<close>

record limits =
  S3_MAX_KEY_SIZE :: nat
  S3_MAX_HOSTNAME_SIZE :: nat
  S3_MAX_BUCKET_NAME_SIZE :: nat
  LL_HSM_ORIGIN_MAX_ARCHIVE :: nat

record config_t =
  config_lookup_string :: "string \<Rightarrow> string option"
  config_lookup_bool :: "string \<Rightarrow> bool option"
  config_lookup_int :: "string \<Rightarrow> int option"

datatype protocol = S3ProtocolHTTPS | S3ProtocolHTTP

text \<open>The globals \<^verbatim>\<open>ct_parseopts\<close> sets.\<close>

record tool =
  ct_opt :: ct_options
  access_key :: string
  secret_key :: string
  host :: string
  bucket_name :: string
  path_prefix :: string
  bucket_protocol :: protocol
  max_requests :: int

text \<open>\<open>Usage\<close>: the process exits after printing the help; \<open>Overrun\<close>: a write past \<^verbatim>\<open>o_archive_id\<close>.\<close>

datatype 'a parse = Parsed 'a | Failed int | Usage | Overrun

definition ct_opt_setup :: "env \<Rightarrow> limits \<Rightarrow> ct_options" where
  "ct_opt_setup env lim =
     \<lparr>o_copy_attrs = 0, o_daemonize = 0, o_dry_run = 0, o_abort_on_error = 0, o_verbose = LLAPI_MSG_INFO env,
      o_archive_cnt = 0, o_archive_id = replicate (LL_HSM_ORIGIN_MAX_ARCHIVE lim) 0,
      o_report_int = REPORT_INTERVAL_DEFAULT, o_config = None, o_mnt = [], o_mnt_fd = 0\<rparr>"

text \<open>The initial value of the global \<^verbatim>\<open>ct_opt\<close> in \<^verbatim>\<open>ct_common.c\<close>\<close>

definition ct_opt_init :: "env \<Rightarrow> limits \<Rightarrow> ct_options" where
  "ct_opt_init env lim =
     \<lparr>o_copy_attrs = 0, o_daemonize = 0, o_dry_run = 0, o_abort_on_error = 0, o_verbose = LLAPI_MSG_INFO env,
      o_archive_cnt = 0, o_archive_id = replicate (LL_HSM_ORIGIN_MAX_ARCHIVE lim) 0,
      o_report_int = REPORT_INTERVAL_DEFAULT, o_config = Some ''config.cfg'', o_mnt = [], o_mnt_fd = 0\<rparr>"

section \<open>ct\_parseopts\<close>

text \<open>
  What one call of \<^verbatim>\<open>getopt_long\<close> gives: a character with its argument, or one of the long options
  that only set a flag.
\<close>

datatype getopt = Opt char string | Abort_on_error | Daemon_opt | Dry_run

fun parse_opt :: "getopt \<Rightarrow> ct_options \<Rightarrow> ct_options parse" where
  "parse_opt Abort_on_error opt = Parsed (opt\<lparr>o_abort_on_error := 1\<rparr>)"
| "parse_opt Daemon_opt opt = Parsed (opt\<lparr>o_daemonize := 1\<rparr>)"
| "parse_opt Dry_run opt = Parsed (opt\<lparr>o_dry_run := 1\<rparr>)"
| "parse_opt (Opt c optarg) opt =
     (if c = CHR ''A'' then
        (if atol optarg \<le> 0 \<or> atol optarg > INT_MAX then Failed (- E2BIG)
         else if length (o_archive_id opt) \<le> nat (o_archive_cnt opt) then Overrun
         else Parsed (opt\<lparr>o_archive_id := (o_archive_id opt)[nat (o_archive_cnt opt) := atoi optarg],
                          o_archive_cnt := o_archive_cnt opt + 1\<rparr>))
      else if c = CHR ''b'' \<or> c = CHR ''c'' then Parsed (opt\<lparr>o_config := Some optarg\<rparr>)
      else if c = CHR ''h'' then Usage
      else if c = CHR ''q'' then Parsed (opt\<lparr>o_verbose := o_verbose opt - 1\<rparr>)
      else if c = CHR ''u'' then
        (if atoi optarg < 0 then Failed (- EINVAL) else Parsed (opt\<lparr>o_report_int := atoi optarg\<rparr>))
      else if c = CHR ''v'' then Parsed (opt\<lparr>o_verbose := o_verbose opt + 1\<rparr>)
      else Failed (- EINVAL))"

primrec parse_bind :: "'a parse \<Rightarrow> ('a \<Rightarrow> 'b parse) \<Rightarrow> 'b parse" where
  "parse_bind (Parsed a) f = f a"
| "parse_bind (Failed rc) f = Failed rc"
| "parse_bind Usage f = Usage"
| "parse_bind Overrun f = Overrun"

primrec parse_opts :: "getopt list \<Rightarrow> ct_options \<Rightarrow> ct_options parse" where
  "parse_opts [] opt = Parsed opt"
| "parse_opts (o1 # os) opt = parse_bind (parse_opt o1 opt) (parse_opts os)"

text \<open>A mandatory string of the configuration, copied into an array of \<open>n\<close> bytes that was all zero.\<close>

definition need_string :: "config_t \<Rightarrow> string \<Rightarrow> nat \<Rightarrow> string parse" where
  "need_string cfg key n =
     (case config_lookup_string cfg key of None \<Rightarrow> Failed (- EINVAL) | Some config_str \<Rightarrow> Parsed (strncpy (replicate n NUL) config_str n))"

definition need_bool :: "config_t \<Rightarrow> string \<Rightarrow> bool parse" where
  "need_bool cfg key = (case config_lookup_bool cfg key of None \<Rightarrow> Failed (- EINVAL) | Some b \<Rightarrow> Parsed b)"

definition read_max_requests :: "config_t \<Rightarrow> int parse" where
  "read_max_requests cfg =
     (case config_lookup_int cfg ''max_requests'' of
        Some n \<Rightarrow> (if n > 0 then Parsed n else Failed (- EINVAL))
      | None \<Rightarrow> Parsed MAX_HSM_REQUESTS)"

text \<open>The configuration part; \<open>opt\<close> are the options after the mount point is set.\<close>

definition read_config :: "limits \<Rightarrow> config_t \<Rightarrow> ct_options \<Rightarrow> tool parse" where
  "read_config lim cfg opt =
     parse_bind (need_string cfg ''access_key'' (S3_MAX_KEY_SIZE lim)) (\<lambda>ak.
     parse_bind (need_string cfg ''secret_key'' (S3_MAX_KEY_SIZE lim)) (\<lambda>sk.
     parse_bind (need_string cfg ''host'' (S3_MAX_HOSTNAME_SIZE lim)) (\<lambda>ho.
     parse_bind (need_string cfg ''bucket_name'' (S3_MAX_BUCKET_NAME_SIZE lim)) (\<lambda>bn.
     parse_bind (need_string cfg ''path_prefix'' PATH_MAX) (\<lambda>pp.
     parse_bind (need_bool cfg ''ssl'') (\<lambda>ssl_enabled.
     parse_bind (read_max_requests cfg) (\<lambda>mr.
     Parsed \<lparr>ct_opt = opt, access_key = ak, secret_key = sk, host = ho, bucket_name = bn, path_prefix = pp,
             bucket_protocol = (if ssl_enabled then S3ProtocolHTTPS else S3ProtocolHTTP), max_requests = mr\<rparr>)))))))"

text \<open>\<open>rest\<close> are the operands from \<^verbatim>\<open>argv[optind]\<close> on; \<open>config_read_file\<close> gives \<open>None\<close> when it fails.\<close>

definition ct_parseopts ::
  "limits \<Rightarrow> (string option \<Rightarrow> config_t option) \<Rightarrow> getopt list \<Rightarrow> string list \<Rightarrow> ct_options \<Rightarrow> tool parse" where
  "ct_parseopts lim config_read_file opts rest opt =
     parse_bind (parse_opts opts opt) (\<lambda>opt.
       if length rest \<noteq> 1 then Failed (- EINVAL)
       else
         (let opt = opt\<lparr>o_mnt := hd rest, o_mnt_fd := -1\<rparr> in
          case config_read_file (o_config opt) of
            None \<Rightarrow> Failed (- EINVAL)
          | Some cfg \<Rightarrow> read_config lim cfg opt))"

section \<open>main\<close>

datatype call = Tlog_init | Ct_parseopts | Tlog_setlevel | Ct_setup | S3_initialize | Quota_mem_init | Ct_run
  | Ct_cleanup | S3_deinitialize | Tlog_exit | Quota_mem_destroy

text \<open>\<^verbatim>\<open>ct_s3_cleanup\<close>; the argument is what \<^verbatim>\<open>ct_cleanup\<close> returns.\<close>

definition ct_s3_cleanup :: "int \<Rightarrow> call list" where
  "ct_s3_cleanup rc = (if rc = 0 then [Ct_cleanup, S3_deinitialize] else [Ct_cleanup])"

text \<open>
  \<^verbatim>\<open>main\<close>: the results of the calls are arguments; the result is the value returned and
  the calls made. The help exits the process in \<^verbatim>\<open>ct_parseopts\<close>.
\<close>

definition ct_main :: "int \<Rightarrow> int \<Rightarrow> int \<Rightarrow> int \<Rightarrow> int \<Rightarrow> int \<Rightarrow> int \<times> call list" where
  "ct_main tlog_rc parse_rc setup_rc s3_rc run_rc cleanup_rc =
     (if tlog_rc \<noteq> 0 then (tlog_rc, [Tlog_init])
      else if parse_rc < 0 then (- parse_rc, [Tlog_init, Ct_parseopts, Tlog_exit, Quota_mem_destroy])
      else
        (let (rc, calls) =
           (if setup_rc < 0 then (setup_rc, [Ct_setup])
            else if s3_rc \<noteq> 0 then (s3_rc, [Ct_setup, S3_initialize])
            else (run_rc, [Ct_setup, S3_initialize, Quota_mem_init, Ct_run])) in
         (- rc, [Tlog_init, Ct_parseopts, Tlog_setlevel] @ calls @ ct_s3_cleanup cleanup_rc @ [Tlog_exit, Quota_mem_destroy])))"

section \<open>Properties of the parts\<close>

lemma strncpy_string:
  assumes "NUL \<notin> set src"
  shows "c_string (strncpy (replicate n NUL) src n) = (if length src < n then Some src else None)"
proof (cases "length src < n")
  case True
  then obtain k where k: "n - length src = Suc k" by (metis Suc_diff_Suc)
  have "strncpy (replicate n NUL) src n = src @ replicate (Suc k) NUL" using True k by (simp add: strncpy_def NUL_def)
  moreover have "takeWhile (\<lambda>c. c \<noteq> NUL) (src @ replicate (Suc k) NUL) = src"
    using assms by (induction src) auto
  ultimately show ?thesis using True by (simp add: c_string_def)
next
  case False
  then show ?thesis using assms by (auto simp: strncpy_def c_string_def dest: in_set_takeD)
qed

lemma atoi_small: "0 < atol s \<Longrightarrow> atol s \<le> INT_MAX \<Longrightarrow> atoi s = atol s"
  by (simp add: atoi_def INT_MAX_def)

text \<open>What every option keeps of the options record.\<close>

definition opts_ok :: "ct_options \<Rightarrow> bool" where
  "opts_ok opt \<longleftrightarrow> 0 \<le> o_archive_cnt opt \<and> nat (o_archive_cnt opt) \<le> length (o_archive_id opt) \<and> 0 \<le> o_report_int opt \<and>
     (\<forall>n < nat (o_archive_cnt opt). 1 \<le> o_archive_id opt ! n \<and> o_archive_id opt ! n \<le> INT_MAX)"

lemma parse_opt_ok:
  assumes "parse_opt o1 opt = Parsed opt'" and "opts_ok opt"
  shows "opts_ok opt'"
proof (cases o1)
  case (Opt c optarg)
  show ?thesis
  proof (cases "c = CHR ''A''")
    case True
    then have a: "0 < atol optarg" "atol optarg \<le> INT_MAX" "nat (o_archive_cnt opt) < length (o_archive_id opt)"
      and opt': "opt' = opt\<lparr>o_archive_id := (o_archive_id opt)[nat (o_archive_cnt opt) := atoi optarg],
                          o_archive_cnt := o_archive_cnt opt + 1\<rparr>"
      using assms(1) Opt by (auto split: if_splits)
    have n: "n < nat (o_archive_cnt opt + 1) \<longleftrightarrow> n = nat (o_archive_cnt opt) \<or> n < nat (o_archive_cnt opt)" for n
      using assms(2) by (auto simp: opts_ok_def)
    show ?thesis using assms(2) a atoi_small [OF a(1,2)]
      by (auto simp: opt' opts_ok_def n nth_list_update)
  next
    case False
    then show ?thesis using assms Opt by (auto simp: opts_ok_def split: if_splits)
  qed
qed (use assms in \<open>auto simp: opts_ok_def\<close>)

lemma parse_bind_Parsed: "parse_bind p f = Parsed b \<longleftrightarrow> (\<exists>a. p = Parsed a \<and> f a = Parsed b)"
  by (cases p) auto

lemma parse_opts_ok: "parse_opts os opt = Parsed opt' \<Longrightarrow> opts_ok opt \<Longrightarrow> opts_ok opt'"
  by (induction os arbitrary: opt) (auto simp: parse_bind_Parsed dest: parse_opt_ok)

lemma opts_init_ok: "opts_ok (ct_opt_init env lim)"
  by (simp add: opts_ok_def ct_opt_init_def REPORT_INTERVAL_DEFAULT_def)

definition mandatory :: "string list" where
  "mandatory = [''access_key'', ''secret_key'', ''host'', ''bucket_name'', ''path_prefix'']"

definition config_complete :: "config_t \<Rightarrow> bool" where
  "config_complete cfg \<longleftrightarrow> (\<forall>key \<in> set mandatory. config_lookup_string cfg key \<noteq> None) \<and>
     config_lookup_bool cfg ''ssl'' \<noteq> None \<and>
     (case config_lookup_int cfg ''max_requests'' of None \<Rightarrow> True | Some n \<Rightarrow> 0 < n)"

lemma read_config_result:
  "if config_complete cfg then \<exists>t. read_config lim cfg opt = Parsed t else read_config lim cfg opt = Failed (- EINVAL)"
  by (auto simp: read_config_def config_complete_def mandatory_def need_string_def need_bool_def read_max_requests_def
      split: option.splits)

lemma read_config_Parsed:
  assumes "read_config lim cfg opt = Parsed t"
  shows "ct_opt t = opt" and "0 < max_requests t"
    and "(bucket_protocol t = S3ProtocolHTTPS) = (config_lookup_bool cfg ''ssl'' = Some True)"
  using assms
  by (auto simp: read_config_def parse_bind_Parsed need_string_def need_bool_def read_max_requests_def MAX_HSM_REQUESTS_def
      split: option.splits if_splits)

section \<open>Theorems\<close>


text \<open>
  C21. When the command line is accepted and the configuration file can be read, \<^verbatim>\<open>ct_parseopts\<close>
  succeeds exactly when the five strings and \<^verbatim>\<open>ssl\<close> are there and \<^verbatim>\<open>max_requests\<close> is absent or
  positive; otherwise it returns \<^verbatim>\<open>-EINVAL\<close>.
\<close>

theorem ct_parseopts_config:
  assumes "parse_opts opts opt = Parsed opt'" and "config_read_file (o_config opt') = Some cfg"
  shows "if config_complete cfg then \<exists>t. ct_parseopts lim config_read_file opts [mnt] opt = Parsed t
         else ct_parseopts lim config_read_file opts [mnt] opt = Failed (- EINVAL)"
  using assms read_config_result [of cfg lim "opt'\<lparr>o_mnt := mnt, o_mnt_fd := -1\<rparr>"] by (simp add: ct_parseopts_def)

text \<open>
  The bucket name, like the keys, the host and the prefix, is usable exactly when it is shorter than its
  array: then the array holds it. Otherwise \<^verbatim>\<open>strncpy\<close> leaves the array without a terminator and
  the code that reads it runs past its end; \<^verbatim>\<open>ct_parseopts\<close> returns 0 all the same.
\<close>

lemma ct_parseopts_strings:
  assumes "read_config lim cfg opt = Parsed t"
    and "config_lookup_string cfg ''bucket_name'' = Some bn" and "NUL \<notin> set bn"
    and "config_lookup_string cfg ''secret_key'' = Some sk" and "NUL \<notin> set sk"
  shows "c_string (bucket_name t) = (if length bn < S3_MAX_BUCKET_NAME_SIZE lim then Some bn else None) \<and>
         c_string (secret_key t) = (if length sk < S3_MAX_KEY_SIZE lim then Some sk else None)"
proof -
  have "bucket_name t = strncpy (replicate (S3_MAX_BUCKET_NAME_SIZE lim) NUL) bn (S3_MAX_BUCKET_NAME_SIZE lim)"
    and "secret_key t = strncpy (replicate (S3_MAX_KEY_SIZE lim) NUL) sk (S3_MAX_KEY_SIZE lim)"
    using assms(1,2,4) by (auto simp: read_config_def parse_bind_Parsed need_string_def need_bool_def split: option.splits)
  then show ?thesis using strncpy_string [OF assms(3)] strncpy_string [OF assms(5)] by simp
qed

text \<open>
  The exits of \<^verbatim>\<open>main\<close>. The status is zero only if everything succeeded or \<^verbatim>\<open>ct_run\<close> gave zero;
  the log is closed on every path after it was opened; and \<^verbatim>\<open>S3_deinitialize\<close> is called without
  \<^verbatim>\<open>S3_initialize\<close> exactly when \<^verbatim>\<open>ct_setup\<close> failed and the cleanup did not.
\<close>

lemma ct_main_exits:
  "case ct_main tlog_rc parse_rc setup_rc s3_rc run_rc cleanup_rc of (status, calls) \<Rightarrow>
     (status = 0 \<longleftrightarrow> tlog_rc = 0 \<and> 0 \<le> parse_rc \<and> 0 \<le> setup_rc \<and> s3_rc = 0 \<and> run_rc = 0) \<and>
     (Tlog_exit \<in> set calls \<longleftrightarrow> tlog_rc = 0) \<and>
     (S3_deinitialize \<in> set calls \<and> S3_initialize \<notin> set calls \<longleftrightarrow>
        tlog_rc = 0 \<and> 0 \<le> parse_rc \<and> setup_rc < 0 \<and> cleanup_rc = 0)"
  by (auto simp: ct_main_def ct_s3_cleanup_def)

section \<open>Witnesses\<close>

definition demo_limits :: limits where
  "demo_limits = \<lparr>S3_MAX_KEY_SIZE = 8, S3_MAX_HOSTNAME_SIZE = 8, S3_MAX_BUCKET_NAME_SIZE = 4, LL_HSM_ORIGIN_MAX_ARCHIVE = 32\<rparr>"

definition demo_config :: config_t where
  "demo_config = \<lparr>config_lookup_string = (\<lambda>_. Some ''abcd''), config_lookup_bool = (\<lambda>_. Some True), config_lookup_int = (\<lambda>_. Some 8)\<rparr>"

lemmas demo_parse_defs = ct_parseopts_def read_config_def need_string_def need_bool_def read_max_requests_def demo_config_def
  demo_limits_def ct_opt_init_def atoi_def atol_def decimal_def c_isspace_def c_isdigit_def INT_MAX_def LONG_MAX_def


theorem ct_parseopts_config_witness:
  "config_complete demo_config \<and>
   (\<exists>t. ct_parseopts demo_limits (\<lambda>_. Some demo_config) [] [''/mnt''] (ct_opt_init demo_env demo_limits) = Parsed t)"
  using ct_parseopts_config [of "[]" "ct_opt_init demo_env demo_limits" "ct_opt_init demo_env demo_limits" "\<lambda>_. Some demo_config" demo_config
      demo_limits "''/mnt''"]
  by (simp add: config_complete_def mandatory_def demo_config_def)

lemma ct_parseopts_strings_witness:
  "\<exists>t. read_config demo_limits demo_config (ct_opt_init demo_env demo_limits) = Parsed t \<and>
     c_string (bucket_name t) = None \<and> c_string (secret_key t) = Some ''abcd''"
proof -
  obtain t where t: "read_config demo_limits demo_config (ct_opt_init demo_env demo_limits) = Parsed t"
    by (simp add: demo_parse_defs)
  show ?thesis using t ct_parseopts_strings [OF t, of "''abcd''" "''abcd''"]
    by (simp add: demo_config_def demo_limits_def NUL_def)
qed

end
