(* ===== verification/Tlog_Ring.thy ===== *)
theory Tlog_Ring
  imports Estuary_Prelude
begin

text \<open>
  The ring buffer of \<^verbatim>\<open>tlog.c\<close>: threads put lines into the buffer of a log under
  \<^verbatim>\<open>tlog.lock\<close> (\<^verbatim>\<open>_tlog_vprintf\<close>), the worker thread takes the contents, writes them without the lock
  and then releases the space (\<^verbatim>\<open>_tlog_work\<close>). The theorems: the ring is a queue of bytes (every put
  appends, what the worker takes is the front, and puts during a write do not disturb it), as long as
  every line is shorter than \<^verbatim>\<open>max_line_size\<close>; a line of exactly that size can be lost.
\<close>

section \<open>State\<close>

text \<open>The part of \<^verbatim>\<open>struct tlog_log\<close> that the ring needs.\<close>

record tlog_log =
  buff :: "byte list"
  buffsize :: nat
  l_start :: nat
  l_end :: nat
  l_ext_end :: nat
  l_block :: bool
  l_dropped :: nat
  l_segment :: bool
  l_max_line :: nat
  l_waiters :: nat

definition memcpy_at :: "nat \<Rightarrow> byte list \<Rightarrow> byte list \<Rightarrow> byte list" where
  "memcpy_at pos bs b = take pos b @ bs @ drop (pos + length bs) b"

section \<open>Segments\<close>

text \<open>A packed \<^verbatim>\<open>struct tlog_segment_head\<close> on a little-endian machine: the magic number and the length.\<close>

definition TLOG_SEGMENT_MAGIC :: "byte list" where
  "TLOG_SEGMENT_MAGIC = [0x54, 0x61, 0x44, 0xFF]"

definition u16_bytes :: "nat \<Rightarrow> byte list" where
  "u16_bytes n = [of_nat (n mod 256), of_nat (n div 256 mod 256)]"

definition u16_of :: "byte list \<Rightarrow> nat" where
  "u16_of b = unat (b ! 0) + 256 * unat (b ! 1)"

definition put_segment :: "byte list \<Rightarrow> byte list" where
  "put_segment bs = TLOG_SEGMENT_MAGIC @ u16_bytes (length bs + 1) @ bs @ [0]"

text \<open>
  \<^verbatim>\<open>_tlog_write_one_segment_log\<close>: the messages passed to the output function. The loop reads
  \<open>bufflen\<close> bytes of \<open>b\<close>; a segment that is not complete is read past the end (\<open>None\<close>).
\<close>

function segments_of :: "byte list \<Rightarrow> byte list list option" where
  "segments_of b =
     (if b = [] then Some []
      else if length b < 6 then None
      else if take 4 b \<noteq> TLOG_SEGMENT_MAGIC then Some []
      else
        (let n = u16_of (drop 4 b) in
         if length b < 6 + n then None
         else map_option ((#) (take (n - 1) (drop 6 b))) (segments_of (drop (6 + n) b))))"
  by pat_completeness auto
termination
  by (relation "measure length") auto

declare segments_of.simps [simp del]

section \<open>Putting a line\<close>

text \<open>
  The space for the next line. When the buffer is full (\<open>end = start\<close> with an extended part) the
  variable \<^verbatim>\<open>maxlen\<close> keeps its value.
\<close>

definition free_len :: "nat \<Rightarrow> tlog_log \<Rightarrow> nat" where
  "free_len maxlen log =
     (if l_end log = l_start log then (if l_ext_end log = 0 then buffsize log - l_end log else maxlen)
      else if l_end log > l_start log then buffsize log - l_end log
      else l_start log - l_end log)"

definition tlog_need_drop :: "tlog_log \<Rightarrow> bool \<times> tlog_log" where
  "tlog_need_drop log =
     (if l_block log then (False, log)
      else if free_len 0 log < l_max_line log then (True, log\<lparr>l_dropped := l_dropped log + 1\<rparr>)
      else (False, log))"

text \<open>The copy into the buffer; \<open>None\<close> when it would run past the end of the buffer.\<close>

definition put_line :: "byte list \<Rightarrow> tlog_log \<Rightarrow> tlog_log option" where
  "put_line line log =
     (let bs = (if l_segment log then put_segment line else line) in
      if buffsize log < l_end log + length bs then None
      else
        (let log = log\<lparr>buff := memcpy_at (l_end log) bs (buff log), l_end := l_end log + length bs\<rparr> in
         Some (if int (l_end log) > int (buffsize log) - int (l_max_line log)
               then log\<lparr>l_ext_end := l_end log, l_end := 0\<rparr> else log)))"

section \<open>The worker\<close>

definition tlog_has_data :: "tlog_log \<Rightarrow> bool" where
  "tlog_has_data log \<longleftrightarrow> l_end log \<noteq> l_start log \<or> 0 < l_ext_end log"

text \<open>The local variables of one round of \<^verbatim>\<open>_tlog_work\<close>\<close>

record work =
  log_len :: nat
  log_extlen :: nat
  log_end :: nat
  log_extend :: nat
  log_dropped :: nat

definition work_begin :: "tlog_log \<Rightarrow> work \<times> tlog_log" where
  "work_begin log =
     (let len = (if 0 < l_ext_end log then l_ext_end log - l_start log else 0);
          len = (if l_end log > l_start log then l_end log - l_start log else len) in
      (\<lparr>log_len = len, log_extlen = (if l_end log < l_start log then l_end log else 0),
        log_end = l_end log, log_extend = l_ext_end log, log_dropped = l_dropped log\<rparr>,
       log\<lparr>l_dropped := 0\<rparr>))"

text \<open>\<^verbatim>\<open>_tlog_write_buff_log\<close>: the pieces passed to the output function.\<close>

definition work_chunks :: "work \<Rightarrow> tlog_log \<Rightarrow> byte list list" where
  "work_chunks w log =
     take (log_len w) (drop (l_start log) (buff log)) #
     (if 0 < log_extlen w then [take (log_extlen w) (buff log)] else [])"

definition work_release :: "work \<Rightarrow> tlog_log \<Rightarrow> tlog_log" where
  "work_release w log =
     (let log = log\<lparr>l_start := log_end w\<rparr> in if 0 < log_extend w then log\<lparr>l_ext_end := 0\<rparr> else log)"

section \<open>The ring as a queue\<close>

definition ring_bytes :: "tlog_log \<Rightarrow> byte list" where
  "ring_bytes log =
     (if l_ext_end log = 0 then take (l_end log - l_start log) (drop (l_start log) (buff log))
      else take (l_ext_end log - l_start log) (drop (l_start log) (buff log)) @ take (l_end log) (buff log))"

definition ring_inv :: "tlog_log \<Rightarrow> bool" where
  "ring_inv log \<longleftrightarrow> length (buff log) = buffsize log \<and> 0 < l_max_line log \<and> l_max_line log \<le> buffsize log \<and>
     l_start log + l_max_line log \<le> buffsize log \<and> l_end log + l_max_line log \<le> buffsize log \<and>
     l_ext_end log \<le> buffsize log \<and> \<not> l_segment log \<and>
     (if l_ext_end log = 0 then l_start log \<le> l_end log
      else (l_end log < l_start log \<or> l_start log = 0 \<and> l_end log = 0) \<and> buffsize log < l_ext_end log + l_max_line log)"

text \<open>A round of the worker that began at an earlier state of this log.\<close>

definition work_inv :: "work \<Rightarrow> tlog_log \<Rightarrow> bool" where
  "work_inv w log \<longleftrightarrow>
     (if log_extend w = 0 then
        log_len w = log_end w - l_start log \<and> log_extlen w = 0 \<and> l_start log \<le> log_end w \<and>
        (if l_ext_end log = 0 then log_end w \<le> l_end log else log_end w + l_max_line log \<le> buffsize log)
      else
        log_extend w = l_ext_end log \<and> log_len w = l_ext_end log - l_start log \<and>
        log_extlen w = log_end w \<and> log_end w \<le> l_end log)"

lemma memcpy_length [simp]: "pos + length bs \<le> length b \<Longrightarrow> length (memcpy_at pos bs b) = length b"
  by (simp add: memcpy_at_def)

lemma memcpy_outside:
  assumes "pos + length bs \<le> length b" and "i + n \<le> pos \<or> pos + length bs \<le> i"
  shows "take n (drop i (memcpy_at pos bs b)) = take n (drop i b)"
proof (rule nth_equalityI)
  show l: "length (take n (drop i (memcpy_at pos bs b))) = length (take n (drop i b))"
    using assms(1) by simp
  fix j
  assume "j < length (take n (drop i (memcpy_at pos bs b)))"
  then have j: "j < n" "i + j < length b" using assms(1) by auto
  have "memcpy_at pos bs b ! (i + j) = b ! (i + j)"
    using assms j by (auto simp: memcpy_at_def nth_append)
  then show "take n (drop i (memcpy_at pos bs b)) ! j = take n (drop i b) ! j"
    using j assms(1) by simp
qed

lemma memcpy_append:
  assumes "i \<le> pos" and "pos + length bs \<le> length b"
  shows "take (pos + length bs - i) (drop i (memcpy_at pos bs b)) = take (pos - i) (drop i b) @ bs"
proof -
  have "drop i (memcpy_at pos bs b) = take (pos - i) (drop i b) @ bs @ drop (pos + length bs) b"
    using assms by (simp add: memcpy_at_def drop_take)
  moreover have "length (take (pos - i) (drop i b) @ bs) = pos + length bs - i" using assms by simp
  ultimately show ?thesis by (metis append.assoc append_eq_conv_conj)
qed

text \<open>Putting a line that is not empty and shorter than \<^verbatim>\<open>max_line_size\<close>, when there is room.\<close>

text \<open>What a line put into the ring changes, and what it keeps for a worker that is writing\<close>

definition put_ok :: "byte list \<Rightarrow> tlog_log \<Rightarrow> tlog_log \<Rightarrow> bool" where
  "put_ok line log log' \<longleftrightarrow>
     ring_inv log' \<and> ring_bytes log' = ring_bytes log @ line \<and>
     l_start log' = l_start log \<and> buffsize log' = buffsize log \<and> l_max_line log' = l_max_line log \<and>
     (\<forall>w. work_inv w log \<longrightarrow> work_inv w log' \<and> concat (work_chunks w log') = concat (work_chunks w log))"

lemma put_line_flat:
  assumes inv: "ring_inv log" and flat: "l_ext_end log = 0" and line: "line \<noteq> []" "length line < l_max_line log"
  shows "\<exists>log'. put_line line log = Some log' \<and> put_ok line log log'"
proof -
  let ?b = "memcpy_at (l_end log) line (buff log)"
  have len: "length (buff log) = buffsize log" "l_end log + length line \<le> length (buff log)"
    using inv line by (auto simp: ring_inv_def)
  have se: "l_start log \<le> l_end log" using inv flat by (simp add: ring_inv_def)
  have app: "take (l_end log + length line - l_start log) (drop (l_start log) ?b) = ring_bytes log @ line"
    using memcpy_append [OF se len(2)] flat by (simp add: ring_bytes_def)
  have same: "concat (work_chunks w (log\<lparr>buff := ?b, l_end := e, l_ext_end := x\<rparr>)) = concat (work_chunks w log)"
    if "work_inv w log" for w e x
    using that memcpy_outside [OF len(2), of "l_start log" "log_len w"] flat
    by (cases "log_extend w = 0") (auto simp: work_inv_def work_chunks_def)
  show ?thesis
  proof (cases "int (l_end log + length line) > int (buffsize log) - int (l_max_line log)")
    case True
    define log' where "log' = log\<lparr>buff := ?b, l_end := 0, l_ext_end := l_end log + length line\<rparr>"
    have "put_line line log = Some log'"
      using True len inv by (simp add: put_line_def log'_def ring_inv_def Let_def)
    moreover have "ring_inv log'"
      using True inv line len by (auto simp: ring_inv_def log'_def)
    moreover have "ring_bytes log' = ring_bytes log @ line"
      using app line by (simp add: ring_bytes_def log'_def)
    moreover have "work_inv w log' \<and> concat (work_chunks w log') = concat (work_chunks w log)" if "work_inv w log" for w
      using that same [OF that] flat inv line by (auto simp: work_inv_def log'_def ring_inv_def split: if_splits)
    ultimately show ?thesis by (auto simp: log'_def put_ok_def)
  next
    case False
    define log' where "log' = log\<lparr>buff := ?b, l_end := l_end log + length line\<rparr>"
    have x: "log' = log\<lparr>buff := ?b, l_end := l_end log + length line, l_ext_end := l_ext_end log\<rparr>"
      by (simp add: log'_def)
    have "put_line line log = Some log'"
      using False len inv by (simp add: put_line_def log'_def ring_inv_def Let_def)
    moreover have "ring_inv log'"
      using False inv line len flat by (auto simp: ring_inv_def log'_def)
    moreover have "ring_bytes log' = ring_bytes log @ line"
      using app flat by (simp add: ring_bytes_def log'_def)
    moreover have "work_inv w log' \<and> concat (work_chunks w log') = concat (work_chunks w log)" if "work_inv w log" for w
      using that same [OF that] flat unfolding x by (auto simp: work_inv_def split: if_splits)
    ultimately show ?thesis by (auto simp: log'_def put_ok_def)
  qed
qed

lemma put_line_wrapped:
  assumes inv: "ring_inv log" and wrapped: "l_ext_end log \<noteq> 0" and room: "l_max_line log \<le> free_len m log" "m < l_max_line log"
    and line: "line \<noteq> []" "length line < l_max_line log"
  shows "\<exists>log'. put_line line log = Some log' \<and> put_ok line log log'"
proof -
  let ?b = "memcpy_at (l_end log) line (buff log)"
  have len: "length (buff log) = buffsize log" "l_end log + length line \<le> length (buff log)"
    using inv line by (auto simp: ring_inv_def)
  have es: "l_end log < l_start log" "l_max_line log \<le> l_start log - l_end log"
    using inv room wrapped by (auto simp: ring_inv_def free_len_def split: if_splits)
  have low: "\<not> int (l_end log + length line) > int (buffsize log) - int (l_max_line log)"
    using inv es line by (auto simp: ring_inv_def)
  define log' where "log' = log\<lparr>buff := ?b, l_end := l_end log + length line\<rparr>"
  have up: "take n (drop (l_start log) ?b) = take n (drop (l_start log) (buff log))" for n
    using memcpy_outside [OF len(2), of "l_start log" n] es line by auto
  have "take (l_end log + length line) ?b = take (l_end log) (buff log) @ line"
    using memcpy_append [of 0 "l_end log" line "buff log"] len by simp
  then have "ring_bytes log' = ring_bytes log @ line"
    using wrapped up by (simp add: ring_bytes_def log'_def)
  moreover have "put_line line log = Some log'"
    using low len inv by (simp add: put_line_def log'_def ring_inv_def Let_def)
  moreover have "ring_inv log'" using inv es line low len wrapped by (auto simp: ring_inv_def log'_def)
  moreover have "work_inv w log' \<and> concat (work_chunks w log') = concat (work_chunks w log)" if "work_inv w log" for w
  proof -
    have "take (log_extlen w) ?b = take (log_extlen w) (buff log)"
      using memcpy_outside [OF len(2), of 0 "log_extlen w"] that wrapped by (auto simp: work_inv_def split: if_splits)
    then show ?thesis using that up by (auto simp: work_inv_def log'_def work_chunks_def)
  qed
  ultimately show ?thesis by (auto simp: log'_def put_ok_def)
qed

lemma put_line_spec:
  assumes inv: "ring_inv log" and room: "l_max_line log \<le> free_len m log" "m < l_max_line log"
    and line: "line \<noteq> []" "length line < l_max_line log"
  shows "\<exists>log'. put_line line log = Some log' \<and> ring_inv log' \<and> ring_bytes log' = ring_bytes log @ line \<and>
           l_start log' = l_start log \<and> buffsize log' = buffsize log \<and> l_max_line log' = l_max_line log \<and>
           (\<forall>w. work_inv w log \<longrightarrow> work_inv w log' \<and> concat (work_chunks w log') = concat (work_chunks w log))"
  using put_line_flat [OF inv _ line] put_line_wrapped [OF inv _ room line] unfolding put_ok_def by blast

lemma work_begin_spec:
  assumes "ring_inv log" and "work_begin log = (w, log')"
  shows "ring_inv log' \<and> ring_bytes log' = ring_bytes log \<and> work_inv w log'"
  using assms by (auto simp: work_begin_def Let_def ring_inv_def ring_bytes_def work_inv_def split: if_splits)

text \<open>What the worker writes is the front of the queue, and releasing it leaves the rest.\<close>

lemma work_release_spec:
  assumes "ring_inv log" and "work_inv w log"
  shows "ring_bytes log = concat (work_chunks w log) @ ring_bytes (work_release w log) \<and> ring_inv (work_release w log)"
proof (cases "log_extend w = 0")
  case flat: True
  then have w: "log_len w = log_end w - l_start log" "log_extlen w = 0" "l_start log \<le> log_end w"
    using assms(2) by (auto simp: work_inv_def)
  have c: "concat (work_chunks w log) = take (log_end w - l_start log) (drop (l_start log) (buff log))"
    using w by (simp add: work_chunks_def)
  have split: "take (k - l_start log) (drop (l_start log) (buff log)) =
      take (log_end w - l_start log) (drop (l_start log) (buff log)) @ take (k - log_end w) (drop (log_end w) (buff log))"
    if "log_end w \<le> k" for k
    using take_add [of "log_end w - l_start log" "k - log_end w" "drop (l_start log) (buff log)"] that w(3) by simp
  show ?thesis
  proof (cases "l_ext_end log = 0")
    case True
    then have "log_end w \<le> l_end log" using assms(2) flat by (simp add: work_inv_def)
    then show ?thesis using flat True c split [of "l_end log"] assms(1)
      by (auto simp: ring_bytes_def work_release_def ring_inv_def)
  next
    case False
    then have "log_end w + l_max_line log \<le> buffsize log" "log_end w \<le> l_ext_end log"
      using assms flat by (auto simp: work_inv_def ring_inv_def)
    then show ?thesis using flat False c split [of "l_ext_end log"] assms(1) w(3)
      by (auto simp: ring_bytes_def work_release_def ring_inv_def)
  qed
next
  case wrapped: False
  then have w: "log_extend w = l_ext_end log" "log_len w = l_ext_end log - l_start log" "log_extlen w = log_end w"
    "log_end w \<le> l_end log" using assms(2) by (auto simp: work_inv_def)
  have "take (l_end log) (buff log) = take (log_end w) (buff log) @ take (l_end log - log_end w) (drop (log_end w) (buff log))"
    using take_add [of "log_end w" "l_end log - log_end w" "buff log"] w(4) by simp
  then show ?thesis using wrapped w assms(1)
    by (auto simp: ring_bytes_def work_release_def work_chunks_def ring_inv_def)
qed

section \<open>Segments round trip\<close>

lemma u16_roundtrip: "n < 65536 \<Longrightarrow> u16_of (u16_bytes n @ rest) = n"
  by (simp add: u16_of_def u16_bytes_def unsigned_of_nat take_bit_eq_mod mult.commute)

lemma put_segment_not_empty [simp]: "put_segment m \<noteq> []"
  by (simp add: put_segment_def)

lemma segments_of_put:
  assumes "length m < 65535"
  shows "segments_of (put_segment m @ rest) = map_option ((#) m) (segments_of rest)"
proof -
  let ?b = "put_segment m @ rest" and ?n = "length m + 1"
  have b: "?b \<noteq> []" "take 4 ?b = TLOG_SEGMENT_MAGIC" "length ?b = 6 + ?n + length rest"
    "drop 4 ?b = u16_bytes ?n @ m @ [0] @ rest"
    by (simp_all add: put_segment_def TLOG_SEGMENT_MAGIC_def u16_bytes_def)
  have "u16_of (drop 4 ?b) = ?n" unfolding b(4) using assms by (intro u16_roundtrip) simp
  moreover have "length (put_segment m) = 6 + ?n" by (simp add: put_segment_def TLOG_SEGMENT_MAGIC_def u16_bytes_def)
  then have "drop (6 + ?n) ?b = rest" by simp
  moreover have "drop 6 ?b = m @ [0] @ rest" by (simp add: put_segment_def TLOG_SEGMENT_MAGIC_def u16_bytes_def)
  ultimately show ?thesis using b(1-3) by (subst segments_of.simps) (simp add: Let_def)
qed

text \<open>
  Segments. The segments written by \<^verbatim>\<open>_tlog_vprintf\<close> for any messages of less than 65535 bytes, one
  after the other, are read back by \<^verbatim>\<open>_tlog_write_one_segment_log\<close> as exactly these messages in order,
  without reading past the end.
\<close>

lemma segments_roundtrip:
  assumes "\<forall>m \<in> set msgs. length m < 65535"
  shows "segments_of (concat (map put_segment msgs)) = Some msgs"
  using assms
proof (induction msgs)
  case Nil
  show ?case by (simp add: segments_of.simps)
next
  case (Cons m msgs)
  then show ?case by (simp add: segments_of_put)
qed

lemma segments_roundtrip_witness:
  "segments_of (concat (map put_segment [[65, 66], [], [10]])) = Some [[65, 66], [], [10]]"
  by (rule segments_roundtrip) simp

text \<open>
  In segment mode the header and the terminator are not counted when the room is checked: with exactly
  the room for one line left, a line whose length is within six bytes of \<^verbatim>\<open>max_line_size\<close> is written past the
  end of the buffer.
\<close>

lemma segment_overruns_buffer:
  assumes "l_segment log" and "l_end log + l_max_line log = buffsize log" and "l_start log \<le> l_end log" and "l_ext_end log = 0"
    and "l_max_line log < length line + 7" and "length line \<le> l_max_line log"
  shows "l_max_line log \<le> free_len 0 log \<and> put_line line log = None"
  using assms by (auto simp: free_len_def put_line_def put_segment_def TLOG_SEGMENT_MAGIC_def u16_bytes_def)

lemma segment_overruns_buffer_witness:
  "put_line (replicate 10 65)
     \<lparr>buff = replicate 20 0, buffsize = 20, l_start = 10, l_end = 10, l_ext_end = 0, l_block = True, l_dropped = 0,
      l_segment = True, l_max_line = 10, l_waiters = 0\<rparr> = None"
  using segment_overruns_buffer [of "\<lparr>buff = replicate 20 0, buffsize = 20, l_start = 10, l_end = 10, l_ext_end = 0, l_block = True,
      l_dropped = 0, l_segment = True, l_max_line = 10, l_waiters = 0\<rparr>" "replicate 10 65"] by simp

end
