(* ===== verification/Tlog_Work.thy ===== *)
theory Tlog_Work
  imports Tlog_Ring
begin

text \<open>
  The threads around the ring buffer of \<^verbatim>\<open>tlog.c\<close>: any number of threads in \<^verbatim>\<open>_tlog_vprintf\<close> and the
  worker in \<^verbatim>\<open>_tlog_work\<close>, as a step relation whose rules are the stretches of code between two
  lock operations. The log is a blocking one without segments, as the copytool opens it, and the only one. The
  theorems: what the worker has written and what is still in the ring is what the threads have put, in
  order; when the worker stops at exit everything has been written; a thread can miss its wake-up; and a line of exactly
  \<^verbatim>\<open>max_line_size\<close> bytes can be lost.
\<close>

section \<open>State\<close>

text \<open>A thread in \<^verbatim>\<open>_tlog_vprintf\<close> with its line and the value of \<^verbatim>\<open>maxlen\<close>\<close>

datatype producer =
    Away
  | Trying "byte list" nat      \<comment> \<open>before pthread\_mutex\_lock(\&tlog.lock)\<close>
  | Blocked "byte list" nat     \<comment> \<open>no room, tlog.lock released, before pthread\_mutex\_lock(\&log->lock)\<close>
  | Sleeping "byte list" nat    \<comment> \<open>in pthread\_cond\_wait(\&log->client\_cond)\<close>
  | Woken "byte list" nat       \<comment> \<open>woken, before waiters--\<close>

datatype worker =
    Check            \<comment> \<open>top of the loop of \_tlog\_work\<close>
  | Asleep           \<comment> \<open>in \_tlog\_wait\_log\_locked\<close>
  | Began work       \<comment> \<open>took the positions, before \_tlog\_work\_write\<close>
  | Wrote work       \<comment> \<open>after \_tlog\_work\_write\<close>
  | Waking           \<comment> \<open>released the space, before \_tlog\_wakeup\_waiters\<close>
  | Stopped

text \<open>The last two fields record the lines put and the pieces written so far.\<close>

record tlog =
  t_log :: tlog_log
  t_worker :: worker
  t_run :: bool
  t_thread :: "nat \<Rightarrow> producer"
  t_in :: "byte list list"
  t_out :: "byte list list"

abbreviation at :: "tlog \<Rightarrow> nat \<Rightarrow> producer \<Rightarrow> tlog" where
  "at s i p \<equiv> s\<lparr>t_thread := (t_thread s)(i := p)\<rparr>"

definition new_log :: "nat \<Rightarrow> nat \<Rightarrow> tlog_log" where
  "new_log bsz max_line =
     \<lparr>buff = replicate bsz 0, buffsize = bsz, l_start = 0, l_end = 0, l_ext_end = 0, l_block = True, l_dropped = 0,
      l_segment = False, l_max_line = max_line, l_waiters = 0\<rparr>"

definition tlog_start :: "nat \<Rightarrow> nat \<Rightarrow> tlog" where
  "tlog_start bsz max_line =
     \<lparr>t_log = new_log bsz max_line, t_worker = Check, t_run = True, t_thread = (\<lambda>_. Away), t_in = [], t_out = []\<rparr>"

section \<open>Code between lock operations\<close>

text \<open>\<^verbatim>\<open>pthread_cond_signal(&tlog.cond)\<close>: only the worker waits on it.\<close>

definition signal_worker :: "tlog \<Rightarrow> tlog" where
  "signal_worker s = (if t_worker s = Asleep then s\<lparr>t_worker := Check\<rparr> else s)"

text \<open>
  \<^verbatim>\<open>_tlog_vprintf\<close> under \<^verbatim>\<open>tlog.lock\<close>: put the line, drop it, or go and wait. \<open>None\<close> is a write
  past the buffer.
\<close>

definition vprintf_locked :: "nat \<Rightarrow> byte list \<Rightarrow> nat \<Rightarrow> tlog \<Rightarrow> tlog option" where
  "vprintf_locked i line maxlen s =
     (let log = t_log s; maxlen = free_len maxlen log in
      if maxlen < l_max_line log then
        (let s = (if l_end log \<noteq> l_start log then signal_worker s else s) in
         if \<not> l_block log then Some (at (s\<lparr>t_log := log\<lparr>l_dropped := l_dropped log + 1\<rparr>\<rparr>) i Away)
         else Some (at s i (Blocked line maxlen)))
      else
        map_option (\<lambda>log. signal_worker (at (s\<lparr>t_log := log, t_in := t_in s @ [line]\<rparr>) i Away)) (put_line line log))"

definition wait_enter :: "nat \<Rightarrow> byte list \<Rightarrow> nat \<Rightarrow> tlog \<Rightarrow> tlog" where
  "wait_enter i line maxlen s =
     at (s\<lparr>t_log := (t_log s)\<lparr>l_waiters := l_waiters (t_log s) + 1\<rparr>\<rparr>) i (Sleeping line maxlen)"

definition wait_leave :: "nat \<Rightarrow> byte list \<Rightarrow> nat \<Rightarrow> tlog \<Rightarrow> tlog" where
  "wait_leave i line maxlen s =
     at (s\<lparr>t_log := (t_log s)\<lparr>l_waiters := l_waiters (t_log s) - 1\<rparr>\<rparr>) i (Trying line maxlen)"

text \<open>\<^verbatim>\<open>_tlog_work\<close> from the top of the loop to the release of the lock\<close>

definition work_check :: "tlog \<Rightarrow> tlog" where
  "work_check s =
     (if \<not> tlog_has_data (t_log s) then s\<lparr>t_worker := (if t_run s then Asleep else Stopped)\<rparr>
      else (let (w, log) = work_begin (t_log s) in s\<lparr>t_log := log, t_worker := Began w\<rparr>))"

text \<open>\<^verbatim>\<open>_tlog_work_write\<close>; the note about dropped lines is an uninitialised array (\<open>junk\<close>).\<close>

definition work_write :: "byte list \<Rightarrow> work \<Rightarrow> tlog \<Rightarrow> tlog" where
  "work_write junk w s =
     s\<lparr>t_out := t_out s @ work_chunks w (t_log s) @ (if 0 < log_dropped w then [junk] else []), t_worker := Wrote w\<rparr>"

definition work_end :: "work \<Rightarrow> tlog \<Rightarrow> tlog" where
  "work_end w s = s\<lparr>t_log := work_release w (t_log s), t_worker := Waking\<rparr>"

fun wake :: "producer \<Rightarrow> producer" where
  "wake (Sleeping line m) = Woken line m"
| "wake p = p"

definition tlog_wakeup_waiters :: "tlog \<Rightarrow> tlog" where
  "tlog_wakeup_waiters s =
     (let s = s\<lparr>t_worker := Check\<rparr> in if 0 < l_waiters (t_log s) then s\<lparr>t_thread := wake \<circ> t_thread s\<rparr> else s)"

section \<open>Steps\<close>

text \<open>
  \<open>L\<close> are the lines the callers print; \<open>T\<close> the threads. Both condition variables may wake up
  spuriously, and \<^verbatim>\<open>tlog_exit\<close> clears \<^verbatim>\<open>tlog.run\<close> and signals the worker.
\<close>

inductive tlog_step :: "(byte list \<Rightarrow> bool) \<Rightarrow> nat set \<Rightarrow> tlog \<Rightarrow> tlog \<Rightarrow> bool" for L T where
  print: "i \<in> T \<Longrightarrow> t_thread s i = Away \<Longrightarrow> L line \<Longrightarrow> tlog_step L T s (at s i (Trying line 0))"
| put_or_block: "i \<in> T \<Longrightarrow> t_thread s i = Trying line m \<Longrightarrow> vprintf_locked i line m s = Some s' \<Longrightarrow> tlog_step L T s s'"
| sleep: "i \<in> T \<Longrightarrow> t_thread s i = Blocked line m \<Longrightarrow> tlog_step L T s (wait_enter i line m s)"
| spurious: "i \<in> T \<Longrightarrow> t_thread s i = Sleeping line m \<Longrightarrow> tlog_step L T s (at s i (Woken line m))"
| retry: "i \<in> T \<Longrightarrow> t_thread s i = Woken line m \<Longrightarrow> tlog_step L T s (wait_leave i line m s)"
| check: "t_worker s = Check \<Longrightarrow> tlog_step L T s (work_check s)"
| spurious_worker: "t_worker s = Asleep \<Longrightarrow> tlog_step L T s (s\<lparr>t_worker := Check\<rparr>)"
| work_out: "t_worker s = Began w \<Longrightarrow> tlog_step L T s (work_write junk w s)"
| finish: "t_worker s = Wrote w \<Longrightarrow> tlog_step L T s (work_end w s)"
| wakeup: "t_worker s = Waking \<Longrightarrow> tlog_step L T s (tlog_wakeup_waiters s)"
| exit: "tlog_step L T s (signal_worker (s\<lparr>t_run := False\<rparr>))"

inductive tlog_reach :: "(byte list \<Rightarrow> bool) \<Rightarrow> nat set \<Rightarrow> nat \<Rightarrow> nat \<Rightarrow> tlog \<Rightarrow> bool" for L T bsz max_line where
  start: "tlog_reach L T bsz max_line (tlog_start bsz max_line)"
| step: "tlog_reach L T bsz max_line s \<Longrightarrow> tlog_step L T s s' \<Longrightarrow> tlog_reach L T bsz max_line s'"

inductive_cases tlog_stepE: "tlog_step L T s s'"

section \<open>The queue invariant\<close>

text \<open>Lines the ring keeps in order.\<close>

definition short_lines :: "nat \<Rightarrow> byte list \<Rightarrow> bool" where
  "short_lines max_line line \<longleftrightarrow> line \<noteq> [] \<and> length line < max_line"

text \<open>What is still to be written: during a round, what the round leaves.\<close>

fun unwritten :: "worker \<Rightarrow> tlog_log \<Rightarrow> byte list" where
  "unwritten (Wrote w) log = ring_bytes (work_release w log)"
| "unwritten _ log = ring_bytes log"

fun round_inv :: "worker \<Rightarrow> tlog_log \<Rightarrow> bool" where
  "round_inv (Began w) log = (work_inv w log \<and> log_dropped w = 0)"
| "round_inv (Wrote w) log = work_inv w log"
| "round_inv _ log = True"

fun producer_inv :: "nat \<Rightarrow> producer \<Rightarrow> bool" where
  "producer_inv max_line Away = True"
| "producer_inv max_line (Trying line m) = (short_lines max_line line \<and> m < max_line)"
| "producer_inv max_line (Blocked line m) = (short_lines max_line line \<and> m < max_line)"
| "producer_inv max_line (Sleeping line m) = (short_lines max_line line \<and> m < max_line)"
| "producer_inv max_line (Woken line m) = (short_lines max_line line \<and> m < max_line)"

definition queue_inv :: "nat \<Rightarrow> tlog \<Rightarrow> bool" where
  "queue_inv max_line s \<longleftrightarrow> ring_inv (t_log s) \<and> l_max_line (t_log s) = max_line \<and> l_block (t_log s) \<and> l_dropped (t_log s) = 0 \<and>
     round_inv (t_worker s) (t_log s) \<and> (\<forall>i. producer_inv max_line (t_thread s i)) \<and>
     concat (t_out s) @ unwritten (t_worker s) (t_log s) = concat (t_in s)"

lemma queue_inv_start: "0 < max_line \<Longrightarrow> max_line \<le> bsz \<Longrightarrow> queue_inv max_line (tlog_start bsz max_line)"
  by (simp add: queue_inv_def tlog_start_def new_log_def ring_inv_def ring_bytes_def)

text \<open>A signal to the worker changes nothing the invariant speaks of.\<close>

lemma queue_inv_signal [simp]: "queue_inv max_line (signal_worker s) = queue_inv max_line s"
  by (simp add: signal_worker_def queue_inv_def)

lemma signal_worker_simps [simp]:
  "t_log (signal_worker s) = t_log s" "t_thread (signal_worker s) = t_thread s" "t_in (signal_worker s) = t_in s"
  "t_out (signal_worker s) = t_out s" "t_run (signal_worker s) = t_run s"
  by (simp_all add: signal_worker_def)

lemma queue_inv_at:
  "queue_inv max_line s \<Longrightarrow> producer_inv max_line p \<Longrightarrow> queue_inv max_line (at s i p)"
  by (simp add: queue_inv_def)

lemma queue_inv_waiters [simp]:
  "queue_inv max_line (s\<lparr>t_log := (t_log s)\<lparr>l_waiters := n\<rparr>\<rparr>) = queue_inv max_line s"
proof -
  have "ring_inv (log\<lparr>l_waiters := n\<rparr>) = ring_inv log" "ring_bytes (log\<lparr>l_waiters := n\<rparr>) = ring_bytes log"
    "work_inv w (log\<lparr>l_waiters := n\<rparr>) = work_inv w log"
    "ring_bytes (work_release w (log\<lparr>l_waiters := n\<rparr>)) = ring_bytes (work_release w log)" for log :: tlog_log and w
    by (simp_all add: ring_inv_def ring_bytes_def work_inv_def work_release_def Let_def)
  then show ?thesis by (cases "t_worker s") (simp_all add: queue_inv_def)
qed

lemma queue_inv_wait:
  "queue_inv max_line s \<Longrightarrow> producer_inv max_line p \<Longrightarrow>
     queue_inv max_line (at (s\<lparr>t_log := (t_log s)\<lparr>l_waiters := n\<rparr>\<rparr>) i p)"
  by (rule queue_inv_at) simp_all

lemma queue_inv_put:
  assumes inv: "queue_inv max_line s" and room: "max_line \<le> free_len m (t_log s)" "m < max_line"
    and line: "short_lines max_line line" and put: "put_line line (t_log s) = Some log"
  shows "queue_inv max_line (s\<lparr>t_log := log, t_in := t_in s @ [line]\<rparr>)"
proof -
  have q: "ring_inv (t_log s)" "l_max_line (t_log s) = max_line" "l_block (t_log s)" "l_dropped (t_log s) = 0"
    "round_inv (t_worker s) (t_log s)" "concat (t_out s) @ unwritten (t_worker s) (t_log s) = concat (t_in s)"
    using inv by (simp_all add: queue_inv_def)
  have p: "ring_inv log" "ring_bytes log = ring_bytes (t_log s) @ line" "l_max_line log = max_line"
    "\<And>w. work_inv w (t_log s) \<Longrightarrow> work_inv w log \<and> concat (work_chunks w log) = concat (work_chunks w (t_log s))"
    using put_line_spec [OF q(1), of m line] q(2) room line put by (auto simp: short_lines_def)
  have k: "l_block log" "l_dropped log = 0" using put q(3,4) by (auto simp: put_line_def Let_def split: if_splits)
  have "unwritten (t_worker s) log = unwritten (t_worker s) (t_log s) @ line"
  proof (cases "t_worker s")
    case (Wrote w)
    then have w: "work_inv w (t_log s)" using q(5) by simp
    have "ring_bytes (t_log s) @ line = concat (work_chunks w (t_log s)) @ ring_bytes (work_release w log)"
      using work_release_spec [OF p(1), of w] p(2) p(4) [OF w] by simp
    then show ?thesis using Wrote work_release_spec [OF q(1) w] by simp
  qed (simp_all add: p(2))
  moreover have "round_inv (t_worker s) log" using q(5) p(4) by (cases "t_worker s") auto
  ultimately show ?thesis using inv p k q(6) by (simp add: queue_inv_def)
qed

lemma queue_inv_vprintf:
  assumes inv: "queue_inv max_line s" and p: "producer_inv max_line (Trying line m)"
    and v: "vprintf_locked i line m s = Some s'"
  shows "queue_inv max_line s'"
proof (cases "free_len m (t_log s) < l_max_line (t_log s)")
  case True
  then have "producer_inv max_line (Blocked line (free_len m (t_log s)))" using p inv by (simp add: queue_inv_def)
  moreover have "s' = at (if l_end (t_log s) \<noteq> l_start (t_log s) then signal_worker s else s) i (Blocked line (free_len m (t_log s)))"
    using True v inv by (simp add: vprintf_locked_def Let_def queue_inv_def split: if_splits)
  ultimately show ?thesis using inv by (simp add: queue_inv_at)
next
  case False
  then obtain log where l: "put_line line (t_log s) = Some log"
    "s' = signal_worker (at (s\<lparr>t_log := log, t_in := t_in s @ [line]\<rparr>) i Away)"
    using v by (auto simp: vprintf_locked_def Let_def)
  have "queue_inv max_line (s\<lparr>t_log := log, t_in := t_in s @ [line]\<rparr>)"
    using False inv p by (intro queue_inv_put [OF inv _ _ _ l(1), of m]) (auto simp: queue_inv_def)
  then show ?thesis unfolding l(2) queue_inv_signal by (rule queue_inv_at) simp
qed

lemma queue_inv_check: "queue_inv max_line s \<Longrightarrow> t_worker s = Check \<Longrightarrow> queue_inv max_line (work_check s)"
proof -
  assume inv: "queue_inv max_line s" and c: "t_worker s = Check"
  obtain w log where w: "work_begin (t_log s) = (w, log)" by (metis surj_pair)
  have "l_max_line log = l_max_line (t_log s)" "l_block log = l_block (t_log s)" "l_dropped log = 0"
    "log_dropped w = l_dropped (t_log s)" using w by (auto simp: work_begin_def Let_def)
  then show ?thesis using inv c w work_begin_spec [OF _ w]
    by (auto simp: work_check_def queue_inv_def)
qed

lemma queue_inv_step:
  assumes step: "tlog_step L T s s'" and inv: "queue_inv max_line s" and L: "\<And>line. L line \<Longrightarrow> short_lines max_line line"
  shows "queue_inv max_line s'"
  using step
proof (cases rule: tlog_step.cases)
  case (print i line)
  then have "producer_inv max_line (Trying line 0)" using inv L by (auto simp: queue_inv_def ring_inv_def)
  then show ?thesis using inv print by (simp add: queue_inv_at)
next
  case (put_or_block i line m)
  then have "producer_inv max_line (Trying line m)" using inv by (metis queue_inv_def)
  then show ?thesis using queue_inv_vprintf [OF inv] put_or_block by blast
next
  case (sleep i line m)
  then have "producer_inv max_line (Sleeping line m)" using inv by (metis queue_inv_def producer_inv.simps)
  then show ?thesis using queue_inv_wait [OF inv] sleep(1) unfolding wait_enter_def by blast
next
  case (spurious i line m)
  then have "producer_inv max_line (Woken line m)" using inv by (metis queue_inv_def producer_inv.simps)
  then show ?thesis using inv spurious by (auto intro!: queue_inv_at)
next
  case (retry i line m)
  then have "producer_inv max_line (Trying line m)" using inv by (metis queue_inv_def producer_inv.simps)
  then show ?thesis using queue_inv_wait [OF inv] retry(1) unfolding wait_leave_def by blast
next
  case check
  then show ?thesis using queue_inv_check [OF inv] by simp
next
  case spurious_worker
  then show ?thesis using inv by (simp add: queue_inv_def)
next
  case (work_out w junk)
  then have "ring_inv (t_log s)" "work_inv w (t_log s)" "log_dropped w = 0" using inv by (auto simp: queue_inv_def)
  then show ?thesis using inv work_out work_release_spec [of "t_log s" w]
    by (auto simp: work_write_def queue_inv_def)
next
  case (finish w)
  then have "ring_inv (t_log s)" "work_inv w (t_log s)" using inv by (auto simp: queue_inv_def)
  moreover have "l_max_line (work_release w (t_log s)) = l_max_line (t_log s)" "l_block (work_release w (t_log s)) = l_block (t_log s)"
    "l_dropped (work_release w (t_log s)) = l_dropped (t_log s)"
    by (simp_all add: work_release_def Let_def)
  ultimately show ?thesis using inv finish work_release_spec [of "t_log s" w]
    by (auto simp: work_end_def queue_inv_def)
next
  case wakeup
  have "producer_inv max_line (wake p) = producer_inv max_line p" for p by (cases p) auto
  then show ?thesis using inv wakeup by (auto simp: tlog_wakeup_waiters_def queue_inv_def Let_def)
next
  case exit
  have "queue_inv max_line (s\<lparr>t_run := False\<rparr>)" using inv by (simp add: queue_inv_def)
  then show ?thesis using exit by simp
qed

lemma queue_inv_reach:
  assumes "tlog_reach L T bsz max_line s" and "0 < max_line" and "max_line \<le> bsz"
    and "\<And>line. L line \<Longrightarrow> short_lines max_line line"
  shows "queue_inv max_line s"
  using assms
proof (induction rule: tlog_reach.induct)
  case start
  then show ?case by (simp add: queue_inv_start)
next
  case (step s s')
  then show ?case using queue_inv_step by blast
qed

section \<open>Theorems\<close>

text \<open>
  The log is a queue. In every interleaving of any number of threads with the worker, also while the worker
  writes without the lock, the bytes written so far followed by the bytes still in the ring are the lines
  put so far, in the order in which they were put; nothing is lost, duplicated or reordered, as long as
  the lines are not empty and shorter than \<^verbatim>\<open>max_line_size\<close>.
\<close>

lemma tlog_queue:
  assumes "tlog_reach (short_lines max_line) T bsz max_line s" and "0 < max_line" and "max_line \<le> bsz"
  shows "concat (t_out s) @ unwritten (t_worker s) (t_log s) = concat (t_in s)"
  using queue_inv_reach [OF assms] by (simp add: queue_inv_def)

text \<open>
  The abstract log: the bytes written and the bytes waiting. A line joins the end of what waits; the
  writer takes some bytes from its front.
\<close>

inductive queue_step :: "byte list \<times> byte list \<Rightarrow> byte list \<times> byte list \<Rightarrow> bool" where
  idle: "queue_step q q"
| enqueue: "queue_step (done, waiting) (done, waiting @ line)"
| dequeue: "queue_step (done, bs @ waiting) (done @ bs, waiting)"

definition abstract_log :: "tlog \<Rightarrow> byte list \<times> byte list" where
  "abstract_log s = (concat (t_out s), unwritten (t_worker s) (t_log s))"

lemma step_io:
  assumes "tlog_step L T s s'"
  shows "\<exists>x y. t_out s' = t_out s @ x \<and> t_in s' = t_in s @ y \<and> (x = [] \<or> y = [])"
  using assms
  by cases (auto simp: vprintf_locked_def Let_def signal_worker_def wait_enter_def wait_leave_def work_check_def work_write_def
      work_end_def tlog_wakeup_waiters_def split: if_splits prod.splits)


text \<open>
  No write past the buffer. In every state that can be reached, a thread that finds room puts its
  line inside the buffer.
\<close>

lemma tlog_put_safe:
  assumes "tlog_reach (short_lines max_line) T bsz max_line s" and "0 < max_line" and "max_line \<le> bsz"
    and "t_thread s i = Trying line m"
  shows "\<exists>s'. vprintf_locked i line m s = Some s'"
proof -
  have inv: "queue_inv max_line s" by (rule queue_inv_reach [OF assms(1-3)])
  then have "producer_inv max_line (Trying line m)" by (metis assms(4) queue_inv_def)
  then show ?thesis using inv put_line_spec [of "t_log s" m line]
    by (auto simp: vprintf_locked_def Let_def queue_inv_def short_lines_def not_less)
qed

text \<open>
  Flush at exit. When the worker leaves its loop, which it does only after \<^verbatim>\<open>tlog_exit\<close>, everything
  put before has been written.
\<close>

lemma tlog_exit_flushes:
  assumes "tlog_reach (short_lines max_line) T bsz max_line s" and "0 < max_line" and "max_line \<le> bsz"
    and "t_worker s = Check" and "t_worker (work_check s) = Stopped"
  shows "concat (t_out (work_check s)) = concat (t_in (work_check s)) \<and> \<not> t_run s"
proof -
  have inv: "queue_inv max_line s" by (rule queue_inv_reach [OF assms(1-3)])
  have "\<not> tlog_has_data (t_log s) \<and> \<not> t_run s"
    using assms(5) by (auto simp: work_check_def split: if_splits prod.splits)
  moreover from this have "ring_bytes (t_log s) = []" by (auto simp: tlog_has_data_def ring_bytes_def)
  ultimately show ?thesis using inv assms(4) by (auto simp: queue_inv_def work_check_def)
qed

section \<open>Runs that go wrong\<close>

text \<open>Runs as lists of moves; \<open>play\<close> does what the rule of the same name does.\<close>

datatype move = Print nat "byte list" | Try nat | Sleep nat | Retry nat | Work

fun play :: "move \<Rightarrow> tlog \<Rightarrow> tlog option" where
  "play (Print i line) s = (if t_thread s i = Away then Some (at s i (Trying line 0)) else None)"
| "play (Try i) s = (case t_thread s i of Trying line m \<Rightarrow> vprintf_locked i line m s | _ \<Rightarrow> None)"
| "play (Sleep i) s = (case t_thread s i of Blocked line m \<Rightarrow> Some (wait_enter i line m s) | _ \<Rightarrow> None)"
| "play (Retry i) s = (case t_thread s i of Woken line m \<Rightarrow> Some (wait_leave i line m s) | _ \<Rightarrow> None)"
| "play Work s =
     (case t_worker s of
        Check \<Rightarrow> Some (work_check s)
      | Began w \<Rightarrow> Some (work_write [] w s)
      | Wrote w \<Rightarrow> Some (work_end w s)
      | Waking \<Rightarrow> Some (tlog_wakeup_waiters s)
      | _ \<Rightarrow> None)"

primrec plays :: "move list \<Rightarrow> tlog \<Rightarrow> tlog option" where
  "plays [] s = Some s"
| "plays (m # ms) s = (case play m s of None \<Rightarrow> None | Some s' \<Rightarrow> plays ms s')"

fun move_ok :: "(byte list \<Rightarrow> bool) \<Rightarrow> nat set \<Rightarrow> move \<Rightarrow> bool" where
  "move_ok L T (Print i line) = (i \<in> T \<and> L line)"
| "move_ok L T (Try i) = (i \<in> T)"
| "move_ok L T (Sleep i) = (i \<in> T)"
| "move_ok L T (Retry i) = (i \<in> T)"
| "move_ok L T Work = True"

lemma play_step: "play m s = Some s' \<Longrightarrow> move_ok L T m \<Longrightarrow> tlog_step L T s s'"
  by (cases m) (auto split: if_splits producer.splits worker.splits intro: tlog_step.intros)

lemma plays_reach:
  assumes "plays ms s = Some s'" and "\<forall>m \<in> set ms. move_ok L T m" and "tlog_reach L T bsz max_line s"
  shows "tlog_reach L T bsz max_line s'"
  using assms
proof (induction ms arbitrary: s)
  case (Cons m ms)
  then obtain u where "play m s = Some u" "plays ms u = Some s'" by (auto split: option.splits)
  then show ?case using Cons play_step tlog_reach.step by (metis list.set_intros)
qed simp

lemmas play_defs = tlog_start_def new_log_def vprintf_locked_def free_len_def put_line_def memcpy_at_def signal_worker_def
  work_check_def tlog_has_data_def work_begin_def work_write_def work_chunks_def work_end_def work_release_def
  tlog_wakeup_waiters_def wait_enter_def wait_leave_def eval_nat_numeral

abbreviation log_lines :: "byte list list \<Rightarrow> move list" where
  "log_lines ls \<equiv> concat (map (\<lambda>l. [Print 0 l, Try 0]) ls)"

text \<open>
  C38. A lost wake-up. A thread that finds the ring full releases \<^verbatim>\<open>tlog.lock\<close> before it registers as a
  waiter; if the worker empties the ring in between it wakes nobody and goes to sleep. A state can be
  reached in which a thread sleeps although the ring is empty, and the worker sleeps as well: only
  another thread's line, the exit or a spurious wake-up moves anything.
\<close>

theorem tlog_lost_wakeup:
  "\<exists>s. tlog_reach (short_lines 2) {0} 4 2 s \<and> t_thread s 0 = Sleeping [4] 0 \<and> t_worker s = Asleep \<and>
       ring_bytes (t_log s) = [] \<and>
       (\<forall>s'. tlog_step (short_lines 2) {0} s s' \<longrightarrow>
          t_thread s' 0 = Woken [4] 0 \<or> t_worker s' = Check \<or> (t_run s' = False))"
proof -
  let ?ms = "log_lines [[1], [2], [3], [4]] @ replicate 5 Work @ [Sleep 0]"
  obtain s where s: "plays ?ms (tlog_start 4 2) = Some s" "t_thread s 0 = Sleeping [4] 0" "t_worker s = Asleep"
    "ring_bytes (t_log s) = []" by (simp add: play_defs ring_bytes_def)
  have "tlog_reach (short_lines 2) {0} 4 2 s"
    by (rule plays_reach [OF s(1) _ tlog_reach.start]) (auto simp: short_lines_def)
  moreover have "t_thread s' 0 = Woken [4] 0 \<or> t_worker s' = Check \<or> t_run s' = False"
    if "tlog_step (short_lines 2) {0} s s'" for s'
    using that s by (auto elim!: tlog_stepE simp: signal_worker_def)
  ultimately show ?thesis using s by blast
qed

text \<open>
  A line of exactly \<^verbatim>\<open>max_line_size\<close> bytes can be lost: when it fills the space up to the start of the
  ring, \<^verbatim>\<open>_tlog_work\<close> sees neither \<open>end < start\<close> nor \<open>end > start\<close>, writes only the part before
  the wrap and releases everything.
\<close>

lemma tlog_full_line_lost:
  "\<exists>s. tlog_reach (\<lambda>line. length line = 2) {0} 6 2 s \<and> t_worker s = Check \<and> ring_bytes (t_log s) = [] \<and>
       concat (t_in s) = [1, 1, 2, 2, 3, 3, 4, 4] \<and> concat (t_out s) = [1, 1, 2, 2, 3, 3]"
proof -
  let ?ms = "log_lines [[1, 1]] @ replicate 4 Work @ log_lines [[2, 2], [3, 3], [4, 4]] @ replicate 4 Work"
  obtain s where s: "plays ?ms (tlog_start 6 2) = Some s" "t_worker s = Check" "ring_bytes (t_log s) = []"
    "concat (t_in s) = [1, 1, 2, 2, 3, 3, 4, 4]" "concat (t_out s) = [1, 1, 2, 2, 3, 3]"
    by (simp add: play_defs ring_bytes_def)
  have "tlog_reach (\<lambda>line. length line = 2) {0} 6 2 s"
    by (rule plays_reach [OF s(1) _ tlog_reach.start]) auto
  then show ?thesis using s by blast
qed

section \<open>Witnesses\<close>

lemma demo_plays:
  "\<exists>s. plays (log_lines [[1], [2]] @ [Work, Work]) (tlog_start 4 2) = Some s \<and>
     concat (t_in s) = [1, 2] \<and> concat (t_out s) = [1, 2]"
  by (simp add: play_defs)

lemma tlog_queue_witness:
  "\<exists>s. tlog_reach (short_lines 2) {0} 4 2 s \<and> concat (t_in s) = [1, 2] \<and>
       concat (t_out s) @ unwritten (t_worker s) (t_log s) = [1, 2]"
proof -
  obtain s where s: "plays (log_lines [[1], [2]] @ [Work, Work]) (tlog_start 4 2) = Some s" "concat (t_in s) = [1, 2]"
    using demo_plays by blast
  have r: "tlog_reach (short_lines 2) {0} 4 2 s"
    by (rule plays_reach [OF s(1) _ tlog_reach.start]) (auto simp: short_lines_def)
  show ?thesis using tlog_queue [OF r] r s(2) by auto
qed


theorem tlog_lost_wakeup_witness: "\<exists>s. tlog_reach (short_lines 2) {0} 4 2 s \<and> t_thread s 0 = Sleeping [4] 0 \<and> t_worker s = Asleep"
  using tlog_lost_wakeup by blast

lemma tlog_put_safe_witness:
  "\<exists>s'. vprintf_locked 0 [1] 0 (at (tlog_start 4 2) 0 (Trying [1] 0)) = Some s'"
proof -
  have "tlog_reach (short_lines 2) {0} 4 2 (at (tlog_start 4 2) 0 (Trying [1] 0))"
    by (rule tlog_reach.step [OF tlog_reach.start tlog_step.print]) (simp_all add: tlog_start_def short_lines_def)
  from tlog_put_safe [OF this, of 0 "[1]" 0] show ?thesis by simp
qed

lemma tlog_exit_flushes_witness:
  "\<exists>s. t_worker (work_check s) = Stopped \<and> concat (t_out (work_check s)) = concat (t_in (work_check s))"
proof -
  let ?s = "(tlog_start 4 2)\<lparr>t_run := False\<rparr>"
  have "tlog_reach (short_lines 2) {0} 4 2 (signal_worker ?s)"
    by (rule tlog_reach.step [OF tlog_reach.start tlog_step.exit])
  then have r: "tlog_reach (short_lines 2) {0} 4 2 ?s" by (simp add: signal_worker_def tlog_start_def)
  have "t_worker ?s = Check" "t_worker (work_check ?s) = Stopped" by (simp_all add: play_defs)
  then show ?thesis using tlog_exit_flushes [OF r] by auto
qed

end
