(* ===== verification/Tlog_Line.thy ===== *)
theory Tlog_Line
  imports Tlog_Work
begin

text \<open>
  How \<^verbatim>\<open>tlog.c\<close> makes the lines it logs: the levels and their filter, the prefix with time, level and
  place, the cut of long messages, the printing before the log is open, and the parameters of a new
  log. The theorems: a line of the root log is never longer than \<^verbatim>\<open>max_line_size\<close> less two, ends with a
  newline and is the whole message or its marked front, so the queue theorem applies to the log of the
  copytool; a message of one particular length is dropped; a long message printed before \<^verbatim>\<open>tlog_init\<close>
  runs past its array; and \<^verbatim>\<open>tlog_log_enabled\<close> contradicts the filter.
\<close>

section \<open>Levels\<close>

datatype tlog_level = TLOG_DEBUG | TLOG_INFO | TLOG_NOTICE | TLOG_WARN | TLOG_ERROR | TLOG_FATAL | TLOG_OFF | TLOG_END

primrec level_num :: "tlog_level \<Rightarrow> nat" where
  "level_num TLOG_DEBUG = 0"
| "level_num TLOG_INFO = 1"
| "level_num TLOG_NOTICE = 2"
| "level_num TLOG_WARN = 3"
| "level_num TLOG_ERROR = 4"
| "level_num TLOG_FATAL = 5"
| "level_num TLOG_OFF = 6"
| "level_num TLOG_END = 7"

text \<open>The enum compares as its numbers.\<close>

lemma level_num_inject: "level_num a = level_num b \<longleftrightarrow> a = b"
  by (cases a; cases b) auto

instantiation tlog_level :: linorder
begin

definition less_eq_tlog_level :: "tlog_level \<Rightarrow> tlog_level \<Rightarrow> bool" where
  "less_eq_tlog_level a b \<longleftrightarrow> level_num a \<le> level_num b"

definition less_tlog_level :: "tlog_level \<Rightarrow> tlog_level \<Rightarrow> bool" where
  "less_tlog_level a b \<longleftrightarrow> level_num a < level_num b"

instance
  by standard (auto simp: less_eq_tlog_level_def less_tlog_level_def level_num_inject)

end

lemmas level_order = less_eq_tlog_level_def less_tlog_level_def

definition tlog_level_str :: "string list" where
  "tlog_level_str = [''DEBUG'', ''INFO'', ''NOTICE'', ''WARN'', ''ERROR'', ''FATAL'']"

text \<open>The inner \<open>None\<close> is \<^verbatim>\<open>NULL\<close>, the outer one a read past the array (for \<^verbatim>\<open>TLOG_OFF\<close>).\<close>

definition tlog_get_level_string :: "tlog_level \<Rightarrow> string option option" where
  "tlog_get_level_string level =
     (if level \<ge> TLOG_END then Some None
      else if level_num level < length tlog_level_str then Some (Some (tlog_level_str ! level_num level)) else None)"

text \<open>The functions on \<^verbatim>\<open>tlog_set_level\<close>, which is \<open>cur\<close>\<close>

definition tlog_setlevel :: "tlog_level \<Rightarrow> tlog_level \<Rightarrow> int \<times> tlog_level" where
  "tlog_setlevel level cur = (if level \<ge> TLOG_END then (-1, cur) else (0, level))"

definition tlog_log_enabled :: "tlog_level \<Rightarrow> tlog_level \<Rightarrow> bool" where
  "tlog_log_enabled level cur = (if level \<ge> TLOG_END then False else cur \<ge> level)"

section \<open>The prefix\<close>

record tlog_time =
  year :: nat
  usec :: nat
  mon :: nat
  mday :: nat
  hour :: nat
  minute :: nat
  sec :: nat

record tlog_loginfo =
  level :: tlog_level
  log_file :: string
  line_no :: nat
  log_time :: tlog_time

text \<open>\<^verbatim>\<open>%.kd\<close>, \<^verbatim>\<open>%ks\<close> and \<^verbatim>\<open>%-ks\<close>\<close>

definition zeros :: "nat \<Rightarrow> nat \<Rightarrow> string" where
  "zeros k n = replicate (k - length (dec n)) (CHR ''0'') @ dec n"

definition right :: "nat \<Rightarrow> string \<Rightarrow> string" where
  "right k s = replicate (k - length s) (CHR '' '') @ s"

definition left :: "nat \<Rightarrow> string \<Rightarrow> string" where
  "left k s = s @ replicate (k - length s) (CHR '' '')"

definition time_prefix :: "tlog_time \<Rightarrow> string" where
  "time_prefix tm = ''['' @ zeros 4 (year tm) @ ''-'' @ zeros 2 (mon tm) @ ''-'' @ zeros 2 (mday tm) @ '' '' @
     zeros 2 (hour tm) @ '':'' @ zeros 2 (minute tm) @ '':'' @ zeros 2 (sec tm) @ '','' @ zeros 3 (usec tm div 1000) @ '']''"

text \<open>\<open>multi\<close> is the process id when several processes write the log.\<close>

definition line_prefix :: "nat option \<Rightarrow> tlog_loginfo \<Rightarrow> string \<Rightarrow> string" where
  "line_prefix multi info lvl =
     time_prefix (log_time info) @
     (case multi of
        Some pid \<Rightarrow> ''['' @ right 5 (dec pid) @ '']['' @ right 4 lvl @ '']''
      | None \<Rightarrow> ''['' @ right 5 lvl @ '']'') @
     ''['' @ right 17 (log_file info) @ '':'' @ left 4 (dec (line_no info)) @ ''] ''"

section \<open>Lines of the root log\<close>

text \<open>
  \<^verbatim>\<open>_tlog_root_default_format\<close> with the prefix and the formatted message: the return value and what the array
  then holds.
\<close>

definition tlog_root_default_format :: "string \<Rightarrow> string \<Rightarrow> nat \<Rightarrow> int \<times> string" where
  "tlog_root_default_format pre msg maxlen =
     (if length pre \<ge> maxlen then (-1, take (maxlen - 1) pre)
      else
        (let rest = maxlen - length pre; (len, text) = snprintf rest msg in
         if len = int rest then (-1, pre @ text) else (int (length pre) + len, pre @ text)))"

text \<open>
  \<^verbatim>\<open>_tlog_root_log_buffer\<close>; \<open>head n\<close> is the segment header that holds the length \<open>n\<close>, of the same size for all \<open>n\<close> and empty
  without segments. \<open>None\<close> is an access outside the array.
\<close>

definition tlog_root_log_buffer :: "(nat \<Rightarrow> string) \<Rightarrow> nat \<Rightarrow> (nat \<Rightarrow> int \<times> string) \<Rightarrow> (int \<times> string) option" where
  "tlog_root_log_buffer head maxlen root_format =
     (let len = length (head 0); max_format_len = maxlen - len - 2; (log_len, text) = root_format max_format_len in
      if log_len < 0 then Some (-1, head 0)
      else if log_len \<ge> int max_format_len \<and> max_format_len < 4 then None
      else
        (let body = (if log_len \<ge> int max_format_len then take (max_format_len - 4) text @ ''...'' else text) in
         if head 0 @ body = [] then None
         else
           (let body = (if last (head 0 @ body) \<noteq> CHR 0x0A \<and> len + length body + 1 < maxlen - 1 then body @ [CHR 0x0A] else body);
                line = head (length body) @ body;
                line = (if len \<noteq> 0 \<and> length line + 1 < maxlen - 1 then line @ [CHR 0x00] else line) in
            Some (int (length line), line))))"

abbreviation no_head :: "nat \<Rightarrow> string" where
  "no_head \<equiv> \<lambda>_. []"

text \<open>\<^verbatim>\<open>_tlog_print_buffer\<close>, used by \<^verbatim>\<open>tlog_printf\<close>\<close>

definition tlog_print_buffer :: "string \<Rightarrow> nat \<Rightarrow> int \<times> string" where
  "tlog_print_buffer msg maxlen =
     (let (len, text) = snprintf maxlen msg in if len = int maxlen then (-1, text) else (len, text))"

text \<open>
  \<^verbatim>\<open>_tlog_vprintf\<close> between the formatting and the lock: nothing to log (\<open>None\<close>), or the line, whose end is
  overwritten when it is too long.
\<close>

definition vprintf_line :: "nat \<Rightarrow> int \<times> string \<Rightarrow> string option" where
  "vprintf_line max_line_size r =
     (let (len, buf) = r in
      if len \<le> 0 then None
      else if len \<ge> int max_line_size then
        Some (take (max_line_size - 5) (buf @ replicate max_line_size (CHR 0x00)) @ ''...'' @ [CHR 0x0A, CHR 0x00])
      else Some buf)"

text \<open>The line \<^verbatim>\<open>tlog_vprintf\<close> and \<^verbatim>\<open>tlog_printf\<close> put into the ring\<close>

definition tlog_vprintf :: "nat \<Rightarrow> string \<Rightarrow> string option" where
  "tlog_vprintf max_line_size msg = vprintf_line max_line_size (tlog_print_buffer msg max_line_size)"

definition tlog_printf :: "nat \<Rightarrow> string \<Rightarrow> string option" where
  "tlog_printf max_line_size msg = tlog_vprintf max_line_size msg"

section \<open>tlog\_vext\<close>

datatype vext = Return int | Early | Put string | Fault

text \<open>
  \<^verbatim>\<open>tlog_vext\<close>: \<open>root\<close> is the log, with its \<^verbatim>\<open>logsize\<close>, \<^verbatim>\<open>logcount\<close>, \<^verbatim>\<open>logscreen\<close> and
  \<^verbatim>\<open>max_line_size\<close>, if it is open; \<open>now\<close> the time, if it can be had. \<open>Put\<close> is a line handed to the ring.
\<close>

record root_log =
  r_logsize :: int
  r_logcount :: int
  r_logscreen :: bool
  r_max_line :: nat
  r_multi :: "nat option"
  r_no_prefix :: bool

text \<open>The prefix of a message in the root log\<close>

definition vext_prefix :: "root_log \<Rightarrow> tlog_time \<Rightarrow> tlog_level \<Rightarrow> string \<Rightarrow> nat \<Rightarrow> string" where
  "vext_prefix log tm lvl fname lineno =
     (if r_no_prefix log then []
      else line_prefix (r_multi log) \<lparr>level = lvl, log_file = fname, line_no = lineno, log_time = tm\<rparr>
             (tlog_level_str ! level_num lvl))"

definition tlog_vext ::
  "tlog_level \<Rightarrow> root_log option \<Rightarrow> tlog_time option \<Rightarrow> tlog_level \<Rightarrow> string \<Rightarrow> nat \<Rightarrow> string \<Rightarrow> vext" where
  "tlog_vext cur root now lvl fname lineno msg =
     (if lvl < cur then Return 0
      else if lvl \<ge> TLOG_END then Return (-1)
      else
        (case now of
           None \<Rightarrow> Return (-1)
         | Some tm \<Rightarrow>
            (case root of
               None \<Rightarrow> Early
             | Some log \<Rightarrow>
                if r_logsize log \<le> 0 then Return 0
                else if r_logcount log \<le> 0 \<and> \<not> r_logscreen log then Return 0
                else
                  (case tlog_get_level_string lvl of
                     None \<Rightarrow> Fault
                   | Some None \<Rightarrow> Fault
                   | Some (Some name) \<Rightarrow>
                      (case tlog_root_log_buffer no_head (r_max_line log)
                              (tlog_root_default_format (vext_prefix log tm lvl fname lineno) msg) of
                         None \<Rightarrow> Fault
                       | Some r \<Rightarrow> (case vprintf_line (r_max_line log) r of None \<Rightarrow> Return (-1) | Some line \<Rightarrow> Put line))))))"

section \<open>Printing before the log is open\<close>

definition TLOG_MAX_LINE_LEN :: nat where "TLOG_MAX_LINE_LEN = 1024"

text \<open>
  \<^verbatim>\<open>_tlog_early_print\<close>, with the settings \<^verbatim>\<open>early_print_disable\<close>, \<^verbatim>\<open>tlog_early_print\<close> (is it set),
  \<^verbatim>\<open>early_print_output\<close> (the value it returns for a text, if set) and \<^verbatim>\<open>early_print_with_screen\<close>; \<open>pre\<close> is the
  prefix, which is empty with \<^verbatim>\<open>early_print_no_prefix\<close>. The result is \<open>None\<close> when the code reads a byte of
  \<^verbatim>\<open>log_buf\<close> that it has not set or goes past the array; otherwise the value returned and what was written
  to the screen, if anything was.
\<close>

record early =
  e_disable :: bool
  e_callback :: bool
  e_output :: "(string \<Rightarrow> int) option"
  e_with_screen :: bool

definition early_text :: "string \<Rightarrow> string \<Rightarrow> string option" where
  "early_text pre msg =
     (let len = length msg;
          out_len = (if len \<ge> TLOG_MAX_LINE_LEN - 1 then TLOG_MAX_LINE_LEN - 1 else length pre + len);
          log_buf = take (TLOG_MAX_LINE_LEN - 1) (pre @ take (TLOG_MAX_LINE_LEN - length pre - 2) msg @ [CHR 0x00]) in
      if TLOG_MAX_LINE_LEN \<le> length pre \<or> length log_buf < out_len then None
      else Some (take out_len log_buf @ (if log_buf ! (out_len - 1) \<noteq> CHR 0x0A then [CHR 0x0A] else [])))"

definition tlog_early_print :: "early \<Rightarrow> tlog_time option \<Rightarrow> string \<Rightarrow> string \<Rightarrow> (int \<times> string option) option" where
  "tlog_early_print e now pre msg =
     (if e_disable e then Some (0, None)
      else if now = None then Some (-1, None)
      else if e_callback e then Some (0, None)
      else if msg = [] then Some (-1, None)
      else
        (case early_text pre msg of
           None \<Rightarrow> None
         | Some out \<Rightarrow>
            (case e_output e of
               Some f \<Rightarrow> if \<not> e_with_screen e then Some (f out, None) else Some (int (length out), Some out)
             | None \<Rightarrow> Some (int (length out), Some out))))"

section \<open>Parameters of a log\<close>

definition TLOG_BUFF_SIZE :: nat where "TLOG_BUFF_SIZE = 1024 * 128"
definition TLOG_MAX_LINE_SIZE_SET :: nat where "TLOG_MAX_LINE_SIZE_SET = 1024 * 8"
definition TLOG_MIN_LINE_SIZE_SET :: nat where "TLOG_MIN_LINE_SIZE_SET = 128"

definition tlog_set_maxline_size :: "int \<Rightarrow> tlog_log \<Rightarrow> tlog_log" where
  "tlog_set_maxline_size n log =
     log\<lparr>l_max_line := (if n < int TLOG_MIN_LINE_SIZE_SET then TLOG_MIN_LINE_SIZE_SET
                        else if n > int TLOG_MAX_LINE_SIZE_SET then TLOG_MAX_LINE_SIZE_SET else nat n)\<rparr>"

text \<open>The flags as the numbers of their bits\<close>

definition TLOG_SEGMENT :: nat where "TLOG_SEGMENT = 1"
definition TLOG_NONBLOCK :: nat where "TLOG_NONBLOCK = 3"
definition TLOG_SCREEN_COLOR :: nat where "TLOG_SCREEN_COLOR = 6"

text \<open>The ring of the log that \<^verbatim>\<open>tlog_open\<close> makes; \<open>tty\<close> is \<^verbatim>\<open>isatty(STDOUT_FILENO)\<close>.\<close>

definition tlog_open :: "bool \<Rightarrow> int \<Rightarrow> u32 \<Rightarrow> tlog_log" where
  "tlog_open tty bsz flag =
     (let n = (if bsz > 0 then nat bsz else TLOG_BUFF_SIZE) in
      \<lparr>buff = replicate n 0, buffsize = n, l_start = 0, l_end = 0, l_ext_end = 0,
       l_block = (\<not> bit flag TLOG_NONBLOCK), l_dropped = 0,
       l_segment = (bit flag TLOG_SEGMENT \<or> bit flag TLOG_SCREEN_COLOR \<and> tty),
       l_max_line = TLOG_MAX_LINE_LEN, l_waiters = 0\<rparr>)"

text \<open>The tests of \<^verbatim>\<open>tlog_init\<close>; memory and the thread are available. \<open>ready\<close>: already initialised.\<close>

definition tlog_init :: "bool \<Rightarrow> bool \<Rightarrow> int \<Rightarrow> u32 \<Rightarrow> tlog_log option" where
  "tlog_init ready tty bsz flag =
     (if ready then None
      else if bsz > 0 \<and> bsz < int TLOG_MAX_LINE_SIZE_SET * 2 then None
      else Some (tlog_open tty bsz flag))"

section \<open>Theorems\<close>

text \<open>The last step of a line: the newline.\<close>

definition with_newline :: "string \<Rightarrow> string" where
  "with_newline line = (if last line = CHR 0x0A then line else line @ [CHR 0x0A])"

lemma with_newline_facts: "length (with_newline l) \<le> Suc (length l)" "l \<noteq> [] \<Longrightarrow> with_newline l \<noteq> []" "last (with_newline l) = CHR 0x0A"
  by (simp_all add: with_newline_def)

text \<open>The line of the root log without its newline\<close>

definition fitted :: "nat \<Rightarrow> string \<Rightarrow> string" where
  "fitted maxlen l = (if length l < maxlen - 2 then l else take (maxlen - 6) l @ ''...'')"

lemma fitted_length: "6 \<le> maxlen \<Longrightarrow> Suc (length (fitted maxlen l)) < maxlen - 1"
  by (auto simp: fitted_def)

text \<open>The buffer with a header of \<open>h\<close> bytes; \<open>m\<close> is what is left for the line.\<close>

definition headed :: "(nat \<Rightarrow> string) \<Rightarrow> nat \<Rightarrow> string \<Rightarrow> string" where
  "headed head maxlen body =
     (let line = head (length body) @ body in
      if head 0 \<noteq> [] \<and> length line + 1 < maxlen - 1 then line @ [CHR 0x00] else line)"

lemma root_log_buffer_body:
  assumes h: "\<And>n. length (head n) = h" and m: "maxlen = h + m" "6 \<le> m"
    and f: "root_format (m - 2) = (l, text)" "0 \<le> l"
    and line: "line = (if l \<ge> int (m - 2) then take (m - 6) text @ ''...'' else text)" "length line + 1 < m - 1" "line \<noteq> []"
  shows "tlog_root_log_buffer head maxlen root_format =
           Some (int (length (headed head maxlen (with_newline line))), headed head maxlen (with_newline line))"
proof -
  have e: "maxlen - length (head 0) - 2 = m - 2" "m - 2 - 4 = m - 6" "\<not> m - 2 < 4" "\<not> l < 0"
    "\<not> (l \<ge> int (m - 2) \<and> m - 2 < 4)" "head 0 @ line \<noteq> []" "last (head 0 @ line) = last line"
    using m h f(2) line(3) by auto
  have nl: "(if last line \<noteq> CHR 0x0A \<and> length (head 0) + length line + 1 < maxlen - 1 then line @ [CHR 0x0A] else line) = with_newline line"
    using h m line(2) by (auto simp: with_newline_def)
  have ne: "(length (head 0) \<noteq> 0) = (head 0 \<noteq> [])" by simp
  have "tlog_root_log_buffer head maxlen root_format =
      (let line = with_newline line; out = head (length line) @ line;
           out = (if length (head 0) \<noteq> 0 \<and> length out + 1 < maxlen - 1 then out @ [CHR 0x00] else out) in Some (int (length out), out))"
    unfolding tlog_root_log_buffer_def Let_def
    by (simp only: e f(1) split_conv if_False line(1) [symmetric] nl simp_thms)
  then show ?thesis by (simp only: headed_def Let_def ne)
qed

lemma headed_no_head: "headed no_head maxlen body = body"
  by (simp add: headed_def)

lemma default_format_long:
  assumes "length pre < m - 2" and "length (pre @ msg) \<noteq> m - 2"
  shows "\<exists>text. tlog_root_default_format pre msg (m - 2) = (int (length (pre @ msg)), text) \<and>
           fitted m (pre @ msg) = (if int (length (pre @ msg)) \<ge> int (m - 2) then take (m - 6) text @ ''...'' else text)"
proof -
  define body where "body = pre @ take (m - 2 - length pre - 1) msg"
  have "tlog_root_default_format pre msg (m - 2) = (int (length (pre @ msg)), body)"
    using assms by (auto simp: tlog_root_default_format_def Let_def snprintf_def body_def)
  moreover have "take (m - 6) body = take (m - 6) (pre @ msg)" "length (pre @ msg) < m - 2 \<Longrightarrow> body = pre @ msg"
    by (auto simp: body_def min_def)
  ultimately show ?thesis by (intro exI [of _ body]) (auto simp: not_le fitted_def)
qed

lemma root_line_headed:
  assumes h: "\<And>n. length (head n) = h" and m: "maxlen = h + m" "6 \<le> m"
    and len: "length pre < m - 2" "length (pre @ msg) \<noteq> m - 2" and "pre @ msg \<noteq> []"
  shows "tlog_root_log_buffer head maxlen (tlog_root_default_format pre msg) =
           Some (int (length (headed head maxlen (with_newline (fitted m (pre @ msg))))),
                 headed head maxlen (with_newline (fitted m (pre @ msg))))"
proof -
  obtain text' where t: "tlog_root_default_format pre msg (m - 2) = (int (length (pre @ msg)), text')"
    "fitted m (pre @ msg) = (if int (length (pre @ msg)) \<ge> int (m - 2) then take (m - 6) text' @ ''...'' else text')"
    using default_format_long [OF len] by (elim exE conjE) (rule that)
  have "length (fitted m (pre @ msg)) + 1 < m - 1" using fitted_length [OF m(2)] by simp
  moreover have "fitted m (pre @ msg) \<noteq> []" using assms(6) by (auto simp: fitted_def)
  ultimately show ?thesis
    by (intro root_log_buffer_body [OF h m, of "tlog_root_default_format pre msg", OF t(1) _ t(2)]) simp_all
qed

lemma root_line_eq:
  assumes "6 \<le> maxlen" and "length pre < maxlen - 2" and "length (pre @ msg) \<noteq> maxlen - 2" and "pre @ msg \<noteq> []"
  shows "tlog_root_log_buffer no_head maxlen (tlog_root_default_format pre msg) =
           Some (int (length (with_newline (fitted maxlen (pre @ msg)))), with_newline (fitted maxlen (pre @ msg)))"
  using root_line_headed [of no_head 0 maxlen maxlen pre msg] assms by (simp add: headed_no_head)

lemma root_line_fails:
  assumes "maxlen - 2 \<le> length pre \<or> length (pre @ msg) = maxlen - 2"
  shows "tlog_root_log_buffer no_head maxlen (tlog_root_default_format pre msg) = Some (-1, [])"
proof -
  have "\<exists>body. tlog_root_default_format pre msg (maxlen - 2) = (-1, body)"
    using assms by (auto simp: tlog_root_default_format_def Let_def snprintf_def)
  then show ?thesis by (auto simp: tlog_root_log_buffer_def Let_def numeral_2_eq_2)
qed

lemma root_line_empty: "6 \<le> maxlen \<Longrightarrow> tlog_root_log_buffer no_head maxlen (tlog_root_default_format [] []) = None"
  by (auto simp: tlog_root_log_buffer_def tlog_root_default_format_def snprintf_def Let_def)

lemma root_line_cases:
  assumes "6 \<le> maxlen" and "tlog_root_log_buffer no_head maxlen (tlog_root_default_format pre msg) = Some (n, line)" and "0 < n"
  shows "n = int (length line) \<and> length line \<le> maxlen - 2 \<and> line \<noteq> [] \<and> line = with_newline (fitted maxlen (pre @ msg))"
proof -
  have "\<not> (maxlen - 2 \<le> length pre \<or> length (pre @ msg) = maxlen - 2)"
  proof
    assume "maxlen - 2 \<le> length pre \<or> length (pre @ msg) = maxlen - 2"
    from root_line_fails [OF this] show False using assms(2,3) by simp
  qed
  then have l: "length pre < maxlen - 2" "length (pre @ msg) \<noteq> maxlen - 2" by linarith+
  have ne: "pre @ msg \<noteq> []" using assms(1,2) root_line_empty [of maxlen] by auto
  note e = root_line_eq [OF assms(1) l ne]
  have "fitted maxlen (pre @ msg) \<noteq> []" using ne by (auto simp: fitted_def)
  then have "fitted maxlen (pre @ msg) \<noteq> [] \<and> n = int (length line) \<and> line = with_newline (fitted maxlen (pre @ msg))"
    using assms(2) e by auto
  then show ?thesis using fitted_length [OF assms(1), of "pre @ msg"] with_newline_facts [of "fitted maxlen (pre @ msg)"] by simp
qed

lemma vext_line:
  assumes "tlog_vext cur (Some log) now lvl fname lineno msg = Put line"
  shows "\<exists>pre n text. tlog_root_log_buffer no_head (r_max_line log) (tlog_root_default_format pre msg) = Some (n, text) \<and>
           vprintf_line (r_max_line log) (n, text) = Some line"
  using assms by (auto simp: tlog_vext_def Let_def split: if_splits option.splits)

lemma root_put_line:
  assumes "6 \<le> maxlen" and "tlog_root_log_buffer no_head maxlen (tlog_root_default_format pre msg) = Some (n, body)"
    and "vprintf_line maxlen (n, body) = Some line"
  shows "length line \<le> maxlen - 2 \<and> line \<noteq> [] \<and> line = with_newline (fitted maxlen (pre @ msg))"
proof -
  have "0 < n" using assms(3) by (auto simp: vprintf_line_def split: if_splits)
  note c = root_line_cases [OF assms(1,2) this]
  then have "\<not> n \<ge> int maxlen" using assms(1) by linarith
  then have "line = body" using assms(3) \<open>0 < n\<close> by (auto simp: vprintf_line_def)
  then show ?thesis using c by blast
qed

lemma root_buffer_result:
  assumes "6 \<le> maxlen" and "pre @ msg \<noteq> []"
  shows "(case tlog_root_log_buffer no_head maxlen (tlog_root_default_format pre msg) of
            None \<Rightarrow> Fault
          | Some r \<Rightarrow> (case vprintf_line maxlen r of None \<Rightarrow> Return (-1) | Some line \<Rightarrow> Put line)) =
         (if maxlen - 2 \<le> length pre \<or> length (pre @ msg) = maxlen - 2 then Return (-1)
          else Put (with_newline (fitted maxlen (pre @ msg))))"
proof (cases "maxlen - 2 \<le> length pre \<or> length (pre @ msg) = maxlen - 2")
  case True
  then show ?thesis using root_line_fails [OF True] by (simp add: vprintf_line_def)
next
  case False
  have r: "tlog_root_log_buffer no_head maxlen (tlog_root_default_format pre msg) =
      Some (int (length (with_newline (fitted maxlen (pre @ msg)))), with_newline (fitted maxlen (pre @ msg)))"
    by (rule root_line_eq) (use assms False in auto)
  have "fitted maxlen (pre @ msg) \<noteq> []" using assms by (auto simp: fitted_def)
  moreover have "length (with_newline (fitted maxlen (pre @ msg))) < maxlen"
    using with_newline_facts(1) [of "fitted maxlen (pre @ msg)"] fitted_length [OF assms(1), of "pre @ msg"] by linarith
  ultimately show ?thesis using False with_newline_facts(2) [of "fitted maxlen (pre @ msg)"] by (simp add: r vprintf_line_def)
qed

lemma vext_root:
  assumes "cur \<le> lvl" and "lvl < TLOG_OFF" and "0 < r_logsize log" and "0 < r_logcount log \<or> r_logscreen log"
  shows "tlog_vext cur (Some log) (Some tm) lvl fname lineno msg =
         (case tlog_root_log_buffer no_head (r_max_line log) (tlog_root_default_format (vext_prefix log tm lvl fname lineno) msg) of
            None \<Rightarrow> Fault
          | Some r \<Rightarrow> (case vprintf_line (r_max_line log) r of None \<Rightarrow> Return (-1) | Some line \<Rightarrow> Put line))"
proof -
  have "\<not> lvl < cur" "\<not> TLOG_END \<le> lvl" "level_num lvl < 6" using assms(1,2) by (auto simp: level_order)
  moreover have "tlog_get_level_string lvl = Some (Some (tlog_level_str ! level_num lvl))"
    using calculation by (simp add: tlog_get_level_string_def tlog_level_str_def)
  ultimately show ?thesis using assms(3,4) by (auto simp: tlog_vext_def)
qed

lemma vext_short:
  assumes "6 \<le> r_max_line log" and "tlog_vext cur (Some log) now lvl fname lineno msg = Put line"
  shows "short_lines (r_max_line log) (bytes_of line)"
proof -
  obtain pre n body where r: "tlog_root_log_buffer no_head (r_max_line log) (tlog_root_default_format pre msg) = Some (n, body)"
    "vprintf_line (r_max_line log) (n, body) = Some line" using vext_line [OF assms(2)] by (elim exE conjE) (rule that)
  have "length line \<le> r_max_line log - 2" "line \<noteq> []" using root_put_line [OF assms(1) r] by blast+
  then show ?thesis using assms(1) by (cases line) (simp_all add: short_lines_def bytes_of_def)
qed

text \<open>
  C30. What \<^verbatim>\<open>tlog_vext\<close> does with an enabled message when the root log is open: with \<open>l\<close> the prefix and the
  formatted message, it puts \<open>l\<close>, or when that is too long its first \<^verbatim>\<open>max_line_size - 6\<close> characters and three
  dots, with a newline at the end. It logs nothing when the prefix alone does not fit, and also when \<open>l\<close> has
  exactly \<^verbatim>\<open>max_line_size - 2\<close> characters: \<^verbatim>\<open>len == maxlen\<close> is taken for an error although a longer message is
  only cut.
\<close>

theorem tlog_vext_result:
  assumes "cur \<le> lvl" and "lvl < TLOG_OFF" and "0 < r_logsize log" and "0 < r_logcount log \<or> r_logscreen log"
    and "6 \<le> r_max_line log" and "l = vext_prefix log tm lvl fname lineno @ msg" and "l \<noteq> []"
  shows "tlog_vext cur (Some log) (Some tm) lvl fname lineno msg =
           (if r_max_line log - 2 \<le> length (vext_prefix log tm lvl fname lineno) \<or> length l = r_max_line log - 2
            then Return (-1) else Put (with_newline (fitted (r_max_line log) l)))"
  using vext_root [OF assms(1-4)] root_buffer_result [OF assms(5)] assms(6,7) by simp

text \<open>
  Every line the root log puts into the ring has a level that passes the filter, is at most
  \<^verbatim>\<open>max_line_size - 2\<close> bytes long and ends with a newline.
\<close>

lemma tlog_vext_line_bounds:
  assumes "6 \<le> r_max_line log" and "tlog_vext cur (Some log) now lvl fname lineno msg = Put line"
  shows "cur \<le> lvl \<and> length line \<le> r_max_line log - 2 \<and> last line = CHR 0x0A"
proof -
  obtain pre n body where r: "tlog_root_log_buffer no_head (r_max_line log) (tlog_root_default_format pre msg) = Some (n, body)"
    "vprintf_line (r_max_line log) (n, body) = Some line" using vext_line [OF assms(2)] by (elim exE conjE) (rule that)
  have "cur \<le> lvl" using assms(2) by (auto simp: tlog_vext_def split: if_splits)
  then show ?thesis using root_put_line [OF assms(1) r] with_newline_facts(3) by metis
qed

lemma copytool_queue:
  assumes "tlog_init False tty 0 0 = Some ring" and "r_max_line log = l_max_line ring"
    and "tlog_reach (\<lambda>line. \<exists>cur now lvl fname lineno msg l. tlog_vext cur (Some log) now lvl fname lineno msg = Put l \<and> line = bytes_of l)
           T (buffsize ring) (l_max_line ring) s"
  shows "ring = t_log (tlog_start 131072 1024) \<and> concat (t_out s) @ unwritten (t_worker s) (t_log s) = concat (t_in s)"
proof -
  have ring: "ring = new_log 131072 1024"
    using assms(1) by (auto simp: tlog_init_def tlog_open_def new_log_def TLOG_BUFF_SIZE_def TLOG_MAX_LINE_LEN_def Let_def)
  have m: "buffsize ring = 131072" "l_max_line ring = 1024" "r_max_line log = 1024" using assms(2) by (simp_all add: ring new_log_def)
  have "queue_inv 1024 s"
    by (rule queue_inv_reach [OF assms(3) [unfolded m]]) (use vext_short [of log] in \<open>auto simp: m\<close>)
  then show ?thesis by (simp add: queue_inv_def ring tlog_start_def)
qed

text \<open>
  Before \<^verbatim>\<open>tlog_init\<close>: a message of fewer than 1023 bytes that does not fit behind its prefix into the array
  of 1024 is not cut, and \<^verbatim>\<open>_tlog_early_print\<close> goes past the end of the array; a message that fits is written
  whole with a newline.
\<close>

lemma tlog_early_print_overrun:
  assumes "\<not> e_disable e" and "\<not> e_callback e" and "msg \<noteq> []" and "length msg < TLOG_MAX_LINE_LEN - 1"
    and "length pre < TLOG_MAX_LINE_LEN"
  shows "tlog_early_print e (Some tm) pre msg = None \<longleftrightarrow> TLOG_MAX_LINE_LEN \<le> length (pre @ msg)"
proof -
  have "early_text pre msg = None \<longleftrightarrow> TLOG_MAX_LINE_LEN \<le> length (pre @ msg)"
    using assms(4,5) by (auto simp: early_text_def Let_def TLOG_MAX_LINE_LEN_def)
  then show ?thesis using assms(1-3) by (auto simp: tlog_early_print_def split: option.splits)
qed

text \<open>
  What \<^verbatim>\<open>tlog_printf\<close> logs: the message as it is if it is shorter than \<^verbatim>\<open>max_line_size\<close>; its front with three dots, a newline and a
  zero byte if it is longer; nothing if it has exactly this length.
\<close>

lemma tlog_printf_line:
  assumes "5 < m" and "msg \<noteq> []"
  shows "tlog_printf m msg =
    (if length msg < m then Some msg
     else if length msg = m then None
     else Some (take (m - 5) msg @ ''...'' @ [CHR 0x0A, CHR 0x00]))"
  using assms
  by (auto simp: tlog_printf_def tlog_vprintf_def tlog_print_buffer_def snprintf_def vprintf_line_def min_def)

text \<open>
  \<^verbatim>\<open>tlog_log_enabled\<close> is the opposite of the filter: of the levels that can be logged it agrees with what
  \<^verbatim>\<open>tlog_vext\<close> lets through only for the level that is set.
\<close>

lemma tlog_log_enabled_inverted:
  assumes "lvl < TLOG_END"
  shows "tlog_log_enabled lvl cur = (\<not> lvl < cur) \<longleftrightarrow> lvl = cur"
  using assms by (auto simp: tlog_log_enabled_def)

lemma setlevel_filter:
  assumes "tlog_setlevel l cur = (0, cur')" and "lvl < l"
  shows "tlog_vext cur' root now lvl fname lineno msg = Return 0"
  using assms by (auto simp: tlog_setlevel_def tlog_vext_def split: if_splits)

lemma level_string_off: "tlog_get_level_string TLOG_OFF = None"
  by (simp add: tlog_get_level_string_def tlog_level_str_def level_order)

section \<open>Witnesses\<close>

abbreviation demo_root :: root_log where
  "demo_root \<equiv> \<lparr>r_logsize = 1, r_logcount = 1, r_logscreen = False, r_max_line = 8, r_multi = None, r_no_prefix = True\<rparr>"

abbreviation demo_time :: tlog_time where
  "demo_time \<equiv> \<lparr>year = 2024, usec = 5000, mon = 6, mday = 2, hour = 3, minute = 4, sec = 5\<rparr>"

lemma demo_prefix: "vext_prefix demo_root demo_time TLOG_WARN ''a.c'' 7 = []"
  by (simp add: vext_prefix_def)

theorem tlog_vext_result_witness:
  "tlog_vext TLOG_INFO (Some demo_root) (Some demo_time) TLOG_WARN ''a.c'' 7 ''abcdefg'' = Put ''ab...\<newline>'' \<and>
   tlog_vext TLOG_INFO (Some demo_root) (Some demo_time) TLOG_WARN ''a.c'' 7 ''abcdef'' = Return (-1)"
  using tlog_vext_result [of TLOG_INFO TLOG_WARN demo_root "''abcdefg''" demo_time "''a.c''" 7 "''abcdefg''"]
    tlog_vext_result [of TLOG_INFO TLOG_WARN demo_root "''abcdef''" demo_time "''a.c''" 7 "''abcdef''"]
  by (simp add: demo_prefix level_order with_newline_def fitted_def)

lemma demo_put: "tlog_vext TLOG_INFO (Some demo_root) (Some demo_time) TLOG_WARN ''a.c'' 7 ''abcdefg'' = Put ''ab...\<newline>''"
  by (simp add: tlog_vext_def level_order demo_prefix tlog_get_level_string_def tlog_level_str_def tlog_root_log_buffer_def
      tlog_root_default_format_def snprintf_def vprintf_line_def Let_def)

lemma tlog_vext_line_bounds_witness: "TLOG_INFO \<le> TLOG_WARN \<and> last ''ab...\<newline>'' = CHR 0x0A"
  using tlog_vext_line_bounds [OF _ demo_put] by simp

lemma tlog_early_print_overrun_witness:
  "tlog_early_print \<lparr>e_disable = False, e_callback = False, e_output = None, e_with_screen = False\<rparr> (Some demo_time)
     (replicate 63 (CHR ''p'')) (replicate 1000 (CHR ''m'')) = None"
  using tlog_early_print_overrun [of "\<lparr>e_disable = False, e_callback = False, e_output = None, e_with_screen = False\<rparr>"
      "replicate 1000 (CHR ''m'')" "replicate 63 (CHR ''p'')" demo_time]
  by (simp add: TLOG_MAX_LINE_LEN_def)

lemma tlog_log_enabled_inverted_witness: "tlog_log_enabled TLOG_DEBUG TLOG_INFO \<and> \<not> tlog_log_enabled TLOG_ERROR TLOG_INFO"
  using tlog_log_enabled_inverted [of TLOG_DEBUG TLOG_INFO] tlog_log_enabled_inverted [of TLOG_ERROR TLOG_INFO]
  by (simp add: level_order)

end
