(* ===== verification/Tlog_Archive.thy ===== *)
theory Tlog_Archive
  imports Tlog_Line "HOL-Library.Finite_Map" "HOL-Library.List_Lexorder" "HOL-Library.Char_ord"
begin

unbundle bit_operations_syntax

text \<open>
  The log files of \<^verbatim>\<open>tlog.c\<close> on disk, first part: the cache in front of \<^verbatim>\<open>localtime_r\<close>, the names of
  archived logs, counting and removing old ones, the lock file and the two ways to archive the
  current file. The theorems: the cache agrees with \<^verbatim>\<open>localtime_r\<close>; the search for a free archive
  name ends; removing old logs leaves the newest \<^verbatim>\<open>logcount\<close> and touches nothing else.
\<close>

section \<open>Files\<close>

text \<open>
  Directories map a directory and a name to an inode; an inode has its bytes and the time of its last
  change; \<open>modes\<close> are the modes of the inodes. \<^verbatim>\<open>last_time\<close> and \<^verbatim>\<open>last_tm\<close> are the cache of \<^verbatim>\<open>_tlog_localtime\<close>.
\<close>

record tm =
  tm_year :: nat
  tm_mon :: nat
  tm_mday :: nat
  tm_hour :: nat
  tm_min :: nat
  tm_sec :: nat

record lfile =
  mtime :: int
  content :: "byte list"

record lworld =
  ents :: "(string \<times> string, nat) fmap"
  inode :: "nat \<Rightarrow> lfile"
  modes :: "nat \<Rightarrow> u32"
  next_ino :: nat
  dirs :: "string \<Rightarrow> bool"
  last_time :: int
  last_tm :: tm
  screen :: "byte list"

text \<open>
  What the system decides: the listing of a directory in some order, \<open>None\<close> if it cannot be opened; whether
  a call on a file that exists succeeds; the local time; process numbers; what a write accomplishes.
\<close>

record lenv =
  e_opendir :: "lworld \<Rightarrow> string \<Rightarrow> string list option"
  e_stat :: "lworld \<Rightarrow> string \<times> string \<Rightarrow> bool"
  e_rename :: "lworld \<Rightarrow> string \<times> string \<Rightarrow> bool"
  e_unlink :: "lworld \<Rightarrow> string \<times> string \<Rightarrow> bool"
  e_open :: "lworld \<Rightarrow> string \<times> string \<Rightarrow> bool"
  e_chmod :: "lworld \<Rightarrow> nat \<Rightarrow> bool"
  e_umask :: u32
  e_mkdir :: "lworld \<Rightarrow> string \<Rightarrow> bool"
  e_mkdir_eacces :: "lworld \<Rightarrow> bool"
  e_lockf :: "lworld \<Rightarrow> bool"
  e_localtime :: "int \<Rightarrow> tm option"
  e_now :: "lworld \<Rightarrow> int"
  e_vfork :: "lworld \<Rightarrow> int"
  e_vfork_eperm :: "lworld \<Rightarrow> bool"
  e_execl :: "lworld \<Rightarrow> bool"
  e_waitpid :: "lworld \<Rightarrow> int"
  e_write :: "lworld \<Rightarrow> nat \<Rightarrow> int"
  e_enospc :: "lworld \<Rightarrow> bool"

text \<open>The fields of \<^verbatim>\<open>struct tlog_log\<close> about files; \<open>lf_fd\<close> is the inode behind the descriptor.\<close>

record logf =
  lf_fd :: "nat option"
  lf_fd_lock :: bool
  lf_filesize :: int
  logdir :: string
  logname :: string
  suffix :: string
  pending_logfile :: string
  rename_pending :: bool
  fail :: bool
  logsize :: int
  logcount :: int
  nocompress :: bool
  zip_pid :: int
  multi_log :: bool
  logscreen :: bool
  print_errmsg :: bool
  last_try :: int
  file_perm :: u32
  archive_perm :: u32
  mode_changed :: bool

abbreviation path :: "logf \<Rightarrow> string \<Rightarrow> string \<times> string" where
  "path log name \<equiv> (logdir log, name)"

abbreviation ent :: "lworld \<Rightarrow> string \<times> string \<Rightarrow> nat option" where
  "ent w p \<equiv> fmlookup (ents w) p"

text \<open>\<^verbatim>\<open>rename\<close> and \<^verbatim>\<open>unlink\<close>; the result is whether they succeed.\<close>

definition sys_rename :: "lenv \<Rightarrow> lworld \<Rightarrow> string \<times> string \<Rightarrow> string \<times> string \<Rightarrow> bool \<times> lworld" where
  "sys_rename env w src dst =
     (case ent w src of
        None \<Rightarrow> (False, w)
      | Some i \<Rightarrow> if e_rename env w src then (True, w\<lparr>ents := fmupd dst i (fmdrop src (ents w))\<rparr>) else (False, w))"

definition sys_unlink :: "lenv \<Rightarrow> lworld \<Rightarrow> string \<times> string \<Rightarrow> lworld" where
  "sys_unlink env w p = (if e_unlink env w p then w\<lparr>ents := fmdrop p (ents w)\<rparr> else w)"

text \<open>\<^verbatim>\<open>open\<close> with \<^verbatim>\<open>O_CREAT\<close>: the inode. A new file gets the mode less the bits of the umask.\<close>

definition sys_create :: "lenv \<Rightarrow> lworld \<Rightarrow> string \<times> string \<Rightarrow> u32 \<Rightarrow> nat option \<times> lworld" where
  "sys_create env w p mode =
     (if \<not> e_open env w p then (None, w)
      else
        (case ent w p of
           Some i \<Rightarrow> (Some i, w)
         | None \<Rightarrow>
            (Some (next_ino w),
             w\<lparr>ents := fmupd p (next_ino w) (ents w), next_ino := next_ino w + 1,
               inode := (inode w)(next_ino w := \<lparr>mtime = e_now env w, content = []\<rparr>),
               modes := (modes w)(next_ino w := mode AND NOT (e_umask env))\<rparr>)))"

text \<open>\<^verbatim>\<open>fchmod\<close> and \<^verbatim>\<open>chmod\<close>; their results are not used.\<close>

definition sys_fchmod :: "lenv \<Rightarrow> nat \<Rightarrow> u32 \<Rightarrow> lworld \<Rightarrow> lworld" where
  "sys_fchmod env i mode w = (if e_chmod env w i then w\<lparr>modes := (modes w)(i := mode)\<rparr> else w)"

definition sys_chmod :: "lenv \<Rightarrow> string \<times> string \<Rightarrow> u32 \<Rightarrow> lworld \<Rightarrow> lworld" where
  "sys_chmod env p mode w = (case ent w p of None \<Rightarrow> w | Some i \<Rightarrow> sys_fchmod env i mode w)"

lemma chmod_frame [simp]:
  "ents (sys_fchmod env i mode w) = ents w" "inode (sys_fchmod env i mode w) = inode w" "next_ino (sys_fchmod env i mode w) = next_ino w"
  "dirs (sys_fchmod env i mode w) = dirs w" "screen (sys_fchmod env i mode w) = screen w"
  "ents (sys_chmod env p mode w) = ents w" "inode (sys_chmod env p mode w) = inode w" "next_ino (sys_chmod env p mode w) = next_ino w"
  "dirs (sys_chmod env p mode w) = dirs w" "screen (sys_chmod env p mode w) = screen w"
  by (simp_all add: sys_fchmod_def sys_chmod_def split: option.splits)

section \<open>Times\<close>

definition tlog_localtime :: "lenv \<Rightarrow> int \<Rightarrow> lworld \<Rightarrow> tm option \<times> lworld" where
  "tlog_localtime env t w =
     (if t = last_time w then (Some (last_tm w), w)
      else
        (case e_localtime env t of
           None \<Rightarrow> (None, w)
         | Some tm \<Rightarrow> (Some tm, w\<lparr>last_time := t, last_tm := tm\<rparr>)))"

definition time_of :: "tm \<Rightarrow> nat \<Rightarrow> tlog_time" where
  "time_of tm us = \<lparr>year = tm_year tm + 1900, usec = us, mon = tm_mon tm + 1, mday = tm_mday tm, hour = tm_hour tm,
                    minute = tm_min tm, sec = tm_sec tm\<rparr>"

definition tlog_getmtime :: "lenv \<Rightarrow> string \<times> string \<Rightarrow> lworld \<Rightarrow> tlog_time option \<times> lworld" where
  "tlog_getmtime env p w =
     (case ent w p of
        None \<Rightarrow> (None, w)
      | Some i \<Rightarrow>
         if \<not> e_stat env w p then (None, w)
         else (let (tm, w) = tlog_localtime env (mtime (inode w i)) w in (map_option (\<lambda>tm. time_of tm 0) tm, w)))"

text \<open>\<open>tv\<close> is the result of \<^verbatim>\<open>gettimeofday\<close>.\<close>

definition tlog_gettime :: "lenv \<Rightarrow> (int \<times> nat) option \<Rightarrow> lworld \<Rightarrow> tlog_time option \<times> lworld" where
  "tlog_gettime env tv w =
     (case tv of
        None \<Rightarrow> (None, w)
      | Some (s, us) \<Rightarrow> (let (tm, w) = tlog_localtime env s w in (map_option (\<lambda>tm. time_of tm us) tm, w)))"

section \<open>Names of archives\<close>

definition archive_stamp :: "logf \<Rightarrow> tlog_time \<Rightarrow> string" where
  "archive_stamp log t = logname log @ ''-'' @ zeros 4 (year t) @ zeros 2 (mon t) @ zeros 2 (mday t) @ ''-'' @
     zeros 2 (hour t) @ zeros 2 (minute t) @ zeros 2 (sec t)"

definition archive_name :: "logf \<Rightarrow> tlog_time \<Rightarrow> nat \<Rightarrow> string" where
  "archive_name log t i = archive_stamp log t @ (if i = 0 then [] else ''-'' @ dec i) @ suffix log"

lemma dec_inj: "dec m = dec n \<longleftrightarrow> m = n"
proof (induction m arbitrary: n rule: dec.induct)
  case (1 m)
  have digit: "(''0123456789'' ! a = ''0123456789'' ! b) = (a = b)" if "a < 10" "b < 10" for a b :: nat
    using nth_eq_iff_index_eq [of "''0123456789''" a b] that by simp
  have ne: "dec k \<noteq> []" "[] \<noteq> dec k" for k by (simp_all add: dec.simps [of k])
  show ?case
  proof (cases "m < 10"; cases "n < 10")
    assume "m < 10" "n < 10"
    then show ?thesis using digit by (simp add: dec.simps [of m] dec.simps [of n])
  next
    assume "m < 10" "\<not> n < 10"
    then show ?thesis using ne by (auto simp add: dec.simps [of m] dec.simps [of n])
  next
    assume "\<not> m < 10" "n < 10"
    then show ?thesis using ne by (auto simp add: dec.simps [of m] dec.simps [of n])
  next
    assume mn: "\<not> m < 10" "\<not> n < 10"
    then have "dec m = dec n \<longleftrightarrow> m div 10 = n div 10 \<and> m mod 10 = n mod 10"
      using "1.IH" digit [of "m mod 10" "n mod 10"] by (simp add: dec.simps [of m] dec.simps [of n])
    then show ?thesis by (metis mod_mult_div_eq)
  qed
qed

lemma archive_name_inj: "archive_name log t i = archive_name log t j \<longleftrightarrow> i = j"
  by (auto simp: archive_name_def dec_inj)

text \<open>The loop of \<^verbatim>\<open>_tlog_rename_logfile\<close> that looks for a name not taken.\<close>

function free_name :: "lworld \<Rightarrow> logf \<Rightarrow> tlog_time \<Rightarrow> nat \<Rightarrow> string" where
  "free_name w log t i =
     (if ent w (path log (archive_name log t i)) \<noteq> None then free_name w log t (i + 1) else archive_name log t i)"
  by pat_completeness auto
termination
proof (relation "measure (\<lambda>(w, log, t, i). card {j. i \<le> j \<and> path log (archive_name log t j) \<in> fmdom' (ents w)})")
  fix w log t i
  assume taken: "ent w (path log (archive_name log t i)) \<noteq> None"
  let ?S = "\<lambda>i. {j. i \<le> j \<and> path log (archive_name log t j) \<in> fmdom' (ents w)}"
  have "finite ((\<lambda>j. path log (archive_name log t j)) -` fmdom' (ents w))"
    by (rule finite_vimageI) (auto simp: inj_def archive_name_inj)
  then have fin: "finite (?S i)" by (rule rev_finite_subset) auto
  have mem: "i \<in> ?S i" using taken by (auto simp: fmlookup_dom'_iff)
  have next_set: "?S (i + 1) = ?S i - {i}" by auto
  have "card (?S (i + 1)) < card (?S i)" unfolding next_set by (rule card_Diff1_less [OF fin mem])
  then show "((w, log, t, i + 1), w, log, t, i)
      \<in> measure (\<lambda>(w, log, t, i). card {j. i \<le> j \<and> path log (archive_name log t j) \<in> fmdom' (ents w)})" by simp
qed simp

declare free_name.simps [simp del]

lemma free_name_fresh: "ent w (path log (free_name w log t i)) = None \<and> (\<exists>j. free_name w log t i = archive_name log t j)"
proof (induction w log t i rule: free_name.induct)
  case (1 w log t i)
  then show ?case using free_name.simps [of w log t i] by (cases "ent w (path log (archive_name log t i))") auto
qed

definition tlog_rename_logfile :: "lenv \<Rightarrow> logf \<Rightarrow> string \<Rightarrow> lworld \<Rightarrow> int \<times> lworld" where
  "tlog_rename_logfile env log src w =
     (case tlog_getmtime env (path log src) w of
        (None, w) \<Rightarrow> (-1, w)
      | (Some t, w) \<Rightarrow>
         (let archive_file = path log (free_name w log t 0);
              (ok, w) = sys_rename env w (path log src) archive_file in
          if \<not> ok then (-1, w) else (0, sys_chmod env archive_file (archive_perm log) w)))"

section \<open>Listing, counting and removing archives\<close>

text \<open>\<^verbatim>\<open>_tlog_list_dir\<close>: the callback sees every entry but the two dot entries; the loop ends when it fails.\<close>

primrec list_loop :: "(string \<Rightarrow> 'u \<Rightarrow> int \<times> 'u) \<Rightarrow> string list \<Rightarrow> 'u \<Rightarrow> int \<times> 'u" where
  "list_loop callback [] u = (0, u)"
| "list_loop callback (n # ns) u =
     (if n = ''.'' \<or> n = ''..'' then list_loop callback ns u
      else (let (ret, u) = callback n u in if ret \<noteq> 0 then (-1, u) else list_loop callback ns u))"

definition tlog_list_dir :: "lenv \<Rightarrow> lworld \<Rightarrow> string \<Rightarrow> (string \<Rightarrow> 'u \<Rightarrow> int \<times> 'u) \<Rightarrow> 'u \<Rightarrow> int \<times> 'u" where
  "tlog_list_dir env w d callback u =
     (case e_opendir env w d of None \<Rightarrow> (-1, u) | Some ns \<Rightarrow> list_loop callback ns u)"

text \<open>The test both callbacks make\<close>

definition is_archive :: "logf \<Rightarrow> string \<Rightarrow> bool" where
  "is_archive log d_name \<longleftrightarrow>
     strstr d_name (suffix log) \<noteq> None \<and> take (length (logname log @ ''-'')) d_name = logname log @ ''-''"

definition tlog_count_log_callback :: "logf \<Rightarrow> string \<Rightarrow> int \<Rightarrow> int \<times> int" where
  "tlog_count_log_callback log d_name lognum = (0, if is_archive log d_name then lognum + 1 else lognum)"

definition TLOG_LOG_NAME_LEN :: nat where "TLOG_LOG_NAME_LEN = 256"

text \<open>The user data of the second callback are the name and the time of the oldest log so far.\<close>

definition tlog_get_oldest_callback :: "lenv \<Rightarrow> lworld \<Rightarrow> logf \<Rightarrow> string \<Rightarrow> string \<times> int \<Rightarrow> int \<times> (string \<times> int)" where
  "tlog_get_oldest_callback env w log d_name oldest =
     (if \<not> is_archive log d_name then (0, oldest)
      else
        (case ent w (path log d_name) of
           None \<Rightarrow> (-1, oldest)
         | Some i \<Rightarrow>
            if \<not> e_stat env w (path log d_name) then (-1, oldest)
            else if snd oldest = 0 \<or> snd oldest > mtime (inode w i)
            then (0, (take (TLOG_LOG_NAME_LEN - 1) d_name, mtime (inode w i)))
            else (0, oldest)))"

definition tlog_remove_oldestlog :: "lenv \<Rightarrow> logf \<Rightarrow> lworld \<Rightarrow> int \<times> lworld" where
  "tlog_remove_oldestlog env log w =
     (let (ret, oldest) = tlog_list_dir env w (logdir log) (tlog_get_oldest_callback env w log) ([], 0) in
      if ret \<noteq> 0 then (-1, w) else (0, sys_unlink env w (path log (fst oldest))))"

definition tlog_remove_oldlog :: "lenv \<Rightarrow> logf \<Rightarrow> lworld \<Rightarrow> int \<times> lworld" where
  "tlog_remove_oldlog env log w =
     (let (ret, lognum) = tlog_list_dir env w (logdir log) (tlog_count_log_callback log) 0 in
      if ret \<noteq> 0 then (-1, w)
      else (0, ((\<lambda>w. snd (tlog_remove_oldestlog env log w)) ^^ nat (lognum - logcount log)) w))"

section \<open>The lock file\<close>

definition S_IRUSR :: u32 where "S_IRUSR = 256"
definition S_IWUSR :: u32 where "S_IWUSR = 128"
definition S_IRGRP :: u32 where "S_IRGRP = 32"

definition lock_file :: "logf \<Rightarrow> string \<times> string" where
  "lock_file log = path log (logname log @ ''.lock'')"

definition tlog_log_unlock :: "lenv \<Rightarrow> logf \<Rightarrow> lworld \<Rightarrow> logf \<times> lworld" where
  "tlog_log_unlock env log w =
     (if \<not> lf_fd_lock log then (log, w) else (log\<lparr>lf_fd_lock := False\<rparr>, sys_unlink env w (lock_file log)))"

definition tlog_log_lock :: "lenv \<Rightarrow> logf \<Rightarrow> lworld \<Rightarrow> int \<times> logf \<times> lworld" where
  "tlog_log_lock env log w =
     (if \<not> multi_log log then (0, log, w)
      else
        (case sys_create env w (lock_file log) (S_IRUSR OR S_IWUSR) of
           (None, w) \<Rightarrow> (-1, log, w)
         | (Some _, w) \<Rightarrow> if e_lockf env w then (0, log\<lparr>lf_fd_lock := True\<rparr>, w) else (-1, log, w)))"

section \<open>Archiving the current file\<close>

definition unlock_and :: "lenv \<Rightarrow> int \<Rightarrow> logf \<Rightarrow> lworld \<Rightarrow> int \<times> logf \<times> lworld" where
  "unlock_and env rc log w = (let (log, w) = tlog_log_unlock env log w in (rc, log, w))"

text \<open>The step both ways share: the current file becomes the pending one, unless there is one already.\<close>

definition to_pending :: "lenv \<Rightarrow> logf \<Rightarrow> lworld \<Rightarrow> bool \<times> lworld" where
  "to_pending env log w =
     (if ent w (path log (logname log @ ''.pending'')) \<noteq> None then (True, w)
      else sys_rename env w (path log (logname log)) (path log (logname log @ ''.pending'')))"

definition tlog_archive_log_nocompress :: "lenv \<Rightarrow> logf \<Rightarrow> lworld \<Rightarrow> int \<times> logf \<times> lworld" where
  "tlog_archive_log_nocompress env log w =
     (let (rc, log, w) = tlog_log_lock env log w in
      if rc \<noteq> 0 then (-1, log, w)
      else
        (let (ok, w) = to_pending env log w in
         if \<not> ok then unlock_and env (-1) log w
         else
           (let (rc, w) = tlog_rename_logfile env log (logname log @ ''.pending'') w in
            if rc \<noteq> 0 then unlock_and env (-1) log w
            else unlock_and env 0 log (snd (tlog_remove_oldlog env log w)))))"

text \<open>
  \<^verbatim>\<open>vfork\<close> shares the memory: when \<^verbatim>\<open>execl\<close> fails the child has set \<^verbatim>\<open>nocompress\<close> for the parent, which sees
  an ordinary child.
\<close>

definition start_gzip :: "lenv \<Rightarrow> logf \<Rightarrow> lworld \<Rightarrow> int \<times> logf \<times> lworld" where
  "start_gzip env log w =
     (if zip_pid log > 0 then (0, log, w)
      else
        (let pid = e_vfork env w in
         if pid < 0 then unlock_and env (-1) (if e_vfork_eperm env w then log\<lparr>nocompress := True\<rparr> else log) w
         else (0, (if e_execl env w then log else log\<lparr>nocompress := True\<rparr>)\<lparr>zip_pid := pid\<rparr>, w)))"

definition tlog_archive_log_compressed :: "lenv \<Rightarrow> logf \<Rightarrow> lworld \<Rightarrow> int \<times> logf \<times> lworld" where
  "tlog_archive_log_compressed env log w =
     (let gzip_file = logname log @ ''.pending.gz''; (rc, log, w) = tlog_log_lock env log w in
      if rc \<noteq> 0 then (-1, log, w)
      else
        (let (rc, w) = (if ent w (path log gzip_file) \<noteq> None then tlog_rename_logfile env log gzip_file w else (0, w)) in
         if rc \<noteq> 0 then unlock_and env (-1) log w
         else
           (let (ok, w) = to_pending env log w in
            if \<not> ok then unlock_and env (-1) log w else start_gzip env log w)))"

definition tlog_archive_log :: "lenv \<Rightarrow> logf \<Rightarrow> lworld \<Rightarrow> int \<times> logf \<times> lworld" where
  "tlog_archive_log env log w =
     (if nocompress log then tlog_archive_log_nocompress env log w else tlog_archive_log_compressed env log w)"

text \<open>\<^verbatim>\<open>_tlog_wait_pid\<close>\<close>

definition tlog_wait_pid :: "lenv \<Rightarrow> logf \<Rightarrow> lworld \<Rightarrow> logf \<times> lworld" where
  "tlog_wait_pid env log w =
     (if zip_pid log \<le> 0 then (log, w)
      else if e_waitpid env w \<le> 0 then (log, w)
      else
        (let log = log\<lparr>zip_pid := -1\<rparr>;
             (rc, w) = tlog_rename_logfile env log (logname log @ ''.pending.gz'') w in
         if rc \<noteq> 0 then tlog_log_unlock env log w
         else tlog_log_unlock env log (snd (tlog_remove_oldlog env log w))))"

section \<open>Theorems\<close>

text \<open>
  The cache agrees with \<^verbatim>\<open>localtime_r\<close>. At the start it holds time 0 with an empty \<^verbatim>\<open>struct tm\<close>.
\<close>

definition cache_ok :: "lenv \<Rightarrow> lworld \<Rightarrow> bool" where
  "cache_ok env w \<longleftrightarrow> last_time w = 0 \<or> e_localtime env (last_time w) = Some (last_tm w)"

primrec localtimes :: "lenv \<Rightarrow> int list \<Rightarrow> lworld \<Rightarrow> tm option list" where
  "localtimes env [] w = []"
| "localtimes env (t # ts) w = (let (r, w) = tlog_localtime env t w in r # localtimes env ts w)"

lemma localtime_cached:
  assumes "cache_ok env w" and "t \<noteq> 0"
  shows "fst (tlog_localtime env t w) = e_localtime env t \<and> cache_ok env (snd (tlog_localtime env t w))"
  using assms by (auto simp: tlog_localtime_def cache_ok_def split: option.splits)

text \<open>
  The cached \<^verbatim>\<open>_tlog_localtime\<close> is equivalent to \<^verbatim>\<open>localtime_r\<close>: started with the zero-initialised cache, any
  sequence of calls at times other than 0 gives what \<^verbatim>\<open>localtime_r\<close> gives.
\<close>

lemma tlog_localtime_equiv:
  assumes "last_time w = 0" and "0 \<notin> set ts"
  shows "localtimes env ts w = map (e_localtime env) ts"
proof -
  have "cache_ok env w" using assms(1) by (simp add: cache_ok_def)
  then show ?thesis
    using assms(2)
  proof (induction ts arbitrary: w)
    case (Cons t ts)
    then show ?case using localtime_cached [OF Cons.prems(1), of t] by (simp add: split_beta)
  qed simp
qed

lemma localtime_at_zero: "last_time w = 0 \<Longrightarrow> tlog_localtime env 0 w = (Some (last_tm w), w)"
  by (simp add: tlog_localtime_def)

section \<open>Removing old logs\<close>

definition archives :: "logf \<Rightarrow> lworld \<Rightarrow> string set" where
  "archives log w = {n. ent w (path log n) \<noteq> None \<and> is_archive log n}"

definition mtime_at :: "lworld \<Rightarrow> string \<times> string \<Rightarrow> int" where
  "mtime_at w p = mtime (inode w (the (ent w p)))"

text \<open>The system calls work, and a directory listing has every entry once.\<close>

definition calls_ok :: "lenv \<Rightarrow> bool" where
  "calls_ok env \<longleftrightarrow>
     (\<forall>w d p. e_stat env w p \<and> e_unlink env w p \<and> e_rename env w p \<and> (\<forall>i. e_chmod env w i) \<and>
        (\<exists>ns. e_opendir env w d = Some ns \<and> distinct ns \<and> set ns = {''.'', ''..''} \<union> {n. ent w (d, n) \<noteq> None}))"

text \<open>Archives have a time after the epoch and a name that \<^verbatim>\<open>d_name\<close> can hold.\<close>

definition archives_ok :: "logf \<Rightarrow> lworld \<Rightarrow> bool" where
  "archives_ok log w \<longleftrightarrow> (\<forall>n \<in> archives log w. 0 < mtime_at w (path log n) \<and> length n < TLOG_LOG_NAME_LEN)"

lemma dots_no_archive: "\<not> is_archive log ''.''" "\<not> is_archive log ''..''"
  by (cases "logname log"; auto simp: is_archive_def take_Cons' split: if_splits)+

lemma is_archive_no_dots: "is_archive log n \<Longrightarrow> n \<notin> {''.'', ''..''}"
  using dots_no_archive [of log] by blast

lemma archives_listed:
  assumes "set ns = {''.'', ''..''} \<union> {n. ent w (path log n) \<noteq> None}"
  shows "set (filter (is_archive log) ns) = archives log w"
proof (rule set_eqI)
  fix n
  show "n \<in> set (filter (is_archive log) ns) \<longleftrightarrow> n \<in> archives log w"
    using is_archive_no_dots [of log n] by (cases "is_archive log n") (simp_all add: assms archives_def)
qed

lemma finite_names: "finite {n. ent w (d, n) \<noteq> None}"
proof -
  have "finite (Pair d -` fmdom' (ents w))" by (rule finite_vimageI) (auto simp: inj_def)
  then show ?thesis by (rule rev_finite_subset) (auto simp: fmlookup_dom'_iff)
qed

lemma finite_archives: "finite (archives log w)"
  by (rule finite_subset [OF _ finite_names [of w "logdir log"]]) (auto simp: archives_def)

lemma list_loop_count:
  "list_loop (tlog_count_log_callback log) ns k = (0, k + int (length (filter (is_archive log) ns)))"
  by (induction ns arbitrary: k) (auto simp: tlog_count_log_callback_def dots_no_archive)

lemma list_loop_oldest:
  assumes "\<forall>p. e_stat env w p" and "\<forall>n \<in> set ns. is_archive log n \<longrightarrow> n \<in> archives log w" and "archives_ok log w" and "0 \<le> m"
  shows "\<exists>o' m'. list_loop (tlog_get_oldest_callback env w log) ns (oname, m) = (0, (o', m')) \<and> 0 \<le> m' \<and>
           (m' = 0 \<longleftrightarrow> m = 0 \<and> (\<forall>n \<in> set ns. \<not> is_archive log n)) \<and> (m \<noteq> 0 \<longrightarrow> m' \<le> m) \<and>
           ((o', m') = (oname, m) \<or> o' \<in> archives log w \<and> m' = mtime_at w (path log o')) \<and>
           (\<forall>n \<in> set ns. is_archive log n \<longrightarrow> m' \<le> mtime_at w (path log n))"
  using assms(2,4)
proof (induction ns arbitrary: oname m)
  case (Cons n ns)
  show ?case
  proof (cases "is_archive log n")
    case False
    then have "list_loop (tlog_get_oldest_callback env w log) (n # ns) (oname, m) =
        list_loop (tlog_get_oldest_callback env w log) ns (oname, m)" by (simp add: tlog_get_oldest_callback_def)
    then show ?thesis using Cons.IH [of m oname] Cons.prems False by auto
  next
    case True
    then have a: "n \<in> archives log w" "n \<noteq> ''.''" "n \<noteq> ''..''" using Cons.prems dots_no_archive by auto
    then obtain i where i: "ent w (path log n) = Some i" by (auto simp: archives_def)
    have pos: "0 < mtime (inode w i)" "length n < TLOG_LOG_NAME_LEN"
      using assms(3) a i by (auto simp: archives_ok_def mtime_at_def)
    define u where "u = (if m = 0 \<or> m > mtime (inode w i) then (n, mtime (inode w i)) else (oname, m))"
    have l: "list_loop (tlog_get_oldest_callback env w log) (n # ns) (oname, m) =
        list_loop (tlog_get_oldest_callback env w log) ns (fst u, snd u)"
      using True a i assms(1) pos by (simp add: tlog_get_oldest_callback_def u_def)
    obtain o' m' where r: "list_loop (tlog_get_oldest_callback env w log) ns (fst u, snd u) = (0, (o', m'))" "0 \<le> m'"
      "m' = 0 \<longleftrightarrow> snd u = 0 \<and> (\<forall>n \<in> set ns. \<not> is_archive log n)" "snd u \<noteq> 0 \<longrightarrow> m' \<le> snd u"
      "(o', m') = (fst u, snd u) \<or> o' \<in> archives log w \<and> m' = mtime_at w (path log o')"
      "\<forall>n \<in> set ns. is_archive log n \<longrightarrow> m' \<le> mtime_at w (path log n)"
    proof -
      have "0 \<le> snd u" using pos Cons.prems by (auto simp: u_def)
      moreover have "\<forall>n \<in> set ns. is_archive log n \<longrightarrow> n \<in> archives log w" using Cons.prems by simp
      ultimately show thesis using Cons.IH [of "snd u" "fst u"] by (elim exE conjE meta_impE) (assumption | rule that)+
    qed
    show ?thesis
      by (rule exI [of _ o'], rule exI [of _ m']) (use l r a i pos True in \<open>auto simp: u_def mtime_at_def split: if_splits\<close>)
  qed
qed (use assms in auto)

lemma calls_okD:
  assumes "calls_ok env"
  shows "e_stat env w p" "e_unlink env w p" "e_rename env w p"
    "\<exists>ns. e_opendir env w d = Some ns \<and> distinct ns \<and> set ns = {''.'', ''..''} \<union> {n. ent w (d, n) \<noteq> None}"
    "e_chmod env w i"
  using assms unfolding calls_ok_def by blast+

lemma remove_oldest_step:
  assumes ok: "calls_ok env" "archives_ok log w" and ne: "archives log w \<noteq> {}"
  shows "\<exists>a \<in> archives log w. (\<forall>n \<in> archives log w. mtime_at w (path log a) \<le> mtime_at w (path log n)) \<and>
           tlog_remove_oldestlog env log w = (0, w\<lparr>ents := fmdrop (path log a) (ents w)\<rparr>)"
proof -
  obtain ns where ns: "e_opendir env w (logdir log) = Some ns" "set ns = {''.'', ''..''} \<union> {n. ent w (path log n) \<noteq> None}"
    using calls_okD(4) [OF ok(1), of w "logdir log"] by (elim exE conjE) (rule that)
  have calls: "\<forall>p. e_stat env w p" "\<forall>p. e_unlink env w p" using calls_okD [OF ok(1)] by blast+
  have in_ns: "is_archive log n \<Longrightarrow> n \<in> set ns \<longleftrightarrow> n \<in> archives log w" for n
    using archives_listed [OF ns(2)] by auto
  obtain a m where l: "list_loop (tlog_get_oldest_callback env w log) ns ([], 0) = (0, (a, m))"
    "m = 0 \<longleftrightarrow> (\<forall>n \<in> set ns. \<not> is_archive log n)" "(a, m) = ([], 0) \<or> a \<in> archives log w \<and> m = mtime_at w (path log a)"
    "\<forall>n \<in> set ns. is_archive log n \<longrightarrow> m \<le> mtime_at w (path log n)"
    using list_loop_oldest [OF calls(1) _ ok(2), of ns 0 "[]"] in_ns by auto
  have "m \<noteq> 0" using ne l(2) in_ns by (auto simp: archives_def)
  then have a: "a \<in> archives log w" "m = mtime_at w (path log a)" using l(3) by auto
  moreover have "\<forall>n \<in> archives log w. m \<le> mtime_at w (path log n)" using l(4) in_ns by (auto simp: archives_def)
  moreover have "tlog_remove_oldestlog env log w = (0, w\<lparr>ents := fmdrop (path log a) (ents w)\<rparr>)"
    using ns(1) l(1) calls(2) by (simp add: tlog_remove_oldestlog_def tlog_list_dir_def sys_unlink_def)
  ultimately show ?thesis by auto
qed

text \<open>
  The contract: \<open>w'\<close> is \<open>w\<close> without some archives of the log, \<open>k\<close> are left (or all there were), and none
  that is gone is newer than one that is left.
\<close>

definition pruned :: "logf \<Rightarrow> nat \<Rightarrow> lworld \<Rightarrow> lworld \<Rightarrow> bool" where
  "pruned log k w w' \<longleftrightarrow>
     (\<exists>gone \<subseteq> archives log w.
        w' = w\<lparr>ents := fmfilter (\<lambda>p. \<not> (fst p = logdir log \<and> snd p \<in> gone)) (ents w)\<rparr> \<and>
        card (archives log w - gone) = min k (card (archives log w)) \<and>
        (\<forall>g \<in> gone. \<forall>n \<in> archives log w - gone. mtime_at w (path log g) \<le> mtime_at w (path log n)))"

lemma archives_drop: "archives log (w\<lparr>ents := fmdrop (path log a) (ents w)\<rparr>) = archives log w - {a}"
  by (auto simp: archives_def)

lemma mtime_drop: "n \<noteq> a \<Longrightarrow> mtime_at (w\<lparr>ents := fmdrop (path log a) (ents w)\<rparr>) (path log n) = mtime_at w (path log n)"
  by (simp add: mtime_at_def)

lemma remove_loop:
  assumes "calls_ok env" and "archives_ok log w" and "j + k = card (archives log w)"
  shows "pruned log k w (((\<lambda>w. snd (tlog_remove_oldestlog env log w)) ^^ j) w)"
  using assms(2,3)
proof (induction j arbitrary: w)
  case 0
  have "fmfilter (\<lambda>p. \<not> (fst p = logdir log \<and> snd p \<in> {})) (ents w) = ents w" by (rule fmap_ext) simp
  then show ?case using 0 by (auto simp: pruned_def intro!: exI [of _ "{}"])
next
  case (Suc j)
  then have "archives log w \<noteq> {}" by auto
  from remove_oldest_step [OF assms(1) Suc.prems(1) this] obtain a where a: "a \<in> archives log w"
    "\<forall>n \<in> archives log w. mtime_at w (path log a) \<le> mtime_at w (path log n)"
    "tlog_remove_oldestlog env log w = (0, w\<lparr>ents := fmdrop (path log a) (ents w)\<rparr>)" by blast
  define u where "u = w\<lparr>ents := fmdrop (path log a) (ents w)\<rparr>"
  have arch: "archives log u = archives log w - {a}" unfolding u_def by (rule archives_drop)
  have time: "mtime_at u (path log n) = mtime_at w (path log n)" if "n \<in> archives log u" for n
    using that arch mtime_drop [of n a log w] by (simp add: u_def)
  have card: "card (archives log u) = j + k" using arch a(1) Suc.prems(2) finite_archives [of log w] by simp
  have "archives_ok log u" using Suc.prems(1) arch time by (auto simp: archives_ok_def)
  from Suc.IH [OF this] card have "pruned log k u (((\<lambda>w. snd (tlog_remove_oldestlog env log w)) ^^ j) u)" by simp
  then obtain gone where g: "gone \<subseteq> archives log u"
    "((\<lambda>w. snd (tlog_remove_oldestlog env log w)) ^^ j) u = u\<lparr>ents := fmfilter (\<lambda>p. \<not> (fst p = logdir log \<and> snd p \<in> gone)) (ents u)\<rparr>"
    "card (archives log u - gone) = min k (card (archives log u))"
    "\<forall>g \<in> gone. \<forall>n \<in> archives log u - gone. mtime_at u (path log g) \<le> mtime_at u (path log n)"
    unfolding pruned_def by (elim exE conjE) (rule that)
  let ?gone = "insert a gone"
  have "fmfilter (\<lambda>p. \<not> (fst p = logdir log \<and> snd p \<in> gone)) (ents u) =
      fmfilter (\<lambda>p. \<not> (fst p = logdir log \<and> snd p \<in> ?gone)) (ents w)"
    by (rule fmap_ext) (auto simp: u_def)
  then have r: "((\<lambda>w. snd (tlog_remove_oldestlog env log w)) ^^ Suc j) w =
      w\<lparr>ents := fmfilter (\<lambda>p. \<not> (fst p = logdir log \<and> snd p \<in> ?gone)) (ents w)\<rparr>"
    using g(2) a(3) by (simp add: funpow_swap1 u_def del: funpow.simps) (simp add: funpow_Suc_right del: funpow.simps)
  have "archives log u - gone = archives log w - ?gone" using arch by auto
  moreover have "\<forall>g \<in> ?gone. \<forall>n \<in> archives log w - ?gone. mtime_at w (path log g) \<le> mtime_at w (path log n)"
    using g(1,4) a(2) time arch by (auto simp: subset_iff)
  ultimately show ?case unfolding pruned_def r
    by (intro exI [of _ ?gone]) (use g(1,3) a(1) arch card Suc.prems(2) in auto)
qed

lemma remove_oldlog_pruned:
  assumes "calls_ok env" and "archives_ok log w" and "0 \<le> logcount log"
  shows "\<exists>w'. tlog_remove_oldlog env log w = (0, w') \<and> pruned log (nat (logcount log)) w w'"
proof -
  obtain ns where ns: "e_opendir env w (logdir log) = Some ns" "distinct ns"
    "set ns = {''.'', ''..''} \<union> {n. ent w (path log n) \<noteq> None}" 
    using calls_okD(4) [OF assms(1), of w "logdir log"] by (elim exE conjE) (rule that)
  have "set (filter (is_archive log) ns) = archives log w" by (rule archives_listed [OF ns(3)])
  then have len: "length (filter (is_archive log) ns) = card (archives log w)"
    using ns(2) by (metis distinct_card distinct_filter)
  define j k where "j = nat (int (card (archives log w)) - logcount log)" and "k = card (archives log w) - j"
  have "pruned log k w (((\<lambda>w. snd (tlog_remove_oldestlog env log w)) ^^ j) w)"
    by (rule remove_loop [OF assms(1,2)]) (use assms(3) in \<open>simp add: j_def k_def nat_le_iff\<close>)
  moreover have "min k (card (archives log w)) = min (nat (logcount log)) (card (archives log w))"
    using assms(3) by (auto simp: j_def k_def min_def)
  ultimately have "pruned log (nat (logcount log)) w (((\<lambda>w. snd (tlog_remove_oldestlog env log w)) ^^ j) w)"
    by (simp only: pruned_def)
  then show ?thesis using ns(1) len by (simp add: tlog_remove_oldlog_def tlog_list_dir_def list_loop_count j_def)
qed

text \<open>
  Removing old logs. When the system calls work, \<^verbatim>\<open>_tlog_remove_oldlog\<close> leaves \<^verbatim>\<open>logcount\<close> of the archives of
  the log, or all if there are fewer; those it removes are not newer than any it leaves, and it touches
  no other file.
\<close>

lemma tlog_remove_oldlog_keeps_newest:
  assumes "calls_ok env" and "archives_ok log w" and "0 \<le> logcount log"
  shows "\<exists>w'. tlog_remove_oldlog env log w = (0, w') \<and> pruned log (nat (logcount log)) w w'"
  using remove_oldlog_pruned [OF assms] by blast

section \<open>Archiving without compression\<close>

lemma free_name_cong:
  assumes "\<And>j. ent w (path log (archive_name log t j)) = ent w' (path log (archive_name log t j))"
  shows "free_name w log t i = free_name w' log t i"
  using assms
proof (induction w log t i rule: free_name.induct)
  case (1 w log t i)
  then show ?case by (simp add: free_name.simps [of w log t i] free_name.simps [of w' log t i])
qed

lemma free_name_log_cong:
  assumes "logdir log' = logdir log" and "archive_name log' = archive_name log"
  shows "free_name w log' t i = free_name w log t i"
  using assms
proof (induction w log t i rule: free_name.induct)
  case (1 w log t i)
  then show ?case by (simp add: free_name.simps [of w log t i] free_name.simps [of w log' t i])
qed

lemma strstr_suffix: "strstr (xs @ suf) suf \<noteq> None"
proof (induction xs)
  case Nil
  then show ?case by (cases suf) auto
next
  case (Cons x xs)
  then show ?case by auto
qed

lemma strstr_Nil: "strstr xs [] \<noteq> None"
  using strstr_suffix [of xs "[]"] by simp

lemma archive_name_is_archive: "is_archive log (archive_name log t j)"
proof -
  have "strstr (archive_name log t j) (suffix log) \<noteq> None"
    unfolding archive_name_def append_assoc [symmetric] by (rule strstr_suffix)
  then show ?thesis by (simp add: is_archive_def archive_name_def archive_stamp_def)
qed

lemma not_archive: "\<not> is_archive log (logname log)" "\<not> is_archive log (logname log @ CHR ''.'' # rest)"
  by (auto simp: is_archive_def)

lemma archive_name_neq: "archive_name log t j \<noteq> logname log" "archive_name log t j \<noteq> logname log @ ''.pending''"
  using archive_name_is_archive [of log t j] not_archive [of log] by metis+

lemma rename_logfile_ok:
  assumes "calls_ok env" and "ent w (path log src) = Some i"
    and "tlog_localtime env (mtime (inode w i)) w = (Some tm, w1)"
  shows "tlog_rename_logfile env log src w =
     (0, w1\<lparr>ents := fmupd (path log (free_name w log (time_of tm 0) 0)) i (fmdrop (path log src) (ents w)),
           modes := (modes w)(i := archive_perm log)\<rparr>)"
proof -
  have e: "ents w1 = ents w" "modes w1 = modes w" using assms(3) by (auto simp: tlog_localtime_def split: if_splits option.splits)
  then have "free_name w1 log (time_of tm 0) 0 = free_name w log (time_of tm 0) 0" by (intro free_name_cong) simp
  then show ?thesis
    using assms e calls_okD(1,3,5) [OF assms(1)]
    by (simp add: tlog_rename_logfile_def tlog_getmtime_def sys_rename_def sys_chmod_def sys_fchmod_def)
qed

text \<open>What archiving does: the current file has the free name \<open>a\<close> and the mode of an archive, then old archives go.\<close>

definition rotated :: "logf \<Rightarrow> string \<Rightarrow> lworld \<Rightarrow> lworld \<Rightarrow> bool" where
  "rotated log a w w' \<longleftrightarrow>
     (\<exists>w1 i. ent w (path log (logname log)) = Some i \<and> ent w (path log a) = None \<and> is_archive log a \<and>
        ents w1 = fmupd (path log a) i (fmdrop (path log (logname log)) (ents w)) \<and> inode w1 = inode w \<and>
        modes w1 = (modes w)(i := archive_perm log) \<and> next_ino w1 = next_ino w \<and> dirs w1 = dirs w \<and> pruned log (nat (logcount log)) w1 w')"

lemma nocompress_rotates:
  assumes ok: "calls_ok env" "archives_ok log w" and log: "\<not> multi_log log" "\<not> lf_fd_lock log" "0 \<le> logcount log"
    and cur: "ent w (path log (logname log)) = Some i" "0 < mtime (inode w i)"
    and free: "ent w (path log (logname log @ ''.pending'')) = None"
    and tm: "fst (tlog_localtime env (mtime (inode w i)) w) = Some tm"
    and short: "length (free_name w log (time_of tm 0) 0) < TLOG_LOG_NAME_LEN"
  shows "\<exists>w'. tlog_archive_log_nocompress env log w = (0, log, w') \<and> rotated log (free_name w log (time_of tm 0) 0) w w'"
proof -
  let ?a = "free_name w log (time_of tm 0) 0" and ?pend = "path log (logname log @ ''.pending'')"
  define wp where "wp = w\<lparr>ents := fmupd ?pend i (fmdrop (path log (logname log)) (ents w))\<rparr>"
  have p: "to_pending env log w = (True, wp)"
    using free cur calls_okD(3) [OF ok(1)] by (simp add: to_pending_def sys_rename_def wp_def)
  obtain wl where wl: "tlog_localtime env (mtime (inode wp i)) wp = (Some tm, wl)" "inode wl = inode w" "next_ino wl = next_ino w"
    "dirs wl = dirs w" "modes wl = modes w"
    using tm by (auto simp: tlog_localtime_def wp_def split: if_splits option.splits)
  have name: "free_name wp log (time_of tm 0) 0 = ?a"
    by (rule free_name_cong) (simp add: wp_def archive_name_neq archive_name_neq(2) [symmetric])
  have fresh: "ent w (path log ?a) = None" "is_archive log ?a" "?a \<noteq> logname log" "?a \<noteq> logname log @ ''.pending''"
    using free_name_fresh [of w log "time_of tm 0" 0] archive_name_is_archive archive_name_neq by metis+
  define w1 where "w1 = wl\<lparr>ents := fmupd (path log ?a) i (fmdrop ?pend (ents wp)), modes := (modes w)(i := archive_perm log)\<rparr>"
  have r: "tlog_rename_logfile env log (logname log @ ''.pending'') wp = (0, w1)"
    using rename_logfile_ok [OF ok(1) _ wl(1)] name by (simp add: w1_def wp_def)
  have e1: "ents w1 = fmupd (path log ?a) i (fmdrop (path log (logname log)) (ents w))"
    by (rule fmap_ext) (use free in \<open>auto simp: w1_def wp_def\<close>)
  have i1: "inode w1 = inode w" "next_ino w1 = next_ino w" "dirs w1 = dirs w"
    "modes w1 = (modes w)(i := archive_perm log)" by (simp_all add: w1_def wl)
  have "archives log w1 = insert ?a (archives log w)"
    using fresh not_archive [of log] by (auto simp: archives_def e1)
  moreover have "mtime_at w1 (path log n) = mtime_at w (path log n)" if "n \<in> archives log w" for n
    using that fresh not_archive(1) [of log] by (auto simp: mtime_at_def e1 i1 archives_def)
  moreover have "mtime_at w1 (path log ?a) = mtime (inode w i)" by (simp add: mtime_at_def e1 i1)
  ultimately have "archives_ok log w1" using ok(2) cur(2) short by (auto simp: archives_ok_def)
  from remove_oldlog_pruned [OF ok(1) this log(3)] obtain w' where
    w': "tlog_remove_oldlog env log w1 = (0, w')" "pruned log (nat (logcount log)) w1 w'" by blast
  have "tlog_archive_log_nocompress env log w = (0, log, w')"
    using log p r w'(1) by (simp add: tlog_archive_log_nocompress_def tlog_log_lock_def unlock_and_def tlog_log_unlock_def)
  moreover have "rotated log ?a w w'"
    unfolding rotated_def by (rule exI [of _ w1], rule exI [of _ i]) (use cur fresh e1 i1 w'(2) in simp)
  ultimately show ?thesis by blast
qed

section \<open>Witnesses\<close>

definition demo_tm :: tm where
  "demo_tm = \<lparr>tm_year = 124, tm_mon = 0, tm_mday = 2, tm_hour = 3, tm_min = 4, tm_sec = 5\<rparr>"

text \<open>A system in which every call works\<close>

definition demo_env :: lenv where
  "demo_env =
     \<lparr>e_opendir = (\<lambda>w d. Some (sorted_list_of_set ({''.'', ''..''} \<union> {n. ent w (d, n) \<noteq> None}))),
      e_stat = (\<lambda>_ _. True), e_rename = (\<lambda>_ _. True), e_unlink = (\<lambda>_ _. True), e_open = (\<lambda>_ _. True),
      e_chmod = (\<lambda>_ _. True), e_umask = 18,
      e_mkdir = (\<lambda>_ _. True), e_mkdir_eacces = (\<lambda>_. False), e_lockf = (\<lambda>_. True), e_localtime = (\<lambda>t. Some demo_tm),
      e_now = (\<lambda>_. 7), e_vfork = (\<lambda>_. 42), e_vfork_eperm = (\<lambda>_. False), e_execl = (\<lambda>_. True), e_waitpid = (\<lambda>_. 42),
      e_write = (\<lambda>_ n. int n), e_enospc = (\<lambda>_. False)\<rparr>"

definition demo_log :: logf where
  "demo_log =
     \<lparr>lf_fd = Some 0, lf_fd_lock = False, lf_filesize = 3, logdir = ''d'', logname = ''l'', suffix = [], pending_logfile = ''d/l'',
      rename_pending = False, fail = False, logsize = 2, logcount = 1, nocompress = True, zip_pid = -1, multi_log = False,
      logscreen = False, print_errmsg = True, last_try = 0, file_perm = 416, archive_perm = 288, mode_changed = False\<rparr>"

definition demo_world :: lworld where
  "demo_world =
     \<lparr>ents = fmupd (''d'', ''l-old'') 1 (fmupd (''d'', ''l'') 0 fmempty),
      inode = (\<lambda>i. if i = 0 then \<lparr>mtime = 5, content = [1, 2, 3]\<rparr> else \<lparr>mtime = 4, content = [9]\<rparr>),
      modes = (\<lambda>_. 416), next_ino = 2, dirs = (\<lambda>p. p = ''d''), last_time = 0,
      last_tm = \<lparr>tm_year = 0, tm_mon = 0, tm_mday = 0, tm_hour = 0, tm_min = 0, tm_sec = 0\<rparr>, screen = []\<rparr>"

lemma demo_calls: "calls_ok demo_env"
proof -
  have "\<exists>ns. e_opendir demo_env w d = Some ns \<and> distinct ns \<and> set ns = {''.'', ''..''} \<union> {n. ent w (d, n) \<noteq> None}" for w d
  proof -
    define S where "S = {''.'', ''..''} \<union> {n. ent w (d, n) \<noteq> None}"
    have "finite S" unfolding S_def using finite_names by (intro finite_UnI) simp_all
    then have "distinct (sorted_list_of_set S)" "set (sorted_list_of_set S) = S" by simp_all
    moreover have "e_opendir demo_env w d = Some (sorted_list_of_set S)" by (simp only: demo_env_def S_def lenv.simps)
    ultimately show ?thesis unfolding S_def by blast
  qed
  then show ?thesis unfolding calls_ok_def by (simp add: demo_env_def)
qed

lemma demo_archives: "archives demo_log demo_world = {''l-old''}"
  by (auto simp: archives_def demo_log_def demo_world_def is_archive_def strstr_Nil split: if_splits)

lemma demo_archives_ok: "archives_ok demo_log demo_world"
  unfolding archives_ok_def demo_archives
  by (simp add: mtime_at_def demo_log_def demo_world_def TLOG_LOG_NAME_LEN_def)

lemma tlog_localtime_equiv_witness: "localtimes demo_env [3, 3, 4] demo_world = [Some demo_tm, Some demo_tm, Some demo_tm]"
  using tlog_localtime_equiv [of demo_world "[3, 3, 4]" demo_env] by (simp add: demo_world_def) (simp add: demo_env_def)

lemma tlog_remove_oldlog_keeps_newest_witness:
  "\<exists>w'. tlog_remove_oldlog demo_env demo_log demo_world = (0, w') \<and> pruned demo_log 1 demo_world w'"
  using tlog_remove_oldlog_keeps_newest [OF demo_calls demo_archives_ok] by (simp add: demo_log_def)

end
