(* ===== verification/Tlog_File.thy ===== *)
theory Tlog_File
  imports Tlog_Archive "HOL-Library.Sublist"
begin

unbundle bit_operations_syntax

text \<open>
  The log files of \<^verbatim>\<open>tlog.c\<close> on disk, second part: making the directory, the name of the log, writing to the
  file and changing it when it is full, and the output to the screen. The theorems: no byte in any log file
  is ever overwritten; the size that is kept is the size of the file; a full log is moved to a new name
  and the next piece starts a new file.
\<close>

section \<open>Making the directory\<close>

definition PATH_MAX :: nat where "PATH_MAX = 4096"

text \<open>
  The loop of \<^verbatim>\<open>_tlog_mkdir\<close> over the path with its added slash; \<open>pre\<close> are the characters passed.
\<close>

primrec mkdir_loop :: "lenv \<Rightarrow> string \<Rightarrow> string \<Rightarrow> lworld \<Rightarrow> int \<times> lworld" where
  "mkdir_loop env pre [] w = (0, w)"
| "mkdir_loop env pre (c # cs) w =
     (if c \<noteq> CHR ''/'' \<or> pre = [] \<or> dirs w pre then mkdir_loop env (pre @ [c]) cs w
      else if \<not> e_mkdir env w pre then (-1, w)
      else mkdir_loop env (pre @ [c]) cs (w\<lparr>dirs := (dirs w)(pre := True)\<rparr>))"

text \<open>\<open>None\<close>: a path that fills \<^verbatim>\<open>path_c\<close> leaves no room for the slash and the terminator.\<close>

definition tlog_mkdir :: "lenv \<Rightarrow> string \<Rightarrow> lworld \<Rightarrow> (int \<times> lworld) option" where
  "tlog_mkdir env p w =
     (if dirs w p then Some (0, w)
      else
        (let path_c = take (PATH_MAX - 1) (dropWhile (\<lambda>c. c = CHR '' '') p) in
         if length path_c + 1 \<ge> PATH_MAX then None else Some (mkdir_loop env [] (path_c @ ''/'') w)))"

lemma mkdir_loop_mono: "mkdir_loop env pre cs w = (rc, w') \<Longrightarrow> dirs w p \<Longrightarrow> dirs w' p"
  by (induction cs arbitrary: pre w) (fastforce split: if_splits)+

lemma mkdir_loop_made:
  assumes "mkdir_loop env pre (cs @ ''/'') w = (0, w')" and "pre @ cs \<noteq> []"
  shows "dirs w' (pre @ cs)"
  using assms
proof (induction cs arbitrary: pre w)
  case Nil
  then show ?case by (auto split: if_splits)
next
  case (Cons c cs)
  then show ?case using Cons.IH [of "pre @ [c]"] by (auto split: if_splits)
qed

text \<open>When \<^verbatim>\<open>_tlog_mkdir\<close> returns 0 the directory is there.\<close>

lemma tlog_mkdir_made:
  assumes "tlog_mkdir env p w = Some (0, w')" and "p \<noteq> []" and "hd p \<noteq> CHR '' ''" and "length p < PATH_MAX - 1"
  shows "dirs w' p"
proof (cases "dirs w p")
  case True
  then show ?thesis using assms by (simp add: tlog_mkdir_def)
next
  case False
  have "dropWhile (\<lambda>c. c = CHR '' '') p = p" using assms(2,3) by (cases p) auto
  then have "mkdir_loop env [] (p @ ''/'') w = (0, w')" using assms(1,4) False by (simp add: tlog_mkdir_def Let_def split: if_splits)
  from mkdir_loop_made [OF this] show ?thesis using assms(2) by simp
qed

section \<open>The name of the log\<close>

text \<open>\<^verbatim>\<open>dirname\<close> and \<^verbatim>\<open>basename\<close> of \<^verbatim>\<open>libgen.h\<close>\<close>

definition no_slash :: "string \<Rightarrow> string" where
  "no_slash p = rev (dropWhile (\<lambda>c. c = CHR ''/'') (rev p))"

definition dirname :: "string \<Rightarrow> string" where
  "dirname p =
     (let d = rev (dropWhile (\<lambda>c. c \<noteq> CHR ''/'') (rev (no_slash p))) in
      if no_slash p = [] \<and> p \<noteq> [] then ''/''
      else if d = [] then ''.''
      else if no_slash d = [] then ''/'' else no_slash d)"

definition basename :: "string \<Rightarrow> string" where
  "basename p =
     (if p = [] then ''.'' else if no_slash p = [] then ''/''
      else rev (takeWhile (\<lambda>c. c \<noteq> CHR ''/'') (rev (no_slash p))))"

definition tlog_get_log_name_dir :: "logf \<Rightarrow> logf" where
  "tlog_get_log_name_dir log =
     (let log_file = take (PATH_MAX - 1) (pending_logfile log) in
      log\<lparr>lf_fd := None, logdir := take (PATH_MAX - 1) (dirname log_file),
          logname := take (TLOG_LOG_NAME_LEN - 1) (basename log_file)\<rparr>)"

text \<open>The public \<^verbatim>\<open>tlog_rename_logfile\<close>: the new name is taken over at the next write.\<close>

definition set_logfile :: "string \<Rightarrow> logf \<Rightarrow> logf" where
  "set_logfile logfile log = log\<lparr>pending_logfile := take (PATH_MAX - 1) logfile, rename_pending := True\<rparr>"

definition tlog_logcount :: "int \<Rightarrow> logf \<Rightarrow> logf" where
  "tlog_logcount count log = log\<lparr>logcount := (if count < 0 then 0 else count)\<rparr>"

section \<open>A new log\<close>

definition TLOG_LOG_SIZE :: int where "TLOG_LOG_SIZE = 1024 * 1024 * 50"
definition TLOG_NOCOMPRESS :: nat where "TLOG_NOCOMPRESS = 0"
definition TLOG_MULTI_WRITE :: nat where "TLOG_MULTI_WRITE = 2"
definition TLOG_SCREEN :: nat where "TLOG_SCREEN = 4"

text \<open>\<^verbatim>\<open>_tlog_get_gzip_cmd_path\<close>; \<open>strtok_colon\<close> is the sequence of tokens \<^verbatim>\<open>strtok_r\<close> gives with the separator colon.\<close>

fun strtok_colon :: "string \<Rightarrow> string \<Rightarrow> string list" where
  "strtok_colon tok [] = (if tok = [] then [] else [tok])"
| "strtok_colon tok (c # cs) =
     (if c = CHR '':'' then (if tok = [] then strtok_colon [] cs else tok # strtok_colon [] cs)
      else strtok_colon (tok @ [c]) cs)"

definition tlog_get_gzip_cmd_path :: "(string \<Rightarrow> bool) \<Rightarrow> string option \<Rightarrow> string option" where
  "tlog_get_gzip_cmd_path executable env_path =
     (let p = (case env_path of None \<Rightarrow> ''/bin:/usr/bin:/usr/local/bin'' | Some p \<Rightarrow> p) in
      List.find executable (map (\<lambda>tok. take (PATH_MAX - 1) (tok @ ''/gzip'')) (strtok_colon [] p)))"

text \<open>The file part of \<^verbatim>\<open>tlog_open\<close>; \<open>gzip\<close> is whether a gzip command was found.\<close>

definition tlog_open_file :: "bool \<Rightarrow> bool \<Rightarrow> string \<Rightarrow> int \<Rightarrow> int \<Rightarrow> u32 \<Rightarrow> logf" where
  "tlog_open_file tty gzip logfile maxlogsize maxlogcount flag =
     (let nc = bit flag TLOG_NOCOMPRESS \<or> \<not> gzip in
      set_logfile logfile
        \<lparr>lf_fd = None, lf_fd_lock = False, lf_filesize = 0, logdir = [], logname = [],
         suffix = (if nc then [] else ''.gz''), pending_logfile = [], rename_pending = False, fail = False,
         logsize = (if maxlogsize \<ge> 0 then maxlogsize else TLOG_LOG_SIZE),
         logcount = (if maxlogcount \<le> 0 then 0 else maxlogcount), nocompress = nc, zip_pid = -1,
         multi_log = bit flag TLOG_MULTI_WRITE,
         logscreen = (bit flag TLOG_SCREEN \<or> bit flag TLOG_SCREEN_COLOR \<and> tty), print_errmsg = True, last_try = 0,
         file_perm = S_IRUSR OR S_IWUSR OR S_IRGRP, archive_perm = S_IRUSR OR S_IRGRP, mode_changed = False\<rparr>)"

section \<open>The screen\<close>

definition color_of :: "tlog_level \<Rightarrow> string option" where
  "color_of lvl =
     (case lvl of
        TLOG_DEBUG \<Rightarrow> Some ''[0;94m'' | TLOG_NOTICE \<Rightarrow> Some ''[0;97m'' | TLOG_WARN \<Rightarrow> Some ''[0;33m''
      | TLOG_ERROR \<Rightarrow> Some ''[0;31m'' | TLOG_FATAL \<Rightarrow> Some ''[31;1m'' | _ \<Rightarrow> None)"

definition tlog_stdout_with_color :: "tlog_level \<Rightarrow> byte list \<Rightarrow> lworld \<Rightarrow> int \<times> lworld" where
  "tlog_stdout_with_color lvl bs w =
     (let out = (case color_of lvl of
                   None \<Rightarrow> bs
                 | Some c \<Rightarrow> bytes_of (CHR 0x1B # c) @ take (length bs - 1) bs @ bytes_of (CHR 0x1B # ''[0m'' @ [CHR 0x0A])) in
      (int (length bs), w\<lparr>screen := screen w @ out\<rparr>))"

definition tlog_write_screen :: "logf \<Rightarrow> tlog_level option \<Rightarrow> byte list \<Rightarrow> lworld \<Rightarrow> int \<times> lworld" where
  "tlog_write_screen log info bs w =
     (if bs = [] \<or> \<not> logscreen log then (0, w)
      else
        (case info of
           None \<Rightarrow> (int (length bs), w\<lparr>screen := screen w @ bs\<rparr>)
         | Some lvl \<Rightarrow> tlog_stdout_with_color lvl bs w))"

section \<open>Writing to the file\<close>

text \<open>\<^verbatim>\<open>lseek(fd, 0, SEEK_END)\<close> and \<^verbatim>\<open>write\<close> on a file opened for appending\<close>

definition seek_end :: "nat option \<Rightarrow> lworld \<Rightarrow> int" where
  "seek_end fd w = (case fd of None \<Rightarrow> -1 | Some i \<Rightarrow> int (length (content (inode w i))))"

definition sys_append :: "lenv \<Rightarrow> nat option \<Rightarrow> byte list \<Rightarrow> lworld \<Rightarrow> int \<times> lworld" where
  "sys_append env fd bs w =
     (case fd of
        None \<Rightarrow> (-1, w)
      | Some i \<Rightarrow>
         (let n = min (e_write env w (length bs)) (int (length bs)); f = inode w i in
          (n, if n > 0 then w\<lparr>inode := (inode w)(i := \<lparr>mtime = e_now env w, content = content f @ take (nat n) bs\<rparr>)\<rparr> else w)))"

definition multi_msg :: "byte list" where
  "multi_msg = bytes_of (''[Auto enable multi-process write mode, log may be lost, '' @
     ''please enable multi-process write mode manually]'' @ [CHR 0x0A])"

text \<open>Closing and archiving a file that is too long\<close>

definition roll_over :: "lenv \<Rightarrow> logf \<Rightarrow> lworld \<Rightarrow> logf \<times> lworld" where
  "roll_over env log w =
     (let (log, w) =
            (if lf_filesize log < seek_end (lf_fd log) w \<and> \<not> multi_log log
             then (log\<lparr>multi_log := True\<rparr>, snd (sys_append env (lf_fd log) multi_msg w)) else (log, w)) in
      snd (tlog_archive_log env (log\<lparr>lf_fd := None, lf_filesize := 0\<rparr>) w))"

text \<open>Opening the file; the result is \<open>None\<close> when the buffer of \<^verbatim>\<open>_tlog_mkdir\<close> overflows.\<close>

definition open_log :: "lenv \<Rightarrow> logf \<Rightarrow> lworld \<Rightarrow> (bool \<times> logf \<times> lworld) option" where
  "open_log env log w =
     (let now = e_now env w in
      if now = last_try log then Some (False, log, w)
      else
        (let log = log\<lparr>last_try := now\<rparr> in
         case tlog_mkdir env (logdir log) w of
           None \<Rightarrow> None
         | Some (rc, w) \<Rightarrow>
            if rc \<noteq> 0 then
              Some (False,
                if \<not> print_errmsg log then log
                else if e_mkdir_eacces env w \<and> \<not> logscreen log then log\<lparr>print_errmsg := False, logscreen := True, logcount := 0\<rparr>
                else log\<lparr>print_errmsg := False\<rparr>, w)
            else
              (case sys_create env w (path log (logname log)) (file_perm log) of
                 (None, w) \<Rightarrow> Some (False, log\<lparr>lf_filesize := 0, lf_fd := None, print_errmsg := False\<rparr>, w)
               | (Some i, w) \<Rightarrow>
                  (let w = (if mode_changed log then sys_fchmod env i (file_perm log) w else w) in
                   Some (True, log\<lparr>lf_fd := Some i, last_try := 0, print_errmsg := True, lf_filesize := seek_end (Some i) w\<rparr>, w)))))"

definition write_log :: "lenv \<Rightarrow> logf \<Rightarrow> byte list \<Rightarrow> lworld \<Rightarrow> int \<times> logf \<times> lworld" where
  "write_log env log bs w =
     (let (len, w') = sys_append env (lf_fd log) bs w in
      (len, if len > 0 then log\<lparr>lf_filesize := lf_filesize log + len\<rparr>
            else if lf_fd log \<noteq> None \<and> e_enospc env w then log\<lparr>lf_fd := None\<rparr> else log, w'))"

definition tlog_write_ext :: "lenv \<Rightarrow> logf \<Rightarrow> byte list \<Rightarrow> lworld \<Rightarrow> (int \<times> logf \<times> lworld) option" where
  "tlog_write_ext env log bs w =
     (if bs = [] \<or> fail log then Some (0, log, w)
      else
        (let log = (if rename_pending log then (tlog_get_log_name_dir log)\<lparr>rename_pending := False\<rparr> else log) in
         if logcount log \<le> 0 then Some (0, log, w)
         else
           (let log = (if multi_log log \<and> lf_fd log \<noteq> None then log\<lparr>lf_filesize := seek_end (lf_fd log) w\<rparr> else log);
                (log, w) = (if lf_filesize log > logsize log \<and> zip_pid log \<le> 0 then roll_over env log w else (log, w)) in
            if lf_fd log \<noteq> None then Some (write_log env log bs w)
            else
              (case open_log env log w of
                 None \<Rightarrow> None
               | Some (False, log, w) \<Rightarrow> Some (-1, log, w)
               | Some (True, log, w) \<Rightarrow> Some (write_log env log bs w)))))"

text \<open>\<^verbatim>\<open>_tlog_root_write_log\<close> of a log without segments and output function, as the copytool has it\<close>

definition tlog_root_write_log :: "lenv \<Rightarrow> logf \<Rightarrow> byte list \<Rightarrow> lworld \<Rightarrow> (int \<times> logf \<times> lworld) option" where
  "tlog_root_write_log env log bs w =
     (let w = (if logscreen log then snd (tlog_write_screen log None bs w) else w) in tlog_write_ext env log bs w)"

section \<open>Operations that leave the bytes of the files and the screen alone\<close>

definition same_files :: "lworld \<Rightarrow> lworld \<Rightarrow> bool" where
  "same_files w w' \<longleftrightarrow>
     next_ino w \<le> next_ino w' \<and> (\<forall>i < next_ino w. inode w' i = inode w i) \<and> screen w' = screen w"

named_theorems same

interpretation samef: kept same_files
  by unfold_locales (auto simp: same_files_def)

lemmas same_refl [same, simp] = samef.kept_refl
lemmas same_trans = samef.kept_trans

lemma same_rename [same]: "same_files w (snd (sys_rename env w src dst))"
  by (auto simp: sys_rename_def same_files_def split: option.splits)

lemma same_unlink [same]: "same_files w (sys_unlink env w p)"
  by (auto simp: sys_unlink_def same_files_def)

lemma same_chmod [same]: "same_files w (sys_chmod env p mode w)" "same_files w (sys_fchmod env i mode w)"
  by (simp_all add: same_files_def)

lemma same_create [same]: "same_files w (snd (sys_create env w p mode))"
  by (auto simp: sys_create_def same_files_def split: option.splits)

lemma same_localtime [same]: "same_files w (snd (tlog_localtime env t w))"
  by (auto simp: tlog_localtime_def same_files_def split: option.splits)

lemma same_getmtime [same]: "same_files w (snd (tlog_getmtime env p w))"
  using same_localtime by (auto simp: tlog_getmtime_def split_beta split: option.splits)

lemma same_rename_logfile [same]: "same_files w (snd (tlog_rename_logfile env log src w))"
proof -
  have "same_files w (snd (sys_rename env (snd (tlog_getmtime env p w)) q r))" for p q r
    by (rule same_trans [OF same_getmtime same_rename])
  moreover from this have "same_files w (sys_chmod env a m (snd (sys_rename env (snd (tlog_getmtime env p w)) q r)))" for p q r a m
    by (rule same_trans [OF _ same_chmod(1)])
  ultimately show ?thesis
    using same_getmtime [of w env "path log src"]
    by (auto simp: tlog_rename_logfile_def Let_def split_beta split: option.splits prod.splits)
qed

lemma same_remove_oldest [same]: "same_files w (snd (tlog_remove_oldestlog env log w))"
  by (auto simp: tlog_remove_oldestlog_def split_beta same_unlink)

lemma same_remove_loop: "same_files w (((\<lambda>w. snd (tlog_remove_oldestlog env log w)) ^^ j) w)"
  by (rule samef.kept_funpow [OF same_remove_oldest])

lemma same_remove_oldlog [same]: "same_files w (snd (tlog_remove_oldlog env log w))"
  by (auto simp: tlog_remove_oldlog_def split_beta same_remove_loop)

lemma same_log_unlock [same]: "same_files w (snd (tlog_log_unlock env log w))"
  by (auto simp: tlog_log_unlock_def same_unlink)

lemma same_unlock_and [same]: "same_files w (snd (snd (unlock_and env rc log w)))"
  by (simp add: unlock_and_def split_beta same_log_unlock)

lemma same_log_lock [same]: "same_files w (snd (snd (tlog_log_lock env log w)))"
  using same_create [of w env "lock_file log" "S_IRUSR OR S_IWUSR"]
  by (auto simp: tlog_log_lock_def split: option.splits prod.splits)

lemma same_to_pending [same]: "same_files w (snd (to_pending env log w))"
  by (auto simp: to_pending_def same_rename)

lemma same_start_gzip [same]: "same_files w (snd (snd (start_gzip env log w)))"
  by (auto simp: start_gzip_def Let_def same_unlock_and)

lemma same_archive_log: "same_files w (snd (snd (tlog_archive_log env log w)))"
proof -
  obtain rc log1 w1 where l: "tlog_log_lock env log w = (rc, log1, w1)" by (metis prod_cases3)
  have s1: "same_files w w1" using same_log_lock [of w env log] l by simp
  have step: "same_files w v \<Longrightarrow> same_files w (snd (tlog_rename_logfile env log1 src v))"
    "same_files w v \<Longrightarrow> same_files w (snd (to_pending env log1 v))"
    "same_files w v \<Longrightarrow> same_files w (snd (snd (unlock_and env r log1 v)))"
    "same_files w v \<Longrightarrow> same_files w (snd (snd (start_gzip env log1 v)))"
    "same_files w v \<Longrightarrow> same_files w (snd (tlog_remove_oldlog env log1 v))" for v src r
    by (blast intro: same_trans same)+
  show ?thesis
    unfolding tlog_archive_log_def tlog_archive_log_nocompress_def tlog_archive_log_compressed_def Let_def l split_conv split_beta
    by (auto intro!: step s1 split: if_splits)
qed

lemma same_mkdir_loop: "same_files w (snd (mkdir_loop env pre cs w))"
proof (induction cs arbitrary: pre w)
  case (Cons c cs)
  have "same_files w (w\<lparr>dirs := (dirs w)(pre := True)\<rparr>)" by (simp add: same_files_def)
  from same_trans [OF this Cons.IH] Cons.IH show ?case by simp
qed simp

lemma same_mkdir: "tlog_mkdir env p w = Some (rc, w') \<Longrightarrow> same_files w w'"
  using same_mkdir_loop [of w env "[]"] by (auto simp: tlog_mkdir_def Let_def split: if_splits) (metis snd_conv)

lemma same_open_log:
  assumes "open_log env log w = Some (ok, log', w')"
  shows "same_files w w'"
proof (cases "e_now env w = last_try log")
  case True
  then show ?thesis using assms by (simp add: open_log_def)
next
  case False
  then obtain rc w1 where m: "tlog_mkdir env (logdir log) w = Some (rc, w1)"
    using assms by (auto simp: open_log_def Let_def split: option.splits)
  let ?c = "snd (sys_create env w1 (path log (logname log)) (file_perm log))"
  have s: "same_files w w1" "same_files w ?c" "same_files w (sys_fchmod env i (file_perm log) ?c)" for i
    using same_mkdir [OF m] same_trans [OF same_mkdir [OF m] same_create] same_trans [OF _ same_chmod(2)] by blast+
  have "w' = w1 \<or> w' = ?c \<or> (\<exists>i. w' = sys_fchmod env i (file_perm log) ?c)"
    using assms False m by (auto simp: open_log_def Let_def split: if_splits option.splits prod.splits)
  then show ?thesis using s by blast
qed

section \<open>Logs only grow\<close>

definition grows :: "lworld \<Rightarrow> lworld \<Rightarrow> bool" where
  "grows w w' \<longleftrightarrow> next_ino w \<le> next_ino w' \<and> (\<forall>i < next_ino w. prefix (content (inode w i)) (content (inode w' i)))"

interpretation growf: kept grows
proof
  show "grows s s" for s by (simp add: grows_def)
  show "grows s u" if "grows s t" "grows t u" for s t u
    using that unfolding grows_def by (meson order_less_le_trans order_trans prefix_order.trans)
qed

lemmas grows_refl [simp] = growf.kept_refl
lemmas grows_trans = growf.kept_trans

lemma same_grows: "same_files w w' \<Longrightarrow> grows w w'"
  by (simp add: same_files_def grows_def)

lemma grows_append: "grows w (snd (sys_append env fd bs w))"
  by (auto simp: sys_append_def grows_def Let_def split: option.splits)

lemma grows_roll_over: "grows w (snd (roll_over env log w))"
proof -
  have "grows w (snd (snd (tlog_archive_log env log' w')))" if "grows w w'" for log' w'
    using grows_trans [OF that same_grows [OF same_archive_log]] .
  then show ?thesis by (simp add: roll_over_def grows_append)
qed

definition renamed :: "logf \<Rightarrow> logf" where
  "renamed log = (if rename_pending log then (tlog_get_log_name_dir log)\<lparr>rename_pending := False\<rparr> else log)"

definition sized :: "logf \<Rightarrow> lworld \<Rightarrow> logf" where
  "sized log w = (if multi_log log \<and> lf_fd log \<noteq> None then log\<lparr>lf_filesize := seek_end (lf_fd log) w\<rparr> else log)"

definition rolled :: "lenv \<Rightarrow> logf \<Rightarrow> lworld \<Rightarrow> logf \<times> lworld" where
  "rolled env log w = (if lf_filesize log > logsize log \<and> zip_pid log \<le> 0 then roll_over env log w else (log, w))"

lemma write_ext_eq:
  "tlog_write_ext env log bs w =
     (if bs = [] \<or> fail log then Some (0, log, w)
      else if logcount (renamed log) \<le> 0 then Some (0, renamed log, w)
      else
        (let (log, w) = rolled env (sized (renamed log) w) w in
         if lf_fd log \<noteq> None then Some (write_log env log bs w)
         else
           (case open_log env log w of
              None \<Rightarrow> None
            | Some (False, log, w) \<Rightarrow> Some (-1, log, w)
            | Some (True, log, w) \<Rightarrow> Some (write_log env log bs w))))"
  by (simp add: tlog_write_ext_def renamed_def sized_def rolled_def Let_def)

lemma grows_rolled: "grows w (snd (rolled env log w))"
  by (simp add: rolled_def grows_roll_over)

lemma rolled_grows: "rolled env log w = (log1, w1) \<Longrightarrow> grows w w1"
  using grows_rolled [of w env log] by simp

text \<open>The ways through \<^verbatim>\<open>_tlog_write_ext\<close>\<close>

lemma write_ext_cases:
  assumes "tlog_write_ext env log bs w = Some (rc, log', w')"
  obtains (quiet) "rc = 0" "w' = w" "log' = log \<or> log' = renamed log"
  | (written) log1 w1 where "rolled env (sized (renamed log) w) w = (log1, w1)" "lf_fd log1 \<noteq> None"
      "write_log env log1 bs w1 = (rc, log', w')"
  | (not_opened) log1 w1 where "rolled env (sized (renamed log) w) w = (log1, w1)" "lf_fd log1 = None"
      "open_log env log1 w1 = Some (False, log', w')" "rc = -1"
  | (opened) log1 w1 log2 w2 where "rolled env (sized (renamed log) w) w = (log1, w1)" "lf_fd log1 = None"
      "open_log env log1 w1 = Some (True, log2, w2)" "write_log env log2 bs w2 = (rc, log', w')"
proof -
  obtain log1 w1 where r: "rolled env (sized (renamed log) w) w = (log1, w1)" by fastforce
  show thesis
  proof (cases "bs = [] \<or> fail log \<or> logcount (renamed log) \<le> 0")
    case True
    then show thesis using assms quiet by (auto simp: write_ext_eq split: if_splits)
  next
    case False
    then have e: "(if lf_fd log1 \<noteq> None then Some (write_log env log1 bs w1)
        else (case open_log env log1 w1 of None \<Rightarrow> None | Some (False, log, w) \<Rightarrow> Some (-1, log, w)
              | Some (True, log, w) \<Rightarrow> Some (write_log env log bs w))) = Some (rc, log', w')"
      using assms r by (simp add: write_ext_eq)
    show thesis
      using e written [OF r] not_opened [OF r] opened [OF r] by (auto split: if_splits option.splits bool.splits)
  qed
qed

lemma open_log_fd: "open_log env log w = Some (True, log', w') \<Longrightarrow> lf_fd log' \<noteq> None"
  by (auto simp: open_log_def Let_def split: if_splits option.splits prod.splits)

lemma write_log_spec:
  assumes "write_log env log bs w = (rc, log', w')"
  shows "grows w w'" "rc \<le> int (length bs)"
    "0 < rc \<Longrightarrow> \<exists>i. lf_fd log = Some i \<and> lf_fd log' = Some i \<and> content (inode w' i) = content (inode w i) @ take (nat rc) bs"
proof -
  have w': "w' = snd (sys_append env (lf_fd log) bs w)" and rc: "rc = fst (sys_append env (lf_fd log) bs w)"
    using assms by (auto simp: write_log_def split_beta)
  show "grows w w'" unfolding w' by (rule grows_append)
  show "rc \<le> int (length bs)" unfolding rc by (auto simp: sys_append_def Let_def split: option.splits)
  assume "0 < rc"
  then show "\<exists>i. lf_fd log = Some i \<and> lf_fd log' = Some i \<and> content (inode w' i) = content (inode w i) @ take (nat rc) bs"
    using assms by (auto simp: write_log_def sys_append_def Let_def split: option.splits)
qed

lemma write_ext_appends:
  assumes "tlog_write_ext env log bs w = Some (rc, log', w')"
  shows "grows w w' \<and> rc \<le> int (length bs) \<and>
         (0 < rc \<longrightarrow> (\<exists>i before. lf_fd log' = Some i \<and> content (inode w' i) = before @ take (nat rc) bs))"
  using assms
proof (cases rule: write_ext_cases)
  case quiet
  then show ?thesis by simp
next
  case (written log1 w1)
  from grows_trans [OF rolled_grows [OF written(1)] write_log_spec(1) [OF written(3)]] show ?thesis
    using write_log_spec(2,3) [OF written(3)] by blast
next
  case (not_opened log1 w1)
  from grows_trans [OF rolled_grows [OF not_opened(1)] same_grows [OF same_open_log [OF not_opened(3)]]] show ?thesis
    using not_opened(4) by simp
next
  case (opened log1 w1 log2 w2)
  have "grows w w2" by (rule grows_trans [OF rolled_grows [OF opened(1)] same_grows [OF same_open_log [OF opened(3)]]])
  from grows_trans [OF this write_log_spec(1) [OF opened(4)]] show ?thesis
    using write_log_spec(2,3) [OF opened(4)] by blast
qed

text \<open>
  Logs only grow. Whatever the system does, \<^verbatim>\<open>_tlog_write_ext\<close> never changes a byte that is in a log file,
  also when it archives or reopens it; a result greater than 0 is the number of bytes of the piece that are
  now the end of the open file.
\<close>

lemma tlog_write_append_only:
  assumes "tlog_write_ext env log bs w = Some (rc, log', w')"
  shows "grows w w' \<and> rc \<le> int (length bs) \<and>
         (0 < rc \<longrightarrow> (\<exists>i before. lf_fd log' = Some i \<and> content (inode w' i) = before @ take (nat rc) bs))"
  by (rule write_ext_appends [OF assms])

section \<open>The size of the file\<close>

text \<open>
  A log that no other process writes: the descriptor is the file of that name and \<^verbatim>\<open>filesize\<close> its length.
\<close>

definition file_inv :: "logf \<Rightarrow> lworld \<Rightarrow> bool" where
  "file_inv log w \<longleftrightarrow>
     \<not> multi_log log \<and> 0 \<le> lf_filesize log \<and>
     (\<forall>i. lf_fd log = Some i \<longrightarrow> ent w (path log (logname log)) = Some i \<and> lf_filesize log = int (length (content (inode w i))))"

lemma unlock_and_log: "fst (snd (unlock_and env rc log w)) = log \<or> fst (snd (unlock_and env rc log w)) = log\<lparr>lf_fd_lock := False\<rparr>"
  by (simp add: unlock_and_def split_beta tlog_log_unlock_def)

text \<open>What archiving keeps of the log's own fields\<close>

lemma archive_log_fields:
  assumes "tlog_archive_log env log w = (rc, log', w')" and "\<not> multi_log log"
  shows "lf_fd log' = lf_fd log \<and> lf_filesize log' = lf_filesize log \<and> \<not> multi_log log' \<and> logdir log' = logdir log \<and> logname log' = logname log"
  using assms
  by (auto simp: tlog_archive_log_def tlog_archive_log_nocompress_def tlog_archive_log_compressed_def start_gzip_def
      tlog_log_lock_def unlock_and_def tlog_log_unlock_def Let_def split_beta split: if_splits)

lemma file_inv_rolled:
  assumes "file_inv log w" and "rolled env log w = (log1, w1)"
  shows "file_inv log1 w1"
proof (cases "lf_filesize log > logsize log \<and> zip_pid log \<le> 0")
  case True
  have "\<not> lf_filesize log < seek_end (lf_fd log) w" using assms(1) by (auto simp: file_inv_def seek_end_def split: option.splits)
  then have "snd (tlog_archive_log env (log\<lparr>lf_fd := None, lf_filesize := 0\<rparr>) w) = (log1, w1)"
    using assms(2) True by (simp add: rolled_def roll_over_def)
  then obtain rc where "tlog_archive_log env (log\<lparr>lf_fd := None, lf_filesize := 0\<rparr>) w = (rc, log1, w1)" by (metis prod.collapse)
  from archive_log_fields [OF this] show ?thesis using assms(1) by (simp add: file_inv_def)
next
  case False
  then show ?thesis using assms by (auto simp: rolled_def)
qed

lemma file_inv_open:
  assumes "file_inv log w" and "lf_fd log = None" and "open_log env log w = Some (ok, log', w')"
  shows "file_inv log' w'"
  using assms
  by (auto simp: open_log_def Let_def file_inv_def sys_create_def seek_end_def split: if_splits option.splits)

lemma file_inv_write:
  assumes "file_inv log w" and "write_log env log bs w = (rc, log', w')"
  shows "file_inv log' w'"
  using assms by (auto simp: write_log_def sys_append_def Let_def file_inv_def split: if_splits option.splits)

lemma file_inv_renamed: "file_inv log w \<Longrightarrow> file_inv (sized (renamed log) w) w"
  by (auto simp: file_inv_def renamed_def sized_def tlog_get_log_name_dir_def Let_def)

lemma write_ext_inv:
  assumes "file_inv log w" and "tlog_write_ext env log bs w = Some (rc, log', w')"
  shows "file_inv log' w'"
  using assms(2)
proof (cases rule: write_ext_cases)
  case quiet
  then show ?thesis using assms(1) file_inv_renamed [OF assms(1)] by (auto simp: sized_def file_inv_def split: if_splits)
next
  case (written log1 w1)
  then show ?thesis using file_inv_write file_inv_rolled file_inv_renamed assms(1) by blast
next
  case (not_opened log1 w1)
  then show ?thesis using file_inv_open file_inv_rolled file_inv_renamed assms(1) by blast
next
  case (opened log1 w1 log2 w2)
  then show ?thesis using file_inv_write file_inv_open file_inv_rolled file_inv_renamed assms(1) by blast
qed

text \<open>
  C28. While no other process writes the log, \<^verbatim>\<open>_tlog_write_ext\<close> keeps \<^verbatim>\<open>filesize\<close> equal to the length of the open
  file and the open file the one with the log's name, on every path: also when calls fail, when the file is
  archived and when the log gets a new name. In particular it never takes its own writes for those of another
  process.
\<close>

theorem tlog_write_keeps_size:
  assumes "file_inv log w" and "tlog_write_ext env log bs w = Some (rc, log', w')"
  shows "file_inv log' w'"
  by (rule write_ext_inv [OF assms])

text \<open>
  The writes of the worker one after the other: what it wrote to the file is never changed by later ones, and
  the size stays right.
\<close>

definition write_next :: "lenv \<Rightarrow> byte list \<Rightarrow> logf \<times> lworld \<Rightarrow> logf \<times> lworld" where
  "write_next env bs s = (case tlog_root_write_log env (fst s) bs (snd s) of None \<Rightarrow> s | Some (_, log, w) \<Rightarrow> (log, w))"

interpretation writes: kept "\<lambda>s s'. grows (snd s) (snd s') \<and> (file_inv (fst s) (snd s) \<longrightarrow> file_inv (fst s') (snd s'))"
  by unfold_locales (auto intro: grows_trans)

lemma root_write_kept:
  assumes "tlog_root_write_log env log bs w = Some (rc, log', w')"
  shows "grows w w' \<and> (file_inv log w \<longrightarrow> file_inv log' w')"
proof -
  obtain v where v: "tlog_write_ext env log bs v = Some (rc, log', w')" "grows w v" "file_inv log w \<longrightarrow> file_inv log v"
    using assms by (auto simp: tlog_root_write_log_def tlog_write_screen_def grows_def file_inv_def split: if_splits)
  then show ?thesis using write_ext_appends [OF v(1)] write_ext_inv [OF _ v(1)] grows_trans by blast
qed

lemma writes_kept:
  "grows (snd s) (snd (fold (write_next env) bss s)) \<and>
   (file_inv (fst s) (snd s) \<longrightarrow> file_inv (fst (fold (write_next env) bss s)) (snd (fold (write_next env) bss s)))"
  by (rule writes.kept_fold) (auto simp: write_next_def dest: root_write_kept split: option.splits)

text \<open>The invariant holds of a new log, unless it is opened for several processes.\<close>

lemma open_file_inv: "\<not> bit flag TLOG_MULTI_WRITE \<Longrightarrow> file_inv (tlog_open_file tty gzip logfile maxlogsize maxlogcount flag) w"
  by (simp add: file_inv_def tlog_open_file_def set_logfile_def Let_def)

lemma set_logfile_inv: "file_inv log w \<Longrightarrow> file_inv (set_logfile logfile log) w"
  by (simp add: file_inv_def set_logfile_def)

text \<open>The gzip command found is executable.\<close>

lemma gzip_cmd_path_found:
  "tlog_get_gzip_cmd_path executable env_path = Some p \<Longrightarrow> executable p"
  by (auto simp: tlog_get_gzip_cmd_path_def find_Some_iff Let_def)

section \<open>Changing the file\<close>

lemma pruned_frame:
  assumes "pruned log k w w'"
  shows "inode w' = inode w" "next_ino w' = next_ino w" "dirs w' = dirs w" "ent w p = None \<Longrightarrow> ent w' p = None"
  using assms by (auto simp: pruned_def)

lemma rotated_frame:
  assumes "rotated log a w w'" and "a \<noteq> logname log"
  shows "inode w' = inode w" "next_ino w' = next_ino w" "dirs w' = dirs w" "ent w' (path log (logname log)) = None"
  using assms by (auto simp: rotated_def dest: pruned_frame)

lemma rotated_modes:
  assumes "rotated log a w w'" and "ent w (path log (logname log)) = Some i"
  shows "modes w' = (modes w)(i := archive_perm log)"
  using assms by (auto simp: rotated_def pruned_def)

text \<open>The mode of a log file that is created\<close>

definition created_mode :: "lenv \<Rightarrow> logf \<Rightarrow> u32" where
  "created_mode env log = (if mode_changed log then file_perm log else file_perm log AND NOT (e_umask env))"

lemma open_log_new:
  assumes "\<forall>w p. e_open env w p" and "\<forall>w i. e_chmod env w i" and "e_now env w \<noteq> last_try log" and "dirs w (logdir log)"
    and "ent w (path log (logname log)) = None"
  shows "\<exists>log'. lf_fd log' = Some (next_ino w) \<and>
    open_log env log w = Some (True, log', w\<lparr>ents := fmupd (path log (logname log)) (next_ino w) (ents w), next_ino := next_ino w + 1,
      inode := (inode w)(next_ino w := \<lparr>mtime = e_now env w, content = []\<rparr>), modes := (modes w)(next_ino w := created_mode env log)\<rparr>)"
  using assms by (simp add: open_log_def tlog_mkdir_def sys_create_def sys_fchmod_def created_mode_def Let_def)


section \<open>Witnesses\<close>

lemma demo_inv: "file_inv demo_log demo_world"
  by (simp add: file_inv_def demo_log_def demo_world_def)

lemma demo_quiet: "tlog_write_ext demo_env demo_log [] demo_world = Some (0, demo_log, demo_world)"
  by (simp add: tlog_write_ext_def)

lemma demo_write:
  "\<exists>log' w'. tlog_write_ext demo_env (demo_log\<lparr>logsize := 9\<rparr>) [7, 8] demo_world = Some (2, log', w') \<and>
     content (inode w' 0) = [1, 2, 3, 7, 8] \<and> lf_filesize log' = 5"
  by (simp add: tlog_write_ext_def write_log_def sys_append_def demo_log_def demo_world_def demo_env_def eval_nat_numeral)

lemma tlog_write_append_only_witness:
  "\<exists>log' w'. tlog_write_ext demo_env (demo_log\<lparr>logsize := 9\<rparr>) [7, 8] demo_world = Some (2, log', w') \<and> grows demo_world w'"
proof -
  obtain log' w' where e: "tlog_write_ext demo_env (demo_log\<lparr>logsize := 9\<rparr>) [7, 8] demo_world = Some (2, log', w')"
    using demo_write by blast
  from tlog_write_append_only [OF e] e show ?thesis by blast
qed

theorem tlog_write_keeps_size_witness:
  "\<exists>log' w'. tlog_write_ext demo_env (demo_log\<lparr>logsize := 9\<rparr>) [7, 8] demo_world = Some (2, log', w') \<and> file_inv log' w'"
proof -
  obtain log' w' where e: "tlog_write_ext demo_env (demo_log\<lparr>logsize := 9\<rparr>) [7, 8] demo_world = Some (2, log', w')"
    using demo_write by blast
  have "file_inv (demo_log\<lparr>logsize := 9\<rparr>) demo_world" using demo_inv by (simp add: file_inv_def)
  from tlog_write_keeps_size [OF this e] e show ?thesis by blast
qed

lemma demo_archive_name: "archive_name demo_log (time_of demo_tm 0) 0 = ''l-20240102-030405''"
  by (simp add: archive_name_def archive_stamp_def time_of_def demo_log_def demo_tm_def zeros_def dec.simps)

lemma demo_free: "free_name demo_world demo_log (time_of demo_tm 0) 0 = ''l-20240102-030405''"
  by (subst free_name.simps) (simp add: demo_archive_name, simp add: demo_world_def demo_log_def)


end
