(* ===== verification/Tlog_Disk.thy ===== *)
theory Tlog_Disk
  imports Tlog_File
begin

unbundle bit_operations_syntax

text \<open>
  The ring and the files together: what the worker takes from the ring it hands, piece by piece, to
  \<^verbatim>\<open>_tlog_root_write_log\<close>. Between two writes a gzip process may end (\<^verbatim>\<open>_tlog_wait_pid\<close>) and the outside may
  move or remove log files. The theorem: as long as files can be opened and written, whatever happens to
  renaming, compressing and removing, the log files written, one after the other, hold the lines logged, in
  order and without a gap.
\<close>

section \<open>What becomes of the current name\<close>

text \<open>An operation either leaves the entry of a name alone or removes it; it never puts another file there.\<close>

definition name_kept :: "string \<times> string \<Rightarrow> lworld \<Rightarrow> lworld \<Rightarrow> bool" where
  "name_kept p w w' \<longleftrightarrow> same_files w w' \<and> (ent w' p = ent w p \<or> ent w' p = None)"

interpretation namek: kept "name_kept p" for p
  by unfold_locales (auto simp: name_kept_def intro: same_trans)

lemma name_localtime: "name_kept p w (snd (tlog_localtime env t w))"
  using same_localtime [of w env t] by (auto simp: name_kept_def tlog_localtime_def split: option.splits)

lemma name_unlink: "name_kept p w (sys_unlink env w q)"
  using same_unlink [of w env q] by (auto simp: name_kept_def sys_unlink_def)

lemma name_rename: "dst \<noteq> p \<Longrightarrow> name_kept p w (snd (sys_rename env w src dst))"
  using same_rename [of w env src dst] by (auto simp: name_kept_def sys_rename_def split: option.splits)

lemma name_create: "q \<noteq> p \<Longrightarrow> name_kept p w (snd (sys_create env w q mode))"
  using same_create [of w env q mode] by (auto simp: name_kept_def sys_create_def split: option.splits)

lemma name_chmod: "name_kept p w (sys_chmod env q mode w)"
  using same_chmod(1) [of w env q mode] by (simp add: name_kept_def)

lemma name_getmtime: "name_kept p w (snd (tlog_getmtime env q w))"
  using name_localtime by (auto simp: tlog_getmtime_def split_beta namek.kept_refl split: option.splits)

abbreviation cur :: "logf \<Rightarrow> string \<times> string" where
  "cur log \<equiv> path log (logname log)"

lemma name_rename_logfile: "name_kept (cur log) w (snd (tlog_rename_logfile env log src w))"
proof -
  obtain t w1 where m: "tlog_getmtime env (path log src) w = (t, w1)" by fastforce
  have k: "name_kept (cur log) w w1" using name_getmtime [of "cur log" w env "path log src"] m by simp
  show ?thesis
  proof (cases t)
    case None
    then show ?thesis using k m by (simp add: tlog_rename_logfile_def)
  next
    case (Some tm)
    have "path log (free_name w1 log tm 0) \<noteq> cur log"
      using free_name_fresh [of w1 log tm 0] archive_name_neq(1) by (metis prod.inject)
    from namek.kept_trans [OF k name_rename [OF this]] show ?thesis
      using Some m namek.kept_trans [OF _ name_chmod] by (auto simp: tlog_rename_logfile_def Let_def split_beta)
  qed
qed

lemma name_remove_oldlog: "name_kept p w (snd (tlog_remove_oldlog env log w))"
proof -
  have "name_kept p w (snd (tlog_remove_oldestlog env log w))" for w
    by (auto simp: tlog_remove_oldestlog_def split_beta name_unlink namek.kept_refl)
  from namek.kept_funpow [of p, OF this] show ?thesis
    by (auto simp: tlog_remove_oldlog_def split_beta namek.kept_refl)
qed

lemma name_log_unlock: "name_kept p w (snd (tlog_log_unlock env log w))"
  by (auto simp: tlog_log_unlock_def name_unlink namek.kept_refl)

lemma name_unlock_and: "name_kept p w (snd (snd (unlock_and env rc log w)))"
  by (simp add: unlock_and_def split_beta name_log_unlock)

lemma name_to_pending: "name_kept (cur log) w (snd (to_pending env log w))"
  by (auto simp: to_pending_def namek.kept_refl intro: name_rename)

lemma name_start_gzip: "name_kept p w (snd (snd (start_gzip env log w)))"
  by (auto simp: start_gzip_def Let_def name_unlock_and namek.kept_refl)

lemma name_wait_pid: "name_kept (cur log) w (snd (tlog_wait_pid env log w))"
proof -
  let ?log = "log\<lparr>zip_pid := -1\<rparr>"
  obtain rc w1 where r: "tlog_rename_logfile env ?log (logname log @ ''.pending.gz'') w = (rc, w1)" by fastforce
  have k: "name_kept (cur log) w w1"
    using name_rename_logfile [of ?log w env "logname log @ ''.pending.gz''"] r by simp
  note u = namek.kept_trans [OF k name_log_unlock]
    namek.kept_trans [OF namek.kept_trans [OF k name_remove_oldlog] name_log_unlock]
  show ?thesis using u r by (simp add: tlog_wait_pid_def Let_def namek.kept_refl)
qed

lemma log_lock_name: "tlog_log_lock env log w = (rc, log1, w1) \<Longrightarrow> logdir log1 = logdir log \<and> logname log1 = logname log"
  by (auto simp: tlog_log_lock_def split: if_splits option.splits prod.splits)

lemma name_log_lock: "name_kept (cur log) w (snd (snd (tlog_log_lock env log w)))"
proof -
  have "name_kept (cur log) w (snd (sys_create env w (lock_file log) (S_IRUSR OR S_IWUSR)))"
    by (rule name_create) (simp add: lock_file_def)
  then show ?thesis by (auto simp: tlog_log_lock_def namek.kept_refl split: option.splits prod.splits)
qed

lemma name_archive_log: "name_kept (cur log) w (snd (snd (tlog_archive_log env log w)))"
proof -
  obtain rc log1 w1 where l: "tlog_log_lock env log w = (rc, log1, w1)" by (metis prod_cases3)
  have n: "cur log1 = cur log" using log_lock_name [OF l] by simp
  have k1: "name_kept (cur log) w w1" using name_log_lock [of log w env] l by simp
  have step: "name_kept (cur log) w v \<Longrightarrow> name_kept (cur log) w (snd (tlog_rename_logfile env log1 src v))"
    "name_kept (cur log) w v \<Longrightarrow> name_kept (cur log) w (snd (to_pending env log1 v))"
    "name_kept (cur log) w v \<Longrightarrow> name_kept (cur log) w (snd (snd (unlock_and env r log1 v)))"
    "name_kept (cur log) w v \<Longrightarrow> name_kept (cur log) w (snd (snd (start_gzip env log1 v)))"
    "name_kept (cur log) w v \<Longrightarrow> name_kept (cur log) w (snd (tlog_remove_oldlog env log1 v))" for v src r
    using name_rename_logfile [of log1 v env src] name_to_pending [of log1 v env] name_unlock_and [of "cur log" v env r log1]
      name_start_gzip [of "cur log" v env log1] name_remove_oldlog [of "cur log" v env log1]
    unfolding n by (blast intro: namek.kept_trans)+
  show ?thesis
    unfolding tlog_archive_log_def tlog_archive_log_nocompress_def tlog_archive_log_compressed_def Let_def l split_conv split_beta
    by (auto intro!: step k1 split: if_splits)
qed

lemma archive_log_settings:
  assumes "tlog_archive_log env log w = (rc, log', w')" and "\<not> multi_log log"
  shows "fail log' = fail log \<and> logcount log' = logcount log \<and> last_try log' = last_try log \<and> rename_pending log' = rename_pending log"
  using assms
  by (auto simp: tlog_archive_log_def tlog_archive_log_nocompress_def tlog_archive_log_compressed_def start_gzip_def
      tlog_log_lock_def unlock_and_def tlog_log_unlock_def Let_def split_beta split: if_splits)

section \<open>The files written so far\<close>

text \<open>
  Opening, making directories and writing work; everything else (renaming, listing, removing, starting and awaiting
  gzip) may fail. The clock has started.
\<close>

definition files_ok :: "lenv \<Rightarrow> bool" where
  "files_ok env \<longleftrightarrow> (\<forall>w p n. e_open env w p \<and> e_mkdir env w (fst p) \<and> e_now env w \<noteq> 0 \<and> e_write env w n = int n)"

definition written :: "nat list \<Rightarrow> lworld \<Rightarrow> byte list" where
  "written js w = concat (map (\<lambda>j. content (inode w j)) js)"

text \<open>
  \<open>js\<close> are the files written so far, the last one is the one written now: no other can be open or have the
  log's name.
\<close>

definition disk_inv :: "nat list \<Rightarrow> logf \<Rightarrow> lworld \<Rightarrow> bool" where
  "disk_inv js log w \<longleftrightarrow>
     \<not> multi_log log \<and> \<not> fail log \<and> 0 < logcount log \<and> 0 \<le> lf_filesize log \<and> last_try log = 0 \<and>
     length (logdir (renamed log)) < PATH_MAX - 1 \<and> (rename_pending log \<longrightarrow> zip_pid log \<le> 0 \<and> lf_fd log = None) \<and>
     (\<forall>i. lf_fd log = Some i \<longrightarrow> js \<noteq> [] \<and> i = last js \<and> lf_filesize log = int (length (content (inode w i)))) \<and>
     (\<forall>j. ent w (cur (renamed log)) = Some j \<longrightarrow> js \<noteq> [] \<and> j = last js) \<and>
     distinct js \<and> (\<forall>j \<in> set js. j < next_ino w)"

lemma written_same: "same_files w w' \<Longrightarrow> \<forall>j \<in> set js. j < next_ino w \<Longrightarrow> written js w' = written js w"
  by (auto simp: written_def same_files_def intro!: arg_cong [of _ _ concat])

lemma disk_inv_name_kept:
  assumes "disk_inv js log w" and "name_kept (cur (renamed log)) w w'"
  shows "disk_inv js log w'" "written js w' = written js w"
proof -
  have "\<forall>j \<in> set js. j < next_ino w" and s: "same_files w w'" using assms by (auto simp: disk_inv_def name_kept_def)
  then show "written js w' = written js w" by (simp add: written_same)
  have "inode w' i = inode w i" if "lf_fd log = Some i" for i
    using that assms s by (auto simp: disk_inv_def same_files_def)
  then show "disk_inv js log w'" using assms s by (auto simp: disk_inv_def name_kept_def same_files_def)
qed

text \<open>After the test for a full file\<close>

lemma disk_inv_rolled:
  assumes inv: "disk_inv js log w" "\<not> rename_pending log" and r: "rolled env log w = (log1, w1)"
  shows "disk_inv js log1 w1 \<and> \<not> rename_pending log1 \<and> written js w1 = written js w"
proof (cases "lf_filesize log > logsize log \<and> zip_pid log \<le> 0")
  case True
  let ?log = "log\<lparr>lf_fd := None, lf_filesize := 0\<rparr>"
  have "\<not> lf_filesize log < seek_end (lf_fd log) w" using inv by (auto simp: disk_inv_def seek_end_def split: option.splits)
  then have "snd (tlog_archive_log env ?log w) = (log1, w1)" using r True by (simp add: rolled_def roll_over_def)
  then obtain rc where a: "tlog_archive_log env ?log w = (rc, log1, w1)" by (metis prod.collapse)
  have i0: "disk_inv js ?log w" using inv by (auto simp: disk_inv_def renamed_def)
  have "name_kept (cur ?log) w w1" using name_archive_log [of ?log w env] a by simp
  with i0 inv(2) have i1: "disk_inv js ?log w1" "written js w1 = written js w"
    using disk_inv_name_kept [of js ?log w w1] by (auto simp: renamed_def)
  have "\<not> multi_log ?log" using inv(1) by (simp add: disk_inv_def)
  with archive_log_fields [OF a] archive_log_settings [OF a] i1 inv(2) show ?thesis
    by (auto simp: disk_inv_def renamed_def)
next
  case False
  then show ?thesis using assms by (auto simp: rolled_def)
qed

lemma mkdir_loop_ok:
  assumes "\<forall>w p. e_mkdir env w p"
  shows "\<exists>w'. mkdir_loop env pre cs w = (0, w') \<and> ents w' = ents w \<and> inode w' = inode w \<and> next_ino w' = next_ino w"
proof (induction cs arbitrary: pre w)
  case (Cons c cs)
  show ?case using assms Cons.IH [of "pre @ [c]" w] Cons.IH [of "pre @ [c]" "w\<lparr>dirs := (dirs w)(pre := True)\<rparr>"]
    by (cases "c = CHR ''/''") simp_all
qed simp

lemma mkdir_ok:
  assumes "\<forall>w p. e_mkdir env w p" and "length d < PATH_MAX - 1"
  shows "\<exists>w'. tlog_mkdir env d w = Some (0, w') \<and> ents w' = ents w \<and> inode w' = inode w \<and> next_ino w' = next_ino w"
proof -
  have "length (dropWhile (\<lambda>c. c = CHR '' '') d) < PATH_MAX - 1" using assms(2) length_dropWhile_le le_less_trans by blast
  then show ?thesis using mkdir_loop_ok [OF assms(1)] by (auto simp: tlog_mkdir_def Let_def)
qed

lemma disk_inv_open:
  assumes env: "files_ok env" and inv: "disk_inv js log w" "\<not> rename_pending log" "lf_fd log = None"
  shows "\<exists>log' w' js'. open_log env log w = Some (True, log', w') \<and> disk_inv js' log' w' \<and> \<not> rename_pending log' \<and>
           lf_fd log' \<noteq> None \<and> written js' w' = written js w"
proof -
  have ok: "\<forall>w p. e_open env w p" "\<forall>w p. e_mkdir env w p" "e_now env w \<noteq> last_try log"
    using env inv by (auto simp: files_ok_def disk_inv_def)
  have "length (logdir log) < PATH_MAX - 1" using inv by (simp add: disk_inv_def renamed_def)
  from mkdir_ok [OF ok(2) this] obtain w1 where m: "tlog_mkdir env (logdir log) w = Some (0, w1)"
    "ents w1 = ents w" "inode w1 = inode w" "next_ino w1 = next_ino w" by blast
  have w1: "written js w1 = written js w" by (simp add: written_def m)
  have i1: "disk_inv js log w1" using inv(1) by (simp add: disk_inv_def m)
  define g where "g i w = (if mode_changed log then sys_fchmod env i (file_perm log) w else w)" for i w
  have g: "ents (g i w) = ents w" "inode (g i w) = inode w" "next_ino (g i w) = next_ino w" for i w by (simp_all add: g_def)
  define f where "f i w = log\<lparr>lf_fd := Some i, last_try := 0, print_errmsg := True, lf_filesize := seek_end (Some i) w\<rparr>" for i w
  show ?thesis
  proof (cases "ent w (cur log)")
    case (Some j)
    then have j: "js \<noteq> []" "j = last js" using inv by (auto simp: disk_inv_def renamed_def)
    have "open_log env log w = Some (True, f j (g j w1), g j w1)"
      using ok m Some by (simp add: open_log_def Let_def sys_create_def f_def g_def)
    moreover have "disk_inv js (f j (g j w1)) (g j w1)" using i1 inv(2) j by (simp add: disk_inv_def f_def renamed_def seek_end_def g)
    ultimately show ?thesis
      using w1 inv(2) by (intro exI [of _ "f j (g j w1)"] exI [of _ "g j w1"] exI [of _ js]) (simp add: f_def written_def g)
  next
    case None
    let ?n = "next_ino w"
    define w2 where "w2 = g ?n (w1\<lparr>ents := fmupd (cur log) ?n (ents w), next_ino := ?n + 1,
        inode := (inode w)(?n := \<lparr>mtime = e_now env w1, content = []\<rparr>), modes := (modes w1)(?n := file_perm log AND NOT (e_umask env))\<rparr>)"
    have new: "\<forall>j \<in> set js. j < ?n" using inv(1) by (simp add: disk_inv_def)
    have "written (js @ [?n]) w2 = written js w"
      using new by (auto simp: written_def w2_def g intro!: arg_cong [of _ _ concat])
    moreover have "open_log env log w = Some (True, f ?n w2, w2)"
      using ok m None by (simp add: open_log_def Let_def sys_create_def f_def w2_def g_def)
    moreover have "disk_inv (js @ [?n]) (f ?n w2) w2"
      using i1 inv(2) new by (auto simp: disk_inv_def f_def renamed_def seek_end_def w2_def g)
    ultimately show ?thesis
      using inv(2) by (intro exI [of _ "f ?n w2"] exI [of _ w2] exI [of _ "js @ [?n]"]) (simp add: f_def)
  qed
qed

lemma disk_inv_write:
  assumes env: "files_ok env" and inv: "disk_inv js log w" "\<not> rename_pending log" "lf_fd log = Some i" and "bs \<noteq> []"
  shows "\<exists>log' w'. write_log env log bs w = (int (length bs), log', w') \<and> disk_inv js log' w' \<and> \<not> rename_pending log' \<and>
           written js w' = written js w @ bs"
proof -
  define w' where "w' = w\<lparr>inode := (inode w)(i := \<lparr>mtime = e_now env w, content = content (inode w i) @ bs\<rparr>)\<rparr>"
  define log' where "log' = log\<lparr>lf_filesize := lf_filesize log + int (length bs)\<rparr>"
  have "write_log env log bs w = (int (length bs), log', w')"
    using env inv(3) \<open>bs \<noteq> []\<close> by (simp add: write_log_def sys_append_def files_ok_def Let_def w'_def log'_def)
  moreover have "disk_inv js log' w'" "\<not> rename_pending log'"
    using inv by (auto simp: disk_inv_def log'_def w'_def renamed_def)
  moreover have "written js w' = written js w @ bs"
  proof -
    have "js \<noteq> []" "i = last js" "distinct js" using inv(1,3) by (auto simp: disk_inv_def)
    then have "js = butlast js @ [i]" by simp
    with \<open>distinct js\<close> obtain ks where "js = ks @ [i]" "i \<notin> set ks" by (metis distinct_append not_distinct_conv_prefix distinct_butlast)
    then show ?thesis by (auto simp: written_def w'_def intro!: arg_cong [of _ _ concat])
  qed
  ultimately show ?thesis by blast
qed

text \<open>One piece through \<^verbatim>\<open>_tlog_root_write_log\<close>\<close>

lemma write_ext_renamed:
  assumes "bs \<noteq> []" and "\<not> fail log"
  shows "tlog_write_ext env log bs w = tlog_write_ext env (renamed log) bs w"
proof -
  have "renamed (renamed log) = renamed log" "fail (renamed log) = fail log"
    by (simp_all add: renamed_def tlog_get_log_name_dir_def Let_def)
  then show ?thesis using assms by (simp add: write_ext_eq)
qed

lemma disk_inv_renamed: "disk_inv js log w \<Longrightarrow> disk_inv js (renamed log) w"
  by (auto simp: disk_inv_def renamed_def tlog_get_log_name_dir_def Let_def)

lemma write_ext_disk:
  assumes env: "files_ok env" and inv: "disk_inv js log w"
  shows "\<exists>log' w' js'. tlog_write_ext env log bs w = Some (int (length bs), log', w') \<and> disk_inv js' log' w' \<and>
           written js' w' = written js w @ bs"
proof (cases "bs = []")
  case True
  then show ?thesis using inv by (intro exI [of _ log] exI [of _ w] exI [of _ js]) (simp add: tlog_write_ext_def)
next
  case False
  let ?l = "renamed log"
  have l: "disk_inv js ?l w" "\<not> rename_pending ?l" using disk_inv_renamed [OF inv] by (auto simp: renamed_def)
  then have s: "sized ?l w = ?l" "renamed ?l = ?l" by (auto simp: disk_inv_def sized_def renamed_def)
  obtain log1 w1 where r: "rolled env ?l w = (log1, w1)" by fastforce
  have i1: "disk_inv js log1 w1" "\<not> rename_pending log1" "written js w1 = written js w" using disk_inv_rolled [OF l r] by auto
  have e: "tlog_write_ext env log bs w =
      (if lf_fd log1 \<noteq> None then Some (write_log env log1 bs w1)
       else (case open_log env log1 w1 of None \<Rightarrow> None | Some (False, log, w) \<Rightarrow> Some (-1, log, w)
             | Some (True, log, w) \<Rightarrow> Some (write_log env log bs w)))"
    using False inv l(1) r s by (simp add: write_ext_renamed [OF False] write_ext_eq disk_inv_def)
  obtain log2 w2 js2 i where i2: "disk_inv js2 log2 w2" "\<not> rename_pending log2" "lf_fd log2 = Some i"
    "written js2 w2 = written js w" "tlog_write_ext env log bs w = Some (write_log env log2 bs w2)"
  proof (cases "lf_fd log1")
    case None
    from disk_inv_open [OF env i1(1,2) None] show thesis using e None i1(3) that by auto
  next
    case (Some i)
    then show thesis using e i1 that by auto
  qed
  from disk_inv_write [OF env i2(1-3) False] show ?thesis using i2(4,5) by auto
qed

lemma root_write_disk:
  assumes env: "files_ok env" and inv: "disk_inv js log w"
  shows "\<exists>log' w' js'. tlog_root_write_log env log bs w = Some (int (length bs), log', w') \<and> disk_inv js' log' w' \<and>
           written js' w' = written js w @ bs"
proof -
  define v where "v = (if logscreen log then snd (tlog_write_screen log None bs w) else w)"
  have "disk_inv js log v" "written js v = written js w"
    using inv by (auto simp: v_def disk_inv_def written_def tlog_write_screen_def)
  with write_ext_disk [OF env this(1), of bs] show ?thesis by (simp add: tlog_root_write_log_def v_def)
qed

section \<open>The worker, the ring and the files\<close>

text \<open>
  The life of the log on disk: the pieces written so far, the log and the files. Besides the writes of the worker there is
  the end of a gzip process, which the worker awaits, and anything the outside does that does not change the bytes
  of a file or put another file in the place of the log, such as gzip itself, or someone who moves a file away.
\<close>

inductive disk_run :: "lenv \<Rightarrow> logf \<Rightarrow> lworld \<Rightarrow> byte list list \<Rightarrow> logf \<Rightarrow> lworld \<Rightarrow> bool" for env log0 w0 where
  start: "disk_run env log0 w0 [] log0 w0"
| piece: "disk_run env log0 w0 cs log w \<Longrightarrow> tlog_root_write_log env log bs w = Some (rc, log', w') \<Longrightarrow>
          disk_run env log0 w0 (cs @ [bs]) log' w'"
| zipped: "disk_run env log0 w0 cs log w \<Longrightarrow> tlog_wait_pid env log w = (log', w') \<Longrightarrow> disk_run env log0 w0 cs log' w'"
| outside: "disk_run env log0 w0 cs log w \<Longrightarrow> name_kept (cur (renamed log)) w w' \<Longrightarrow> disk_run env log0 w0 cs log w'"

lemma wait_pid_fields:
  assumes "tlog_wait_pid env log w = (log', w')"
  shows "log' = log\<lparr>zip_pid := zip_pid log', lf_fd_lock := lf_fd_lock log'\<rparr>" and "zip_pid log \<le> 0 \<Longrightarrow> log' = log \<and> w' = w"
  using assms by (auto simp: tlog_wait_pid_def tlog_log_unlock_def Let_def split_beta split: if_splits)

lemma disk_inv_wait_pid:
  assumes inv: "disk_inv js log w" and z: "tlog_wait_pid env log w = (log', w')"
  shows "disk_inv js log' w' \<and> written js w' = written js w"
proof (cases "zip_pid log \<le> 0")
  case True
  then show ?thesis using wait_pid_fields(2) [OF z] inv by simp
next
  case False
  then have p: "\<not> rename_pending log" using inv by (auto simp: disk_inv_def)
  have "name_kept (cur (renamed log)) w w'" using name_wait_pid [of log w env] z p by (simp add: renamed_def)
  note k = disk_inv_name_kept [OF inv this]
  have "disk_inv js (log\<lparr>zip_pid := a, lf_fd_lock := b\<rparr>) w'" for a b using k(1) p by (simp add: disk_inv_def renamed_def)
  then show ?thesis using k(2) wait_pid_fields(1) [OF z] by metis
qed

lemma disk_run_written:
  assumes "disk_run env log0 w0 cs log w" and "files_ok env" and "disk_inv js0 log0 w0"
  shows "\<exists>js. disk_inv js log w \<and> written js w = written js0 w0 @ concat cs"
  using assms
proof (induction rule: disk_run.induct)
  case start
  then show ?case by auto
next
  case (piece cs log w bs rc log' w')
  then obtain js where "disk_inv js log w" "written js w = written js0 w0 @ concat cs" by blast
  with root_write_disk [OF piece.prems(1) this(1), of bs] piece.hyps(2) show ?case by auto
next
  case (zipped cs log w log' w')
  then show ?case using disk_inv_wait_pid by metis
next
  case (outside cs log w w')
  then show ?case using disk_inv_name_kept by metis
qed

text \<open>A log that has just been opened\<close>

lemma no_slash_length: "length (no_slash p) \<le> length p"
  unfolding no_slash_def by (metis length_dropWhile_le length_rev)

lemma dirname_length: "length (dirname p) \<le> max 1 (length p)"
proof -
  let ?d = "rev (dropWhile (\<lambda>c. c \<noteq> CHR ''/'') (rev (no_slash p)))"
  have "length ?d \<le> length p" using length_dropWhile_le no_slash_length [of p] by (metis length_rev le_trans)
  with no_slash_length [of ?d] show ?thesis by (auto simp: dirname_def Let_def le_max_iff_disj)
qed

definition old_files :: "logf \<Rightarrow> lworld \<Rightarrow> nat list" where
  "old_files log w = (case ent w (cur (renamed log)) of None \<Rightarrow> [] | Some j \<Rightarrow> [j])"

lemma open_disk_inv:
  assumes "log = tlog_open_file tty gzip logfile maxlogsize maxlogcount flag" and "\<not> bit flag TLOG_MULTI_WRITE"
    and "0 < maxlogcount" and "length logfile < PATH_MAX - 1" and "\<forall>p i. ent w p = Some i \<longrightarrow> i < next_ino w"
  shows "disk_inv (old_files log w) log w"
proof -
  have "logdir (renamed log) = take (PATH_MAX - 1) (dirname logfile)"
    using assms(1,4) by (simp add: tlog_open_file_def set_logfile_def renamed_def tlog_get_log_name_dir_def Let_def)
  moreover have "length (dirname logfile) < PATH_MAX - 1" using dirname_length [of logfile] assms(4) by (simp add: PATH_MAX_def)
  ultimately have "length (logdir (renamed log)) < PATH_MAX - 1" by simp
  moreover have "\<not> multi_log log" "\<not> fail log" "0 < logcount log" "lf_filesize log = 0" "last_try log = 0" "zip_pid log = -1" "lf_fd log = None"
    using assms(1-3) by (simp_all add: tlog_open_file_def set_logfile_def Let_def)
  ultimately show ?thesis using assms(5) by (auto simp: disk_inv_def old_files_def split: option.splits)
qed


section \<open>Witness\<close>

lemma demo_files_ok: "files_ok demo_env"
  by (simp add: files_ok_def demo_env_def)


end
