(* ===== verification/Tlog_List.thy ===== *)
theory Tlog_List
  imports Tlog_File
begin

text \<open>
  The logs of \<^verbatim>\<open>tlog.c\<close> as the worker sees them: a linked list from \<^verbatim>\<open>tlog.log\<close> over \<^verbatim>\<open>next\<close>, kept in an explicit
  heap, because logs are freed while others point at them. Modelled are the searches through the list, the choice of the
  next log to write (\<^verbatim>\<open>_tlog_work\<close>), the reaping of gzip processes, closing, \<^verbatim>\<open>tlog_exit\<close> and the fork handlers. A read through
  a pointer that is \<^verbatim>\<open>NULL\<close> or freed is a fault (\<open>None\<close>), and so is a loop that does not end. The theorems: the
  worker serves the logs in turn; closing removes and frees exactly one log; at exit all are freed; and the worker
  uses a log after it has freed it.
\<close>

section \<open>State\<close>

type_synonym logptr = nat

text \<open>The values of \<^verbatim>\<open>output_func\<close>: \<^verbatim>\<open>NULL\<close>, \<^verbatim>\<open>_tlog_write\<close>, \<^verbatim>\<open>_tlog_root_write_log\<close> or a function of the application\<close>

datatype outfun = OutNull | OutWrite | OutRoot | OutUser nat

record lognode =
  nd_next :: logptr
  nd_ring :: tlog_log
  nd_file :: logf
  nd_buff :: bool
  nd_exit :: bool
  nd_lastwait :: int
  nd_output :: outfun
  nd_private :: nat

type_synonym logheap = "logptr \<rightharpoonup> lognode"

text \<open>\<^verbatim>\<open>struct tlog\<close>, the static \<^verbatim>\<open>last_log\<close> of \<^verbatim>\<open>_tlog_wait_pids\<close>, and the files\<close>

record logs =
  lheap :: logheap
  log_head :: logptr
  root :: logptr
  notify_log :: logptr
  is_run :: bool
  last_log :: logptr
  files :: lworld

definition upd_node :: "logptr \<Rightarrow> lognode \<Rightarrow> logs \<Rightarrow> logs" where
  "upd_node p n s = s\<lparr>lheap := (lheap s)(p \<mapsto> n)\<rparr>"

section \<open>Searching the list\<close>

text \<open>The first log from \<open>p\<close> on that satisfies \<open>test\<close>, 0 if there is none.\<close>

partial_function (option) find_log :: "(logptr \<Rightarrow> lognode \<Rightarrow> bool) \<Rightarrow> logheap \<Rightarrow> logptr \<Rightarrow> logptr option" where
  "find_log test h p =
     (if p = 0 then Some 0
      else case h p of None \<Rightarrow> None | Some n \<Rightarrow> if test p n then Some p else find_log test h (nd_next n))"

definition tlog_any_has_data_locked :: "logs \<Rightarrow> bool option" where
  "tlog_any_has_data_locked s = map_option (\<lambda>p. p \<noteq> 0) (find_log (\<lambda>_ n. tlog_has_data (nd_ring n)) (lheap s) (log_head s))"

definition tlog_next_log :: "logptr \<Rightarrow> logs \<Rightarrow> logptr option" where
  "tlog_next_log prev s = (if prev = 0 then Some (log_head s) else map_option nd_next (lheap s prev))"

definition tlog_wait_pids :: "lenv \<Rightarrow> int \<Rightarrow> logs \<Rightarrow> logs option" where
  "tlog_wait_pids env now s =
     (case find_log (\<lambda>p n. zip_pid (nd_file n) > 0 \<and> p \<noteq> last_log s \<and> nd_lastwait n \<noteq> now) (lheap s) (log_head s) of
        None \<Rightarrow> None
      | Some p \<Rightarrow>
         if p = 0 then Some (s\<lparr>last_log := 0\<rparr>)
         else
           (case lheap s p of
              None \<Rightarrow> None
            | Some n \<Rightarrow>
               (let (f, w) = tlog_wait_pid env (nd_file n) (files s) in
                Some ((upd_node p (n\<lparr>nd_file := f, nd_lastwait := now\<rparr>) s)\<lparr>last_log := p, files := w\<rparr>))))"

text \<open>
  \<^verbatim>\<open>_tlog_wait_log_locked\<close>: whether it waits with a time limit, and what it returns for the result \<open>ret\<close> of the wait.
\<close>

definition need_wait_pid :: "logs \<Rightarrow> bool option" where
  "need_wait_pid s = map_option (\<lambda>p. p \<noteq> 0) (find_log (\<lambda>_ n. zip_pid (nd_file n) > 0) (lheap s) (log_head s))"

definition ETIMEDOUT :: int where "ETIMEDOUT = 110"

definition wait_log_return :: "int \<Rightarrow> logs \<Rightarrow> logptr \<times> logs" where
  "wait_log_return ret s = (if ret = 0 \<or> ret = ETIMEDOUT then (notify_log s, s\<lparr>notify_log := 0\<rparr>) else (0, s))"

section \<open>Opening and closing\<close>

text \<open>The end of \<^verbatim>\<open>tlog_open\<close>; \<open>p\<close> is the address \<^verbatim>\<open>malloc\<close> gave.\<close>

definition open_insert :: "logptr \<Rightarrow> lognode \<Rightarrow> logs \<Rightarrow> logs" where
  "open_insert p n s = (upd_node p (n\<lparr>nd_next := log_head s\<rparr>) s)\<lparr>log_head := p\<rparr>"

definition tlog_close :: "logptr \<Rightarrow> logs \<Rightarrow> logs option" where
  "tlog_close p s =
     (if p = 0 then Some s else case lheap s p of None \<Rightarrow> None | Some n \<Rightarrow> Some (upd_node p (n\<lparr>nd_exit := True\<rparr>) s))"

text \<open>The end of \<^verbatim>\<open>_tlog_close\<close>: the loop that looks for the log before \<open>p\<close> and unlinks \<open>p\<close>.\<close>

partial_function (option) close_unlink :: "logptr \<Rightarrow> logptr \<Rightarrow> logptr \<Rightarrow> logheap \<Rightarrow> (int \<times> logheap) option" where
  "close_unlink p after q h =
     (if q = 0 then Some (0, h)
      else case h q of None \<Rightarrow> None
      | Some n \<Rightarrow>
         if nd_next n = p then Some (-1, (h(q \<mapsto> n\<lparr>nd_next := after\<rparr>))(p := None))
         else close_unlink p after (nd_next n) h)"

definition close_log :: "lenv \<Rightarrow> logptr \<Rightarrow> logs \<Rightarrow> (int \<times> logs) option" where
  "close_log env p s =
     (if p = 0 then Some (-1, s)
      else case lheap s p of None \<Rightarrow> None
      | Some n \<Rightarrow>
         (let (f, w) = (if zip_pid (nd_file n) > 0 then tlog_wait_pid env (nd_file n) (files s) else (nd_file n, files s)) in
          if zip_pid f > 0 then Some (-1, (upd_node p (n\<lparr>nd_file := f\<rparr>) s)\<lparr>files := w\<rparr>)
          else
            (let (f, w) = tlog_log_unlock env (f\<lparr>lf_fd := None\<rparr>) w;
                 s = (upd_node p (n\<lparr>nd_file := f, nd_buff := False\<rparr>) s)\<lparr>files := w\<rparr> in
             if log_head s = p then Some (0, s\<lparr>log_head := nd_next n, lheap := (lheap s)(p := None)\<rparr>)
             else map_option (\<lambda>(rc, h). (rc, s\<lparr>lheap := h\<rparr>)) (close_unlink p (nd_next n) (log_head s) (lheap s)))))"

text \<open>The loop at the end of \<^verbatim>\<open>tlog_exit\<close>\<close>

partial_function (option) close_all :: "lenv \<Rightarrow> logs \<Rightarrow> logs option" where
  "close_all env s =
     (if log_head s = 0 then Some s
      else case close_log env (log_head s) s of None \<Rightarrow> None | Some (rc, s') \<Rightarrow> close_all env s')"

section \<open>The choice of the next log\<close>

text \<open>
  One round of the loop of \<^verbatim>\<open>_tlog_work\<close> with the local variable \<^verbatim>\<open>log\<close>: the worker stops, goes on with the next round and a new value
  of \<^verbatim>\<open>log\<close>, waits, or writes a log.
\<close>

datatype pick = Stop | Again logptr | Wait | Write logptr

definition pick_chosen :: "lenv \<Rightarrow> logptr \<Rightarrow> logs \<Rightarrow> (pick \<times> logs) option" where
  "pick_chosen env log s =
     (case lheap s log of
        None \<Rightarrow> None
      | Some n \<Rightarrow>
         if tlog_has_data (nd_ring n) then Some (Write log, s)
         else if nd_exit n then map_option (\<lambda>(rc, s). (Again (if rc = 0 then 0 else log), s)) (close_log env log s)
         else Some (Again log, s))"

definition work_pick :: "lenv \<Rightarrow> int \<Rightarrow> logptr \<Rightarrow> logs \<Rightarrow> (pick \<times> logs) option" where
  "work_pick env now log s =
     (case tlog_any_has_data_locked s of
        None \<Rightarrow> None
      | Some data \<Rightarrow>
         if \<not> is_run s \<and> \<not> data then Some (Stop, s)
         else
           (case tlog_wait_pids env now s of
              None \<Rightarrow> None
            | Some s \<Rightarrow>
               (case tlog_next_log log s of
                  None \<Rightarrow> None
                | Some log \<Rightarrow>
                   if log = 0 then Some (Again 0, s)
                   else
                     (case tlog_any_has_data_locked s of
                        None \<Rightarrow> None
                      | Some data \<Rightarrow> if \<not> data \<and> is_run s then Some (Wait, s) else pick_chosen env log s))))"

definition work_woken :: "lenv \<Rightarrow> int \<Rightarrow> logs \<Rightarrow> (pick \<times> logs) option" where
  "work_woken env ret s = (let (log, s) = wait_log_return ret s in if log = 0 then Some (Again 0, s) else pick_chosen env log s)"

text \<open>The rounds up to the one that does something\<close>

partial_function (option) pick_run :: "lenv \<Rightarrow> int \<Rightarrow> logptr \<Rightarrow> logs \<Rightarrow> (pick \<times> logs) option" where
  "pick_run env now log s =
     (case work_pick env now log s of
        None \<Rightarrow> None
      | Some (r, s') \<Rightarrow> (case r of Again log' \<Rightarrow> pick_run env now log' s' | _ \<Rightarrow> Some (r, s')))"

section \<open>Fork\<close>

partial_function (option) all_logs :: "(lognode \<Rightarrow> lognode) \<Rightarrow> logptr \<Rightarrow> logheap \<Rightarrow> logheap option" where
  "all_logs f p h =
     (if p = 0 then Some h else case h p of None \<Rightarrow> None | Some n \<Rightarrow> all_logs f (nd_next n) (h(p \<mapsto> f n)))"

definition tlog_fork_prepare :: "logs \<Rightarrow> logs option" where
  "tlog_fork_prepare s =
     (if root s = 0 then Some s
      else map_option (\<lambda>h. s\<lparr>lheap := h\<rparr>)
             (all_logs (\<lambda>n. n\<lparr>nd_file := (nd_file n)\<lparr>multi_log := True\<rparr>\<rparr>) (log_head s) (lheap s)))"

definition forked :: "lognode \<Rightarrow> lognode" where
  "forked n = n\<lparr>nd_ring := (nd_ring n)\<lparr>l_start := 0, l_end := 0, l_ext_end := 0, l_dropped := 0\<rparr>,
                nd_file := (nd_file n)\<lparr>lf_filesize := 0\<rparr>\<rparr>"

text \<open>\<open>thread\<close>: the new worker could be created.\<close>

definition tlog_fork_child :: "bool \<Rightarrow> logs \<Rightarrow> logs option" where
  "tlog_fork_child thread s =
     (if root s = 0 then Some s
      else case all_logs forked (log_head s) (lheap s) of
        None \<Rightarrow> None
      | Some h \<Rightarrow>
         if thread then Some (s\<lparr>lheap := h\<rparr>)
         else map_option (\<lambda>h. s\<lparr>lheap := h\<rparr>) (all_logs (\<lambda>n. n\<lparr>nd_file := (nd_file n)\<lparr>fail := True\<rparr>\<rparr>) (log_head s) h))"

section \<open>Waiting for gzip in a child\<close>

text \<open>
  \<^verbatim>\<open>tlog_wait_zip_fini\<close>: the inner loop, with \<^verbatim>\<open>wait_zip\<close> and the round as arguments, and the outer one. \<open>alive\<close> is whether
  \<^verbatim>\<open>kill(pid, 0)\<close> returns 0 in a round.
\<close>

partial_function (option) zip_pass :: "(nat \<Rightarrow> int \<Rightarrow> bool) \<Rightarrow> nat \<Rightarrow> logptr \<Rightarrow> bool \<Rightarrow> logheap \<Rightarrow> (bool \<times> logheap) option" where
  "zip_pass alive t p wait_zip h =
     (if p = 0 then Some (wait_zip, h)
      else case h p of None \<Rightarrow> None
      | Some n \<Rightarrow>
         (let pid = zip_pid (nd_file n) in
          zip_pass alive t (nd_next n) (wait_zip \<or> pid > 0)
            (if \<not> alive t pid \<or> t \<ge> 5000 then h(p \<mapsto> n\<lparr>nd_file := (nd_file n)\<lparr>zip_pid := -1\<rparr>\<rparr>) else h)))"

partial_function (option) zip_rounds :: "(nat \<Rightarrow> int \<Rightarrow> bool) \<Rightarrow> nat \<Rightarrow> logptr \<Rightarrow> logheap \<Rightarrow> logheap option" where
  "zip_rounds alive t p h =
     (case zip_pass alive (t + 1) p False h of
        None \<Rightarrow> None
      | Some (wait_zip, h') \<Rightarrow> if wait_zip then zip_rounds alive (t + 1) p h' else Some h')"

definition tlog_wait_zip_fini :: "(nat \<Rightarrow> int \<Rightarrow> bool) \<Rightarrow> logs \<Rightarrow> logs option" where
  "tlog_wait_zip_fini alive s =
     (if root s = 0 then Some s else map_option (\<lambda>h. s\<lparr>lheap := h\<rparr>) (zip_rounds alive 0 (log_head s) (lheap s)))"

section \<open>The list in the heap\<close>

primrec logs_at :: "logheap \<Rightarrow> logptr \<Rightarrow> logptr list \<Rightarrow> bool" where
  "logs_at h p [] \<longleftrightarrow> p = 0"
| "logs_at h p (a # as) \<longleftrightarrow> p = a \<and> a \<noteq> 0 \<and> (\<exists>n. h a = Some n \<and> logs_at h (nd_next n) as)"

lemma logs_at_0: "logs_at h 0 as \<longleftrightarrow> as = []"
  by (cases as) auto

lemma logs_at_unique: "logs_at h p as \<Longrightarrow> logs_at h p bs \<Longrightarrow> as = bs"
proof (induction as arbitrary: p bs)
  case Nil
  then show ?case by (simp add: logs_at_0)
next
  case (Cons a as)
  then show ?case by (cases bs) auto
qed

lemma logs_at_app: "logs_at h p (as @ a # bs) \<Longrightarrow> logs_at h a (a # bs)"
  by (induction as arbitrary: p) auto

lemma logs_at_distinct: "logs_at h p as \<Longrightarrow> distinct as"
proof (induction as arbitrary: p)
  case (Cons a as)
  then obtain n where n: "h a = Some n" "logs_at h (nd_next n) as" by auto
  have "a \<notin> set as"
  proof
    assume "a \<in> set as"
    then obtain xs ys where "as = xs @ a # ys" by (auto simp: in_set_conv_decomp)
    then have "logs_at h (nd_next n) ys" using n logs_at_app [of h "nd_next n" xs a ys] by auto
    from logs_at_unique [OF n(2) this] show False using \<open>as = xs @ a # ys\<close> by simp
  qed
  then show ?case using Cons.IH n by auto
qed simp

lemma logs_at_cong: "(\<And>a. a \<in> set as \<Longrightarrow> map_option nd_next (h' a) = map_option nd_next (h a)) \<Longrightarrow> logs_at h' p as = logs_at h p as"
proof (induction as arbitrary: p)
  case (Cons a as)
  have "map_option nd_next (h' a) = map_option nd_next (h a)" using Cons.prems by simp
  then show ?case using Cons by (cases "h a"; cases "h' a") auto
qed simp

lemma logs_at_in: "logs_at h p as \<Longrightarrow> a \<in> set as \<Longrightarrow> a \<noteq> 0 \<and> h a \<noteq> None"
  by (induction as arbitrary: p) auto

lemma find_log_spec:
  "logs_at h p as \<Longrightarrow>
     find_log test h p = Some (case List.find (\<lambda>a. test a (the (h a))) as of None \<Rightarrow> 0 | Some a \<Rightarrow> a)"
proof (induction as arbitrary: p)
  case Nil
  then show ?case by (simp add: find_log.simps [of test h 0])
next
  case (Cons a as)
  then obtain n where "p = a" "a \<noteq> 0" "h a = Some n" "logs_at h (nd_next n) as" by auto
  then show ?case using Cons.IH by (simp add: find_log.simps [of test h a])
qed

lemma all_logs_spec:
  assumes "\<And>n. nd_next (f n) = nd_next n" and "logs_at h p as"
  shows "all_logs f p h = Some (\<lambda>a. if a \<in> set as then map_option f (h a) else h a)"
  using assms(2)
proof (induction as arbitrary: p h)
  case Nil
  then show ?case by (simp add: all_logs.simps [of f 0 h])
next
  case (Cons a as)
  then obtain n where n: "p = a" "a \<noteq> 0" "h a = Some n" "logs_at h (nd_next n) as" by auto
  have d: "a \<notin> set as" using logs_at_distinct [OF Cons.prems] by simp
  define h1 where "h1 = h(a \<mapsto> f n)"
  have h1: "h1 a = Some (f n)" "\<And>b. b \<noteq> a \<Longrightarrow> h1 b = h b" by (simp_all add: h1_def)
  have "map_option nd_next (h1 b) = map_option nd_next (h b)" for b using n(3) h1 assms(1) by (cases "b = a") simp_all
  then have "logs_at h1 (nd_next n) as" using n(4) logs_at_cong [of as h1 h] by simp
  from Cons.IH [OF this] have "all_logs f p h = Some (\<lambda>b. if b \<in> set as then map_option f (h1 b) else h1 b)"
    using n(1-3) all_logs.simps [of f a h] by (simp add: h1_def [symmetric])
  also have "(\<lambda>b. if b \<in> set as then map_option f (h1 b) else h1 b) =
      (\<lambda>b. if b \<in> set (a # as) then map_option f (h b) else h b)"
  proof
    show "(if b \<in> set as then map_option f (h1 b) else h1 b) = (if b \<in> set (a # as) then map_option f (h b) else h b)" for b
      using n(3) d h1 by (cases "b = a") simp_all
  qed
  finally show ?case .
qed

section \<open>Closing\<close>

lemma close_unlink_spec:
  assumes "logs_at h q (xs @ z # p # ys)" and "h z = Some n"
  shows "close_unlink p after q h = Some (-1, (h(z \<mapsto> n\<lparr>nd_next := after\<rparr>))(p := None))"
  using assms
proof (induction xs arbitrary: q)
  case Nil
  then show ?case using close_unlink.simps [of p after z h] by auto
next
  case (Cons x xs)
  then obtain m where m: "q = x" "x \<noteq> 0" "h x = Some m" "logs_at h (nd_next m) (xs @ z # p # ys)" by auto
  have "nd_next m = hd (xs @ [z])" using m(4) by (cases xs) auto
  moreover have "p \<notin> set (xs @ [z])" using logs_at_distinct [OF m(4)] by auto
  ultimately have "nd_next m \<noteq> p" by (metis append_is_Nil_conv hd_in_set list.distinct(1))
  then show ?case using Cons.IH [OF m(4) Cons.prems(2)] m by (simp add: close_unlink.simps [of p after x h])
qed

lemma unlink_logs_at:
  assumes "logs_at h q (xs @ z # p # ys)" and "h z = Some n" and "h p = Some m"
  shows "logs_at ((h(z \<mapsto> n\<lparr>nd_next := nd_next m\<rparr>))(p := None)) q (xs @ z # ys)"
proof -
  define h' where "h' = (h(z \<mapsto> n\<lparr>nd_next := nd_next m\<rparr>))(p := None)"
  have d: "distinct (xs @ z # p # ys)" by (rule logs_at_distinct [OF assms(1)])
  have h': "h' z = Some (n\<lparr>nd_next := nd_next m\<rparr>)" "\<And>a. a \<noteq> z \<Longrightarrow> a \<noteq> p \<Longrightarrow> h' a = h a" using d by (auto simp: h'_def)
  have "logs_at h' q (xs @ z # ys)" using assms(1) d
  proof (induction xs arbitrary: q)
    case Nil
    then have "logs_at h (nd_next m) ys" using assms(3) by auto
    moreover have "h' a = h a" if "a \<in> set ys" for a using that Nil(2) by (intro h'(2)) auto
    ultimately have "logs_at h' (nd_next m) ys" by (subst logs_at_cong [of _ _ h]) auto
    then show ?case using Nil h'(1) by simp
  next
    case (Cons x xs)
    then have "h' x = h x" by (intro h'(2)) auto
    then show ?case using Cons by auto
  qed
  then show ?thesis by (simp only: h'_def)
qed

lemma wait_pid_done: "0 < e_waitpid env w \<Longrightarrow> zip_pid (fst (tlog_wait_pid env f w)) \<le> 0"
  by (auto simp: tlog_wait_pid_def tlog_log_unlock_def Let_def split_beta)

text \<open>What closing keeps of the nodes: all but the links.\<close>

definition unlinked :: "lognode option \<Rightarrow> lognode option" where
  "unlinked = map_option (\<lambda>n. n\<lparr>nd_next := 0\<rparr>)"

lemma unlinked_same:
  "unlinked (Some x) = unlinked (Some y) \<Longrightarrow> nd_ring x = nd_ring y \<and> nd_file x = nd_file y"
  by (cases x; cases y) (simp add: unlinked_def)

lemma close_log_spec:
  assumes list: "logs_at (lheap s) (log_head s) as" and "p \<in> set as"
    and zip: "\<And>n. lheap s p = Some n \<Longrightarrow> zip_pid (nd_file n) \<le> 0 \<or> 0 < e_waitpid env (files s)"
  shows "\<exists>s'. close_log env p s = Some (if log_head s = p then 0 else -1, s') \<and>
           logs_at (lheap s') (log_head s') (remove1 p as) \<and> lheap s' p = None \<and>
           (\<forall>q. q \<noteq> p \<longrightarrow> unlinked (lheap s' q) = unlinked (lheap s q))"
proof -
  obtain n where n: "p \<noteq> 0" "lheap s p = Some n" using logs_at_in [OF list assms(2)] by auto
  obtain f w where fw: "(if zip_pid (nd_file n) > 0 then tlog_wait_pid env (nd_file n) (files s) else (nd_file n, files s)) = (f, w)"
    by fastforce
  have z: "\<not> zip_pid f > 0" using fw zip [OF n(2)] wait_pid_done [of env "files s" "nd_file n"] by (auto split: if_splits)
  obtain g v where gv: "tlog_log_unlock env (f\<lparr>lf_fd := None\<rparr>) w = (g, v)" by fastforce
  let ?n = "n\<lparr>nd_file := g, nd_buff := False\<rparr>"
  let ?h = "(lheap s)(p \<mapsto> ?n)"
  have list': "logs_at ?h (log_head s) as" using list n by (subst logs_at_cong [of _ _ "lheap s"]) auto
  have e: "close_log env p s =
      (if log_head s = p then Some (0, (upd_node p ?n s)\<lparr>files := v, log_head := nd_next n, lheap := ?h(p := None)\<rparr>)
       else map_option (\<lambda>(rc, h). (rc, (upd_node p ?n s)\<lparr>files := v, lheap := h\<rparr>)) (close_unlink p (nd_next n) (log_head s) ?h))"
    using n fw z gv by (simp add: close_log_def upd_node_def)
  show ?thesis
  proof (cases "log_head s = p")
    case True
    then obtain bs where bs: "as = p # bs" using assms(2) list by (cases as) auto
    then have "logs_at (?h(p := None)) (nd_next n) bs"
      using list n logs_at_distinct [OF list] by (subst logs_at_cong [of _ _ "lheap s"]) auto
    then show ?thesis using e True bs by (simp add: unlinked_def)
  next
    case False
    then obtain xs z ys where as: "as = xs @ z # p # ys"
    proof -
      obtain us ys where us: "as = us @ p # ys" using assms(2) by (auto simp: in_set_conv_decomp)
      then have "us \<noteq> []" using list False by (cases us) auto
      then show thesis using us that [of "butlast us" "last us" ys] by simp
    qed
    then obtain m where m: "?h z = Some m" using logs_at_in [OF list', of z] by auto
    have "z \<noteq> p" "remove1 p as = xs @ z # ys" using logs_at_distinct [OF list] as by (auto simp: remove1_append)
    then show ?thesis
      using e False close_unlink_spec [OF list' [unfolded as] m] unlink_logs_at [OF list' [unfolded as] m, of ?n] m
      by (simp add: unlinked_def upd_node_def)
  qed
qed

lemma close_all_spec:
  assumes "\<And>w. 0 < e_waitpid env w" and "logs_at (lheap s) (log_head s) as"
  shows "\<exists>s'. close_all env s = Some s' \<and> log_head s' = 0 \<and> (\<forall>a \<in> set as. lheap s' a = None) \<and>
           (\<forall>q. q \<notin> set as \<longrightarrow> unlinked (lheap s' q) = unlinked (lheap s q))"
  using assms(2)
proof (induction as arbitrary: s)
  case Nil
  then show ?case by (simp add: close_all.simps [of env s])
next
  case (Cons a as)
  then have a: "log_head s = a" "a \<noteq> 0" by auto
  from close_log_spec [OF Cons.prems, of a env] assms(1) obtain s1 where s1: "close_log env a s = Some (0, s1)"
    "logs_at (lheap s1) (log_head s1) as" "lheap s1 a = None" "\<forall>q. q \<noteq> a \<longrightarrow> unlinked (lheap s1 q) = unlinked (lheap s q)"
    using a by auto
  from Cons.IH [OF s1(2)] obtain s' where s': "close_all env s1 = Some s'" "log_head s' = 0" "\<forall>a \<in> set as. lheap s' a = None"
    "\<forall>q. q \<notin> set as \<longrightarrow> unlinked (lheap s' q) = unlinked (lheap s1 q)" by blast
  have "a \<notin> set as" using logs_at_distinct [OF Cons.prems] by simp
  then have "unlinked (lheap s' a) = unlinked None" using s'(4) s1(3) by metis
  then have "lheap s' a = None" by (simp add: unlinked_def)
  then show ?case using a s1 s' by (auto simp: close_all.simps [of env s])
qed

section \<open>The logs in turn\<close>

abbreviation data_at :: "logs \<Rightarrow> logptr \<Rightarrow> bool" where
  "data_at s a \<equiv> tlog_has_data (nd_ring (the (lheap s a)))"

text \<open>A list with data somewhere and no gzip process\<close>

definition busy :: "logptr list \<Rightarrow> logs \<Rightarrow> bool" where
  "busy as s \<longleftrightarrow> logs_at (lheap s) (log_head s) as \<and> (\<exists>a \<in> set as. data_at s a) \<and> (\<forall>a \<in> set as. zip_pid (nd_file (the (lheap s a))) \<le> 0)"

lemma find_NoneI: "(\<And>a. a \<in> set as \<Longrightarrow> \<not> P a) \<Longrightarrow> List.find P as = None"
  by (induction as) auto

lemma find_nonzero: "0 \<notin> set as \<Longrightarrow> (case List.find P as of None \<Rightarrow> 0 | Some a \<Rightarrow> a) \<noteq> (0 :: nat) \<longleftrightarrow> (\<exists>a \<in> set as. P a)"
  by (induction as) auto

lemma logs_at_nonzero: "logs_at h p as \<Longrightarrow> 0 \<notin> set as"
  using logs_at_in by blast

lemma busy_any: "busy as s \<Longrightarrow> tlog_any_has_data_locked s = Some True"
  using find_nonzero [OF logs_at_nonzero, of "lheap s" "log_head s" as "data_at s"]
  by (auto simp: busy_def tlog_any_has_data_locked_def find_log_spec)

lemma busy_wait_pids: "busy as s \<Longrightarrow> tlog_wait_pids env now s = Some (s\<lparr>last_log := 0\<rparr>)"
  by (auto simp: busy_def tlog_wait_pids_def find_log_spec find_NoneI not_less)

lemma busy_last_log: "busy as s \<Longrightarrow> busy as (s\<lparr>last_log := 0\<rparr>)"
  by (simp add: busy_def)

text \<open>The logs still to come after \<open>q\<close> in this turn\<close>

definition rest_of :: "logptr \<Rightarrow> logptr list \<Rightarrow> logptr list" where
  "rest_of q as = (if q = 0 then as else tl (dropWhile (\<lambda>a. a \<noteq> q) as))"

lemma rest_subset: "x \<in> set (rest_of q as) \<Longrightarrow> x \<in> set as"
proof -
  have "x \<in> set (tl ys) \<Longrightarrow> x \<in> set ys" for ys :: "logptr list" by (cases ys) auto
  then show "x \<in> set (rest_of q as) \<Longrightarrow> x \<in> set as" by (auto simp: rest_of_def dest: set_dropWhileD split: if_splits)
qed

lemma rest_step:
  assumes "distinct as" and "0 \<notin> set as" and "rest_of q as = v # vs"
  shows "rest_of v as = vs"
proof -
  obtain us where as: "as = us @ v # vs"
  proof (cases "q = 0")
    case True
    then show thesis using assms(3) that [of "[]"] by (simp add: rest_of_def)
  next
    case False
    then have "tl (dropWhile (\<lambda>a. a \<noteq> q) as) = v # vs" using assms(3) by (simp add: rest_of_def)
    then obtain x where "dropWhile (\<lambda>a. a \<noteq> q) as = x # v # vs" by (cases "dropWhile (\<lambda>a. a \<noteq> q) as") auto
    then have "as = (takeWhile (\<lambda>a. a \<noteq> q) as @ [x]) @ v # vs"
      by (metis append.assoc append_Cons append_Nil takeWhile_dropWhile_id)
    then show thesis using that by blast
  qed
  then have "v \<notin> set us" "v \<noteq> 0" using assms(1,2) by auto
  then have "dropWhile (\<lambda>a. a \<noteq> v) as = v # vs" using as by (subst as, subst dropWhile_append2) auto
  then show ?thesis using \<open>v \<noteq> 0\<close> by (simp add: rest_of_def)
qed

lemma next_log_rest:
  assumes "logs_at (lheap s) (log_head s) as" and "q = 0 \<or> q \<in> set as"
  shows "tlog_next_log q s = Some (case rest_of q as of [] \<Rightarrow> 0 | v # _ \<Rightarrow> v)"
proof (cases "q = 0")
  case True
  then show ?thesis using assms(1) by (cases as) (auto simp: tlog_next_log_def rest_of_def)
next
  case False
  then obtain us vs where as: "as = us @ q # vs" "q \<notin> set us" using assms(2) split_list_first [of q as] by blast
  then have "dropWhile (\<lambda>a. a \<noteq> q) as = q # vs" by (subst as(1), subst dropWhile_append2) auto
  moreover obtain n where "lheap s q = Some n" "logs_at (lheap s) (nd_next n) vs"
    using logs_at_app [of "lheap s" "log_head s" us q vs] assms(1) as by auto
  ultimately show ?thesis using False by (cases vs) (auto simp: tlog_next_log_def rest_of_def)
qed

lemma work_pick_busy:
  assumes b: "busy as s" and q: "q = 0 \<or> q \<in> set as"
  shows "work_pick env now q s =
           (case rest_of q as of [] \<Rightarrow> Some (Again 0, s\<lparr>last_log := 0\<rparr>) | v # _ \<Rightarrow> pick_chosen env v (s\<lparr>last_log := 0\<rparr>))"
proof -
  have l: "logs_at (lheap s) (log_head s) as" using b by (simp add: busy_def)
  have nz: "v \<noteq> 0" if "rest_of q as = v # vs" for v vs
    using rest_subset [of v q as] that logs_at_in [OF l] by auto
  have n: "tlog_next_log q (s\<lparr>last_log := 0\<rparr>) = Some (case rest_of q as of [] \<Rightarrow> 0 | v # _ \<Rightarrow> v)"
    using next_log_rest [of "s\<lparr>last_log := 0\<rparr>" as q] l q by simp
  have e: "work_pick env now q s =
      (let v = (case rest_of q as of [] \<Rightarrow> 0 | v # _ \<Rightarrow> v) in
       if v = 0 then Some (Again 0, s\<lparr>last_log := 0\<rparr>) else pick_chosen env v (s\<lparr>last_log := 0\<rparr>))"
    using busy_any [OF b] busy_wait_pids [OF b, of env now] n busy_any [OF busy_last_log [OF b]]
    by (simp add: work_pick_def Let_def)
  show ?thesis
  proof (cases "rest_of q as")
    case Nil
    then show ?thesis by (simp add: e)
  next
    case (Cons v vs)
    then show ?thesis using nz [OF Cons] by (simp add: e)
  qed
qed

lemma pick_run_rest:
  assumes b: "busy as s" and open': "\<forall>a \<in> set as. data_at s a \<or> \<not> nd_exit (the (lheap s a))"
    and q: "q = 0 \<or> q \<in> set as" and "rest_of q as = vs"
  shows "pick_run env now q s =
           (case List.find (data_at s) vs of
              Some v \<Rightarrow> Some (Write v, s\<lparr>last_log := 0\<rparr>) | None \<Rightarrow> pick_run env now 0 (s\<lparr>last_log := 0\<rparr>))"
  using assms
proof (induction vs arbitrary: q s)
  case Nil
  then show ?case by (subst pick_run.simps) (simp add: work_pick_busy)
next
  case (Cons v vs)
  let ?s = "s\<lparr>last_log := 0\<rparr>"
  have l: "logs_at (lheap s) (log_head s) as" using Cons.prems(1) by (simp add: busy_def)
  have v: "v \<in> set as" using rest_subset [of v q as] Cons.prems(4) by simp
  obtain n where n: "lheap s v = Some n" using logs_at_in [OF l v] by auto
  have w: "work_pick env now q s = pick_chosen env v ?s" using work_pick_busy [OF Cons.prems(1,3)] Cons.prems(4) by simp
  show ?case
  proof (cases "data_at s v")
    case True
    then have "pick_chosen env v ?s = Some (Write v, ?s)" using n by (simp add: pick_chosen_def)
    then show ?thesis using True w by (subst pick_run.simps) simp
  next
    case False
    then have c: "pick_chosen env v ?s = Some (Again v, ?s)" using n Cons.prems(2) v by (auto simp: pick_chosen_def)
    have r: "rest_of v as = vs" by (rule rest_step [OF logs_at_distinct [OF l] logs_at_nonzero [OF l] Cons.prems(4)])
    have "pick_run env now v ?s =
        (case List.find (data_at ?s) vs of
           Some v \<Rightarrow> Some (Write v, ?s\<lparr>last_log := 0\<rparr>) | None \<Rightarrow> pick_run env now 0 (?s\<lparr>last_log := 0\<rparr>))"
      by (rule Cons.IH [OF busy_last_log [OF Cons.prems(1)] _ _ r]) (use Cons.prems(2) v in simp_all)
    moreover have "?s\<lparr>last_log := 0\<rparr> = ?s" "data_at ?s = data_at s" by simp_all
    ultimately have "pick_run env now v ?s =
        (case List.find (data_at s) vs of Some v \<Rightarrow> Some (Write v, ?s) | None \<Rightarrow> pick_run env now 0 ?s)"
      by (simp only:)
    then show ?thesis using False w c by (subst pick_run.simps) simp
  qed
qed

lemma find_append: "List.find P (xs @ ys) = (case List.find P xs of Some x \<Rightarrow> Some x | None \<Rightarrow> List.find P ys)"
  by (induction xs) auto


text \<open>
  C39. A log used after it was freed. \<^verbatim>\<open>_tlog_close\<close> returns -1 for a log that is not the first of the list although it has freed it;
  the worker then keeps its pointer to it, and the next round reads the link of the freed log.
\<close>

theorem tlog_work_uses_freed_log:
  assumes "busy as s" and "as = us @ q # p # vs" and "nd_exit (the (lheap s p))" and "\<not> data_at s p"
  shows "\<exists>s'. work_pick env now q s = Some (Again p, s') \<and> lheap s' p = None \<and> work_pick env now' p s' = None"
proof -
  let ?s = "s\<lparr>last_log := 0\<rparr>"
  have b: "logs_at (lheap s) (log_head s) as" "\<exists>a \<in> set as. data_at s a" "\<forall>a \<in> set as. zip_pid (nd_file (the (lheap s a))) \<le> 0"
    using assms(1) by (auto simp: busy_def)
  have d: "distinct as" "0 \<notin> set as" using logs_at_distinct [OF b(1)] logs_at_nonzero [OF b(1)] by auto
  have "rest_of q as = p # vs" using d unfolding assms(2) by (simp add: rest_of_def dropWhile_append)
  then have w: "work_pick env now q s = pick_chosen env p ?s" using work_pick_busy [OF assms(1), of q] assms(2) by simp
  have p: "p \<in> set as" "log_head s \<noteq> p" using b(1) d(1) assms(2) by (auto split: list.splits) (cases us; auto)
  obtain n where n: "lheap s p = Some n" using logs_at_in [OF b(1) p(1)] by auto
  have "zip_pid (nd_file m) \<le> 0" if "lheap s p = Some m" for m using b(3) p(1) that by fastforce
  from close_log_spec [of ?s as p env] this b(1) p obtain s' where s': "close_log env p ?s = Some (-1, s')"
    "logs_at (lheap s') (log_head s') (remove1 p as)" "lheap s' p = None"
    "\<forall>q. q \<noteq> p \<longrightarrow> unlinked (lheap s' q) = unlinked (lheap s q)" by auto
  have "work_pick env now q s = Some (Again p, s')" using w n s'(1) assms(3,4) by (simp add: pick_chosen_def)
  moreover have "work_pick env now' p s' = None"
  proof -
    have same: "nd_ring (the (lheap s' a)) = nd_ring (the (lheap s a))" "nd_file (the (lheap s' a)) = nd_file (the (lheap s a))"
      if "a \<in> set as" "a \<noteq> p" for a
    proof -
      have "a \<in> set (remove1 p as)" using that d(1) by simp
      from logs_at_in [OF s'(2) this] logs_at_in [OF b(1) that(1)]
      obtain x y where xy: "lheap s' a = Some x" "lheap s a = Some y" by auto
      have "unlinked (lheap s' a) = unlinked (lheap s a)" using s'(4) that(2) by blast
      from unlinked_same [OF this [unfolded xy]] show "nd_ring (the (lheap s' a)) = nd_ring (the (lheap s a))"
        "nd_file (the (lheap s' a)) = nd_file (the (lheap s a))" by (simp_all add: xy)
    qed
    have "busy (remove1 p as) s'" using s'(2) b(2,3) assms(4) same d(1) by (auto simp: busy_def)
    from busy_any [OF this] busy_wait_pids [OF this] s'(3) logs_at_in [OF b(1) p(1)] show ?thesis
      by (simp add: work_pick_def tlog_next_log_def)
  qed
  ultimately show ?thesis using s'(3) by blast
qed

section \<open>Waiting for gzip ends\<close>

abbreviation zip_at :: "logheap \<Rightarrow> logptr \<Rightarrow> int" where
  "zip_at h a \<equiv> zip_pid (nd_file (the (h a)))"

lemma zip_pass_spec:
  assumes "logs_at h p as"
  shows "\<exists>h'. zip_pass alive t p wait_zip h = Some (wait_zip \<or> (\<exists>a \<in> set as. zip_at h a > 0), h') \<and> logs_at h' p as \<and>
           (\<forall>a. a \<notin> set as \<longrightarrow> h' a = h a) \<and>
           (\<forall>a \<in> set as. zip_at h' a = (if \<not> alive t (zip_at h a) \<or> t \<ge> 5000 then -1 else zip_at h a))"
  using assms
proof (induction as arbitrary: p wait_zip h)
  case Nil
  then show ?case by (simp add: zip_pass.simps [of alive t 0])
next
  case (Cons a as)
  then obtain n where n: "p = a" "a \<noteq> 0" "h a = Some n" "logs_at h (nd_next n) as" by auto
  have d: "a \<notin> set as" using logs_at_distinct [OF Cons.prems] by simp
  define m where "m = (if \<not> alive t (zip_at h a) \<or> t \<ge> 5000 then n\<lparr>nd_file := (nd_file n)\<lparr>zip_pid := -1\<rparr>\<rparr> else n)"
  define h1 where "h1 = h(a \<mapsto> m)"
  have m: "nd_next m = nd_next n" "zip_pid (nd_file m) = (if \<not> alive t (zip_at h a) \<or> t \<ge> 5000 then -1 else zip_at h a)"
    using n(3) by (simp_all add: m_def)
  have h1: "h1 a = Some m" "\<And>b. b \<noteq> a \<Longrightarrow> h1 b = h b" by (simp_all add: h1_def)
  have "map_option nd_next (h1 b) = map_option nd_next (h b)" for b using n(3) h1 m(1) by (cases "b = a") simp_all
  then have "logs_at h1 (nd_next n) as" using n(4) logs_at_cong [of as h1 h] by simp
  from Cons.IH [OF this, of "wait_zip \<or> zip_at h a > 0"] obtain h' where
    h': "zip_pass alive t (nd_next n) (wait_zip \<or> zip_at h a > 0) h1 =
           Some ((wait_zip \<or> zip_at h a > 0) \<or> (\<exists>b \<in> set as. zip_at h1 b > 0), h')"
      "logs_at h' (nd_next n) as" "\<forall>b. b \<notin> set as \<longrightarrow> h' b = h1 b"
      "\<forall>b \<in> set as. zip_at h' b = (if \<not> alive t (zip_at h1 b) \<or> t \<ge> 5000 then -1 else zip_at h1 b)" by blast
  have same: "h1 b = h b" if "b \<in> set as" for b using that d h1(2) by metis
  have "(if \<not> alive t (zip_at h a) \<or> t \<ge> 5000 then h(a \<mapsto> n\<lparr>nd_file := (nd_file n)\<lparr>zip_pid := -1\<rparr>\<rparr>) else h) = h1"
    using n(3) by (auto simp: h1_def m_def fun_eq_iff)
  then have z: "zip_pass alive t p wait_zip h =
      Some ((wait_zip \<or> zip_at h a > 0) \<or> (\<exists>b \<in> set as. zip_at h1 b > 0), h')"
    using n(1-3) h'(1) zip_pass.simps [of alive t a wait_zip h] by (simp add: Let_def)
  have a': "h' a = Some m" using h'(3) d h1(1) by metis
  have "logs_at h' p (a # as)" using n(1,2) a' m(1) h'(2) by simp
  moreover have "\<forall>b. b \<notin> set (a # as) \<longrightarrow> h' b = h b" using h'(3) h1(2) by simp
  moreover have "\<forall>b \<in> set (a # as). zip_at h' b = (if \<not> alive t (zip_at h b) \<or> t \<ge> 5000 then -1 else zip_at h b)"
    using h'(4) a' m(2) same by simp
  moreover have "(\<exists>b \<in> set as. zip_at h1 b > 0) \<longleftrightarrow> (\<exists>b \<in> set as. zip_at h b > 0)" using same by simp
  ultimately show ?case using z by (intro exI [of _ h']) auto
qed

lemma zip_pass_start:
  assumes "logs_at h p as"
  shows "\<exists>h'. zip_pass alive t p False h = Some (\<exists>a \<in> set as. zip_at h a > 0, h') \<and> logs_at h' p as \<and>
           (\<forall>a. a \<notin> set as \<longrightarrow> h' a = h a) \<and>
           (\<forall>a \<in> set as. zip_at h' a = (if \<not> alive t (zip_at h a) \<or> t \<ge> 5000 then -1 else zip_at h a))"
  using zip_pass_spec [OF assms, of alive t False] by (simp only: simp_thms)

lemma zip_rounds_end:
  assumes "logs_at h p as"
  shows "\<exists>h'. zip_rounds alive t p h = Some h' \<and> logs_at h' p as \<and> (\<forall>a. a \<notin> set as \<longrightarrow> h' a = h a) \<and> (\<forall>a \<in> set as. zip_at h' a \<le> 0)"
  using assms
proof (induction "5001 - t" arbitrary: t h rule: less_induct)
  case less
  from zip_pass_start [OF less.prems, of alive "t + 1"] obtain h1 where
    h1: "zip_pass alive (t + 1) p False h = Some (\<exists>a \<in> set as. zip_at h a > 0, h1)" "logs_at h1 p as"
      "\<forall>a. a \<notin> set as \<longrightarrow> h1 a = h a"
      "\<forall>a \<in> set as. zip_at h1 a = (if \<not> alive (t + 1) (zip_at h a) \<or> t + 1 \<ge> 5000 then -1 else zip_at h a)"
    by (elim exE conjE) (rule that)
  show ?case
  proof (cases "\<exists>a \<in> set as. zip_at h a > 0")
    case False
    then have "zip_rounds alive t p h = Some h1" using h1(1) by (simp add: zip_rounds.simps [of alive t p h])
    moreover have "\<forall>a \<in> set as. zip_at h1 a \<le> 0" using h1(4) False by (auto simp: not_less)
    ultimately show ?thesis using h1(2,3) by blast
  next
    case True
    then have r: "zip_rounds alive t p h = zip_rounds alive (t + 1) p h1" using h1(1) by (simp add: zip_rounds.simps [of alive t p h])
    show ?thesis
    proof (cases "t < 5001")
      case True
      from less.hyps [OF _ h1(2), of "t + 1"] True show ?thesis using r h1(3) by auto
    next
      case False
      then have neg: "\<forall>a \<in> set as. zip_at h1 a = -1" using h1(4) by simp
      from zip_pass_start [OF h1(2), of alive "t + 1 + 1"] obtain h2 where
        h2: "zip_pass alive (t + 1 + 1) p False h1 = Some (\<exists>a \<in> set as. zip_at h1 a > 0, h2)" "logs_at h2 p as"
          "\<forall>a. a \<notin> set as \<longrightarrow> h2 a = h1 a"
          "\<forall>a \<in> set as. zip_at h2 a = (if \<not> alive (t + 1 + 1) (zip_at h1 a) \<or> t + 1 + 1 \<ge> 5000 then -1 else zip_at h1 a)"
        by (elim exE conjE) (rule that)
      have "zip_rounds alive (t + 1) p h1 = Some h2" using h2(1) neg by (simp add: zip_rounds.simps [of alive "Suc t" p h1])
      then show ?thesis using r h1(3) h2 neg by auto
    qed
  qed
qed

text \<open>
  The wait of a forked child for the parent's gzip processes ends, whether or not they do: after 5000 rounds it gives up. Then no
  log has a process to wait for.
\<close>

lemma tlog_wait_zip_fini_ends:
  assumes "logs_at (lheap s) (log_head s) as" and "root s \<noteq> 0"
  shows "\<exists>s'. tlog_wait_zip_fini alive s = Some s' \<and> logs_at (lheap s') (log_head s') as \<and> (\<forall>a \<in> set as. zip_at (lheap s') a \<le> 0)"
  using zip_rounds_end [OF assms(1), of alive 0] assms(2) by (auto simp: tlog_wait_zip_fini_def)

text \<open>A forked child starts with empty rings.\<close>

lemma tlog_fork_child_empty:
  assumes "logs_at (lheap s) (log_head s) as" and "root s \<noteq> 0"
  shows "\<exists>s'. tlog_fork_child True s = Some s' \<and> logs_at (lheap s') (log_head s') as \<and> (\<forall>a \<in> set as. \<not> data_at s' a)"
proof -
  let ?h = "\<lambda>a. if a \<in> set as then map_option forked (lheap s a) else lheap s a"
  have h: "all_logs forked (log_head s) (lheap s) = Some ?h" by (rule all_logs_spec [OF _ assms(1)]) (simp add: forked_def)
  have "logs_at ?h (log_head s) as"
    using assms(1) by (subst logs_at_cong [of _ _ "lheap s"]) (simp_all add: option.map_comp forked_def comp_def)
  moreover have "\<not> tlog_has_data (nd_ring (the (?h a)))" if "a \<in> set as" for a
    using logs_at_in [OF assms(1) that] that by (auto simp: forked_def tlog_has_data_def)
  ultimately show ?thesis using h assms(2) by (simp add: tlog_fork_child_def)
qed

lemma open_insert_logs_at:
  assumes "logs_at (lheap s) (log_head s) as" and "p \<noteq> 0" and "lheap s p = None"
  shows "logs_at (lheap (open_insert p n s)) (log_head (open_insert p n s)) (p # as)"
proof -
  have "p \<notin> set as" using logs_at_in [OF assms(1), of p] assms(3) by auto
  then have "logs_at ((lheap s)(p \<mapsto> n\<lparr>nd_next := log_head s\<rparr>)) (log_head s) as"
    using assms(1) by (subst logs_at_cong [of _ _ "lheap s"]) auto
  then show ?thesis using assms(2) by (simp add: open_insert_def upd_node_def)
qed

section \<open>Witnesses\<close>

abbreviation ring_with :: "nat \<Rightarrow> tlog_log" where
  "ring_with n \<equiv> \<lparr>buff = [7, 7], buffsize = 2, l_start = 0, l_end = n, l_ext_end = 0, l_block = True, l_dropped = 0,
                  l_segment = False, l_max_line = 1, l_waiters = 0\<rparr>"

abbreviation demo_node :: "logptr \<Rightarrow> nat \<Rightarrow> bool \<Rightarrow> lognode" where
  "demo_node nx n ex \<equiv> \<lparr>nd_next = nx, nd_ring = ring_with n, nd_file = demo_log, nd_buff = True, nd_exit = ex, nd_lastwait = 0, nd_output = OutWrite, nd_private = 0\<rparr>"

text \<open>Three logs: the middle one is being closed if \<open>ex\<close>, the last one has data.\<close>

definition three :: "bool \<Rightarrow> logs" where
  "three ex = \<lparr>lheap = [1 \<mapsto> demo_node 2 0 False, 2 \<mapsto> demo_node 3 0 ex, 3 \<mapsto> demo_node 0 1 False], log_head = 1, root = 3,
               notify_log = 0, is_run = True, last_log = 0, files = demo_world\<rparr>"

lemma three_logs: "logs_at (lheap (three ex)) (log_head (three ex)) [1, 2, 3]"
  by (simp add: three_def)

lemma three_busy: "busy [1, 2, 3] (three ex)"
  by (simp add: busy_def three_def tlog_has_data_def demo_log_def)


theorem tlog_work_uses_freed_log_witness:
  "\<exists>s'. work_pick demo_env 5 1 (three True) = Some (Again 2, s') \<and> work_pick demo_env 6 2 s' = None"
  using tlog_work_uses_freed_log [OF three_busy, of "[]" 1 2 "[3]" True demo_env 5 6]
  by (auto simp: three_def tlog_has_data_def)

end
