(* ===== verification/Tlog_Segment.thy ===== *)
theory Tlog_Segment
  imports Tlog_File
begin

unbundle bit_operations_syntax

text \<open>
  A log with segments (\<^verbatim>\<open>tlog.c\<close> with \<^verbatim>\<open>TLOG_SEGMENT\<close> or colours): each line carries a packed \<^verbatim>\<open>struct tlog_loginfo\<close> and its
  length, is put into the ring inside a segment, and \<^verbatim>\<open>_tlog_root_write_log\<close> takes level and text out again. The theorem:
  what is written and shown is exactly the lines, each with its own level.
\<close>

section \<open>The packed header\<close>

text \<open>Little-endian numbers of \<open>k\<close> bytes\<close>

primrec le_bytes :: "nat \<Rightarrow> nat \<Rightarrow> byte list" where
  "le_bytes 0 n = []"
| "le_bytes (Suc k) n = of_nat (n mod 256) # le_bytes k (n div 256)"

primrec le_of :: "byte list \<Rightarrow> nat" where
  "le_of [] = 0"
| "le_of (b # bs) = unat b + 256 * le_of bs"

lemma length_le_bytes [simp]: "length (le_bytes k n) = k"
  by (induction k arbitrary: n) auto

lemma le_roundtrip: "n < 256 ^ k \<Longrightarrow> le_of (le_bytes k n) = n"
proof (induction k arbitrary: n)
  case (Suc k)
  then have "n div 256 < 256 ^ k" by (simp add: less_mult_imp_div_less mult.commute)
  moreover have "unat (of_nat (n mod 256) :: byte) = n mod 256" by (simp add: unat_of_nat)
  ultimately show ?case using Suc.IH by simp
qed simp

text \<open>
  \<^verbatim>\<open>struct tlog_loginfo\<close>, packed: level, the pointers to the file and function names, line, and \<^verbatim>\<open>struct tlog_time\<close>; 37
  bytes. The pointers are the numbers \<open>fp\<close> and \<open>up\<close>.
\<close>

definition time_bytes :: "tlog_time \<Rightarrow> byte list" where
  "time_bytes t = le_bytes 4 (year t) @ le_bytes 4 (usec t) @
     map of_nat [mon t, mday t, hour t, minute t, sec t]"

definition info_bytes :: "tlog_loginfo \<Rightarrow> nat \<Rightarrow> nat \<Rightarrow> byte list" where
  "info_bytes info fp up =
     le_bytes 4 (level_num (level info)) @ le_bytes 8 fp @ le_bytes 8 up @ le_bytes 4 (line_no info) @ time_bytes (log_time info)"

lemma length_info_bytes [simp]: "length (info_bytes info fp up) = 37"
  by (simp add: info_bytes_def time_bytes_def)

text \<open>The header as it stands in the line: the information and the length, an unsigned short.\<close>

definition seg_head :: "byte list \<Rightarrow> nat \<Rightarrow> string" where
  "seg_head info n = map (\<lambda>b. char_of (unat b)) (info @ u16_bytes n)"

definition LOG_HEAD :: nat where "LOG_HEAD = 39"

lemma length_seg_head: "length info = 37 \<Longrightarrow> length (seg_head info n) = LOG_HEAD"
  by (simp add: seg_head_def LOG_HEAD_def u16_bytes_def)

section \<open>Writing a segment\<close>

text \<open>
  The part of \<^verbatim>\<open>_tlog_root_write_log\<close> for segments: \<^verbatim>\<open>head->info.level\<close>, \<^verbatim>\<open>head->data\<close> and \<^verbatim>\<open>head->len\<close> of a buffer. \<open>None\<close> is a
  read past the buffer.
\<close>

definition segment_text :: "byte list \<Rightarrow> (nat \<times> byte list) option" where
  "segment_text b =
     (if length b < LOG_HEAD then None
      else
        (let len = u16_of (drop (LOG_HEAD - 2) b) in
         if length b < LOG_HEAD + len then None else Some (le_of (take 4 b), take len (drop LOG_HEAD b))))"

primrec level_of :: "tlog_level list \<Rightarrow> nat \<Rightarrow> tlog_level" where
  "level_of [] n = TLOG_END"
| "level_of (l # ls) n = (if level_num l = n then l else level_of ls n)"

abbreviation tlog_levels :: "tlog_level list" where
  "tlog_levels \<equiv> [TLOG_DEBUG, TLOG_INFO, TLOG_NOTICE, TLOG_WARN, TLOG_ERROR, TLOG_FATAL, TLOG_OFF]"

definition root_write_segment :: "lenv \<Rightarrow> logf \<Rightarrow> byte list \<Rightarrow> lworld \<Rightarrow> (int \<times> logf \<times> lworld) option" where
  "root_write_segment env log b w =
     (case segment_text b of
        None \<Rightarrow> None
      | Some (lvl, bs) \<Rightarrow>
         (let w = (if logscreen log then snd (tlog_write_screen log (Some (level_of tlog_levels lvl)) bs w) else w) in
          tlog_write_ext env log bs w))"

section \<open>Round trip\<close>

lemma bytes_char: "bytes_of (map (\<lambda>b. char_of (unat b)) bs) = bs"
proof -
  have "of_char (char_of (unat b)) = b" for b :: byte
  proof -
    have "(of_char (char_of (unat b)) :: byte) = of_nat (of_char (char_of (unat b)))" by (simp only: of_nat_of_char)
    also have "\<dots> = of_nat (unat b mod 256)" by simp
    also have "unat b mod 256 = unat b" using unsigned_less [of b, where ?'a = nat] by simp
    finally show ?thesis by simp
  qed
  then show ?thesis by (simp add: bytes_of_def comp_def)
qed

lemma segment_text_headed:
  assumes "length body < 65536"
  shows "segment_text (bytes_of (headed (seg_head (info_bytes info fp up)) maxlen body)) =
           Some (level_num (level info), bytes_of body)"
proof -
  let ?i = "info_bytes info fp up" and ?n = "length body"
  obtain z where z: "bytes_of (headed (seg_head ?i) maxlen body) = ?i @ u16_bytes ?n @ bytes_of body @ z"
    by (cases "headed (seg_head ?i) maxlen body = seg_head ?i ?n @ body")
      (auto simp: headed_def Let_def seg_head_def bytes_of_append bytes_char split: if_splits)
  have "drop (LOG_HEAD - 2) (?i @ u16_bytes ?n @ bytes_of body @ z) = u16_bytes ?n @ bytes_of body @ z" by (simp add: LOG_HEAD_def)
  moreover have "u16_of (u16_bytes ?n @ bytes_of body @ z) = ?n" using assms by (rule u16_roundtrip)
  moreover have "drop LOG_HEAD (?i @ u16_bytes ?n @ bytes_of body @ z) = bytes_of body @ z" by (simp add: LOG_HEAD_def u16_bytes_def)
  moreover have "take 4 (?i @ u16_bytes ?n @ bytes_of body @ z) = le_bytes 4 (level_num (level info))" by (simp add: info_bytes_def)
  moreover have "le_of (le_bytes 4 (level_num (level info))) = level_num (level info)"
    by (rule le_roundtrip) (cases "level info"; simp)
  ultimately show ?thesis unfolding z
    by (simp add: segment_text_def Let_def length_bytes_of LOG_HEAD_def u16_bytes_def)
qed

text \<open>A message on its way into the ring: what is formatted, and the line that comes out of \<^verbatim>\<open>_tlog_vprintf\<close>\<close>

record smsg =
  s_info :: tlog_loginfo
  s_file :: nat
  s_func :: nat
  s_pre :: string
  s_msg :: string

definition segment_line :: "nat \<Rightarrow> smsg \<Rightarrow> string option" where
  "segment_line maxlen x =
     (case tlog_root_log_buffer (seg_head (info_bytes (s_info x) (s_file x) (s_func x))) maxlen (tlog_root_default_format (s_pre x) (s_msg x)) of
        None \<Rightarrow> None | Some r \<Rightarrow> vprintf_line maxlen r)"

definition segment_fits :: "nat \<Rightarrow> smsg \<Rightarrow> bool" where
  "segment_fits m x \<longleftrightarrow> length (s_pre x) < m - 2 \<and> length (s_pre x @ s_msg x) \<noteq> m - 2 \<and> s_pre x @ s_msg x \<noteq> []"

definition shown :: "nat \<Rightarrow> smsg \<Rightarrow> nat \<times> byte list" where
  "shown m x = (level_num (level (s_info x)), bytes_of (with_newline (fitted m (s_pre x @ s_msg x))))"

lemma segment_line_ok:
  assumes m: "maxlen = LOG_HEAD + m" "6 \<le> m" "maxlen \<le> TLOG_MAX_LINE_SIZE_SET" and fits: "segment_fits m x"
  shows "\<exists>buf. segment_line maxlen x = Some buf \<and> length buf < maxlen \<and> segment_text (bytes_of buf) = Some (shown m x)"
proof -
  let ?h = "seg_head (info_bytes (s_info x) (s_file x) (s_func x))" and ?b = "with_newline (fitted m (s_pre x @ s_msg x))"
  have h: "length (?h n) = LOG_HEAD" for n by (rule length_seg_head) simp
  have r: "tlog_root_log_buffer ?h maxlen (tlog_root_default_format (s_pre x) (s_msg x)) =
      Some (int (length (headed ?h maxlen ?b)), headed ?h maxlen ?b)"
    by (rule root_line_headed [OF h m(1,2)]) (use fits in \<open>simp_all add: segment_fits_def\<close>)
  have b: "length ?b < m - 1"
    using with_newline_facts(1) [of "fitted m (s_pre x @ s_msg x)"] fitted_length [OF m(2), of "s_pre x @ s_msg x"] by linarith
  then have len: "length (headed ?h maxlen ?b) < maxlen" "0 < length (headed ?h maxlen ?b)"
    using h [of 0] h [of "length ?b"] m(1,2) by (auto simp: headed_def Let_def LOG_HEAD_def)
  then have "segment_line maxlen x = Some (headed ?h maxlen ?b)" by (simp add: segment_line_def r vprintf_line_def)
  moreover have "length ?b < 65536" using b m by (simp add: TLOG_MAX_LINE_SIZE_SET_def)
  from segment_text_headed [OF this] have "segment_text (bytes_of (headed ?h maxlen ?b)) = Some (shown m x)" by (simp add: shown_def)
  ultimately show ?thesis using len(1) by blast
qed

lemma segment_lines_ok:
  assumes m: "maxlen = LOG_HEAD + m" "6 \<le> m" "maxlen \<le> TLOG_MAX_LINE_SIZE_SET" and "\<forall>x \<in> set xs. segment_fits m x"
  shows "\<exists>bufs. map (segment_line maxlen) xs = map Some bufs \<and> (\<forall>b \<in> set bufs. length b < maxlen) \<and>
           map (\<lambda>b. segment_text (bytes_of b)) bufs = map (\<lambda>x. Some (shown m x)) xs"
  using assms(4)
proof (induction xs)
  case Nil
  then show ?case by simp
next
  case (Cons x xs)
  then obtain bufs where bufs: "map (segment_line maxlen) xs = map Some bufs" "\<forall>b \<in> set bufs. length b < maxlen"
    "map (\<lambda>b. segment_text (bytes_of b)) bufs = map (\<lambda>x. Some (shown m x)) xs" by auto
  obtain buf where "segment_line maxlen x = Some buf" "length buf < maxlen" "segment_text (bytes_of buf) = Some (shown m x)"
    using segment_line_ok [OF m] Cons.prems by auto
  with bufs show ?case by (intro exI [of _ "buf # bufs"]) simp
qed


section \<open>Witness\<close>

definition demo_smsg :: smsg where
  "demo_smsg = \<lparr>s_info = \<lparr>level = TLOG_WARN, log_file = ''a.c'', line_no = 7, log_time = demo_time\<rparr>, s_file = 0, s_func = 0,
                s_pre = ''p: '', s_msg = ''hello''\<rparr>"


end
