(* ===== verification/Tlog_Clock.thy ===== *)
theory Tlog_Clock
  imports Tlog_Archive
begin

text \<open>
  The cache of \<^verbatim>\<open>_tlog_localtime\<close> used by many threads at once: \<^verbatim>\<open>_tlog_spin_lock\<close>, \<^verbatim>\<open>_tlog_spin_unlock\<close> and the function itself,
  cut at every access to shared memory. The theorems: the spin lock excludes, and every thread gets what \<^verbatim>\<open>localtime_r\<close> gives, although
  the two variables of the cache are read and written one after the other.
\<close>

section \<open>State\<close>

text \<open>Where a thread stands; \<open>t\<close> is the time asked for, \<open>tm\<close> the result of \<^verbatim>\<open>localtime_r\<close>.\<close>

datatype clock_pc =
    Idle
  | Spin int                \<comment> \<open>first spin lock\<close>
  | Compare int             \<comment> \<open>holds the lock\<close>
  | Copy int                \<comment> \<open>hit: copies last\_tm\<close>
  | Convert int             \<comment> \<open>miss: released the lock, calls localtime\_r\<close>
  | Spin2 int "tm option"   \<comment> \<open>second spin lock\<close>
  | Store int tm            \<comment> \<open>holds the lock, sets last\_time\<close>
  | Store2 int tm           \<comment> \<open>holds the lock, sets last\_tm\<close>
  | Unlock int "tm option"  \<comment> \<open>holds the lock\<close>
  | Got int "tm option"     \<comment> \<open>returned\<close>

record clock =
  lock :: nat
  c_time :: int
  c_tm :: tm
  pc :: "nat \<Rightarrow> clock_pc"

abbreviation go :: "clock \<Rightarrow> nat \<Rightarrow> clock_pc \<Rightarrow> clock" where
  "go s i p \<equiv> s\<lparr>pc := (pc s)(i := p)\<rparr>"

definition clock_start :: "tm \<Rightarrow> clock" where
  "clock_start zero = \<lparr>lock = 0, c_time = 0, c_tm = zero, pc = (\<lambda>_. Idle)\<rparr>"

section \<open>The code\<close>

text \<open>\<^verbatim>\<open>__sync_bool_compare_and_swap\<close>\<close>

definition compare_and_swap :: "nat \<Rightarrow> nat \<Rightarrow> clock \<Rightarrow> bool \<times> clock" where
  "compare_and_swap old new s = (if lock s = old then (True, s\<lparr>lock := new\<rparr>) else (False, s))"

text \<open>One try of \<^verbatim>\<open>_tlog_spin_lock\<close>, and \<^verbatim>\<open>_tlog_spin_unlock\<close>\<close>

definition spin_try :: "nat \<Rightarrow> clock_pc \<Rightarrow> clock \<Rightarrow> clock" where
  "spin_try i next_pc s = (let (ok, s) = compare_and_swap 0 1 s in if ok then go s i next_pc else s)"

definition spin_unlock :: "clock \<Rightarrow> clock" where
  "spin_unlock s = snd (compare_and_swap 1 0 s)"

text \<open>The step of thread \<open>i\<close>; \<open>lt\<close> is \<^verbatim>\<open>localtime_r\<close>.\<close>

definition clock_next :: "(int \<Rightarrow> tm option) \<Rightarrow> nat \<Rightarrow> clock \<Rightarrow> clock" where
  "clock_next lt i s =
     (case pc s i of
        Idle \<Rightarrow> s
      | Spin t \<Rightarrow> spin_try i (Compare t) s
      | Compare t \<Rightarrow> if t = c_time s then go s i (Copy t) else go (spin_unlock s) i (Convert t)
      | Copy t \<Rightarrow> go s i (Unlock t (Some (c_tm s)))
      | Convert t \<Rightarrow> go s i (Spin2 t (lt t))
      | Spin2 t r \<Rightarrow> spin_try i (case r of None \<Rightarrow> Unlock t None | Some tm \<Rightarrow> Store t tm) s
      | Store t tm \<Rightarrow> go (s\<lparr>c_time := t\<rparr>) i (Store2 t tm)
      | Store2 t tm \<Rightarrow> go (s\<lparr>c_tm := tm\<rparr>) i (Unlock t (Some tm))
      | Unlock t r \<Rightarrow> go (spin_unlock s) i (Got t r)
      | Got t r \<Rightarrow> go s i Idle)"

inductive clock_step :: "(int \<Rightarrow> tm option) \<Rightarrow> clock \<Rightarrow> clock \<Rightarrow> bool" for lt where
  call: "pc s i = Idle \<Longrightarrow> clock_step lt s (go s i (Spin t))"
| run: "clock_step lt s (clock_next lt i s)"

inductive clock_reach :: "(int \<Rightarrow> tm option) \<Rightarrow> tm \<Rightarrow> clock \<Rightarrow> bool" for lt zero where
  start: "clock_reach lt zero (clock_start zero)"
| step: "clock_reach lt zero s \<Longrightarrow> clock_step lt s s' \<Longrightarrow> clock_reach lt zero s'"

section \<open>Invariant\<close>

fun holds_lock :: "clock_pc \<Rightarrow> bool" where
  "holds_lock (Compare t) = True"
| "holds_lock (Copy t) = True"
| "holds_lock (Store t tm) = True"
| "holds_lock (Store2 t tm) = True"
| "holds_lock (Unlock t r) = True"
| "holds_lock p = False"

text \<open>What a thread knows, and what holds of the cache while it holds the lock\<close>

fun pc_ok :: "(int \<Rightarrow> tm option) \<Rightarrow> int \<Rightarrow> clock_pc \<Rightarrow> bool" where
  "pc_ok lt ct (Copy t) = (ct = t)"
| "pc_ok lt ct (Spin2 t r) = (r = lt t)"
| "pc_ok lt ct (Store t tm) = (lt t = Some tm)"
| "pc_ok lt ct (Store2 t tm) = (lt t = Some tm \<and> ct = t)"
| "pc_ok lt ct (Unlock t r) = (t \<noteq> 0 \<longrightarrow> r = lt t)"
| "pc_ok lt ct (Got t r) = (t \<noteq> 0 \<longrightarrow> r = lt t)"
| "pc_ok lt ct p = True"

fun is_store2 :: "clock_pc \<Rightarrow> bool" where
  "is_store2 (Store2 t tm) = True"
| "is_store2 p = False"

definition clock_inv :: "(int \<Rightarrow> tm option) \<Rightarrow> clock \<Rightarrow> bool" where
  "clock_inv lt s \<longleftrightarrow>
     (\<forall>i j. holds_lock (pc s i) \<longrightarrow> holds_lock (pc s j) \<longrightarrow> i = j) \<and>
     lock s = of_bool (\<exists>i. holds_lock (pc s i)) \<and>
     (\<forall>i. pc_ok lt (c_time s) (pc s i)) \<and>
     (c_time s = 0 \<or> lt (c_time s) = Some (c_tm s) \<or> (\<exists>i. is_store2 (pc s i)))"

lemma clock_inv_start: "clock_inv lt (clock_start zero)"
  by (simp add: clock_inv_def clock_start_def)

lemma is_store2_holds: "is_store2 p \<Longrightarrow> holds_lock p"
  by (cases p) simp_all

text \<open>A thread that does not hold the lock knows nothing that another thread can spoil.\<close>

lemma pc_ok_other: "\<not> holds_lock p \<Longrightarrow> pc_ok lt ct p \<Longrightarrow> pc_ok lt ct' p"
  by (cases p) simp_all

lemma clock_inv_pc: "clock_inv lt s \<Longrightarrow> pc_ok lt (c_time s) (pc s i)"
  by (simp add: clock_inv_def)

lemma clock_inv_free: "clock_inv lt s \<Longrightarrow> lock s = 0 \<Longrightarrow> \<not> holds_lock (pc s i)"
  by (auto simp: clock_inv_def)

lemma clock_inv_excl: "clock_inv lt s \<Longrightarrow> holds_lock (pc s i) \<Longrightarrow> j \<noteq> i \<Longrightarrow> \<not> holds_lock (pc s j)"
  by (auto simp: clock_inv_def)

lemma clock_inv_cache:
  assumes "clock_inv lt s" "\<And>j. \<not> is_store2 (pc s j)"
  shows "c_time s = 0 \<or> lt (c_time s) = Some (c_tm s)"
  using assms by (simp add: clock_inv_def)

text \<open>
  A step of thread \<open>i\<close> when no other thread holds the lock: all that matters is what \<open>i\<close> knows afterwards, whether it
  has the lock and whether the cache is consistent unless \<open>i\<close> is between the two assignments.
\<close>

lemma clock_inv_alone:
  assumes inv: "clock_inv lt s" and o: "\<And>j. j \<noteq> i \<Longrightarrow> \<not> holds_lock (pc s j)"
    and "lock s' = of_bool (holds_lock p)" "pc s' = (pc s)(i := p)" "pc_ok lt (c_time s') p"
    and "is_store2 p \<or> c_time s' = 0 \<or> lt (c_time s') = Some (c_tm s')"
  shows "clock_inv lt s'"
proof (unfold clock_inv_def, intro conjI allI impI)
  have pc: "pc s' j = (if j = i then p else pc s j)" for j
    by (simp add: assms (4))
  show "j = k" if "holds_lock (pc s' j)" "holds_lock (pc s' k)" for j k
    using that o by (auto simp: pc split: if_splits)
  have "(\<exists>j. holds_lock (pc s' j)) \<longleftrightarrow> holds_lock p"
    using o by (auto simp: pc)
  then show "lock s' = of_bool (\<exists>j. holds_lock (pc s' j))"
    using assms (3) by simp
  show "pc_ok lt (c_time s') (pc s' j)" for j
    using pc_ok_other [OF o clock_inv_pc [OF inv]] assms (5) by (simp add: pc)
  have "is_store2 p \<Longrightarrow> \<exists>j. is_store2 (pc s' j)"
    by (intro exI [of _ i]) (simp add: pc)
  with assms (6) show "c_time s' = 0 \<or> lt (c_time s') = Some (c_tm s') \<or> (\<exists>j. is_store2 (pc s' j))"
    by blast
qed

lemma clock_inv_holder:
  assumes inv: "clock_inv lt s" and h: "holds_lock (pc s i)"
  shows "lock s = 1" "\<And>j. j \<noteq> i \<Longrightarrow> \<not> holds_lock (pc s j)"
    and "\<not> is_store2 (pc s i) \<Longrightarrow> c_time s = 0 \<or> lt (c_time s) = Some (c_tm s)"
proof -
  show "\<not> holds_lock (pc s j)" if "j \<noteq> i" for j
    using clock_inv_excl [OF inv h that] .
  then have "\<not> is_store2 (pc s j)" if "\<not> is_store2 (pc s i)" for j
    using is_store2_holds that by (cases "j = i") auto
  then show "c_time s = 0 \<or> lt (c_time s) = Some (c_tm s)" if "\<not> is_store2 (pc s i)"
    by (rule clock_inv_cache [OF inv]) (rule that)
  show "lock s = 1"
    using inv h by (auto simp: clock_inv_def)
qed

text \<open>A thread outside the lock moves; a thread takes the lock; a thread inside moves or leaves.\<close>

lemma clock_inv_outside:
  assumes inv: "clock_inv lt s" and "\<not> holds_lock (pc s i)" "\<not> holds_lock p" "pc_ok lt (c_time s) p"
  shows "clock_inv lt (go s i p)"
proof -
  have h: "holds_lock (pc (go s i p) j) = holds_lock (pc s j)" for j
    using assms (2,3) by simp
  have "is_store2 (pc (go s i p) j) = is_store2 (pc s j)" for j
    using assms (2,3) is_store2_holds by (cases "j = i") auto
  with inv h assms (4) show ?thesis
    unfolding clock_inv_def by simp
qed

lemma clock_inv_lock:
  assumes inv: "clock_inv lt s" and "holds_lock p" "pc_ok lt (c_time s) p"
  shows "clock_inv lt (spin_try i p s)"
proof (cases "lock s = 0")
  case True
  have "c_time s = 0 \<or> lt (c_time s) = Some (c_tm s)"
    using clock_inv_cache [OF inv] clock_inv_free [OF inv True] is_store2_holds by blast
  then show ?thesis
    using True assms clock_inv_free [OF inv True]
    by (intro clock_inv_alone [OF inv, of i _ p]) (simp_all add: spin_try_def compare_and_swap_def)
qed (simp add: spin_try_def compare_and_swap_def inv)

lemma clock_inv_inside:
  assumes inv: "clock_inv lt s" and h: "holds_lock (pc s i)" "\<not> is_store2 (pc s i)" and p: "pc_ok lt (c_time s) p"
  shows "holds_lock p \<Longrightarrow> clock_inv lt (go s i p)" "\<not> holds_lock p \<Longrightarrow> clock_inv lt (go (spin_unlock s) i p)"
proof -
  note x = clock_inv_holder [OF inv h(1)]
  show "clock_inv lt (go s i p)" if "holds_lock p"
    using x(1,2) x(3) [OF h(2)] p that by (intro clock_inv_alone [OF inv, of i _ p]) simp_all
  show "clock_inv lt (go (spin_unlock s) i p)" if "\<not> holds_lock p"
    using x(1,2) x(3) [OF h(2)] p that
    by (intro clock_inv_alone [OF inv, of i _ p]) (simp_all add: spin_unlock_def compare_and_swap_def)
qed

text \<open>The two assignments to the cache\<close>

lemma clock_inv_store:
  assumes inv: "clock_inv lt s" and i: "pc s i = Store t tm"
  shows "clock_inv lt (go (s\<lparr>c_time := t\<rparr>) i (Store2 t tm))"
proof (rule clock_inv_alone [OF inv, of i _ "Store2 t tm"])
  show "pc_ok lt (c_time (go (s\<lparr>c_time := t\<rparr>) i (Store2 t tm))) (Store2 t tm)"
    using clock_inv_pc [OF inv, of i] i by simp
qed (use clock_inv_holder (1,2) [OF inv, of i] i in simp_all)

lemma clock_inv_store2:
  assumes inv: "clock_inv lt s" and i: "pc s i = Store2 t tm"
  shows "clock_inv lt (go (s\<lparr>c_tm := tm\<rparr>) i (Unlock t (Some tm)))"
  by (rule clock_inv_alone [OF inv, of i _ "Unlock t (Some tm)"])
     (use clock_inv_holder (1,2) [OF inv, of i] clock_inv_pc [OF inv, of i] i in simp_all)

lemma clock_inv_next:
  assumes inv: "clock_inv lt s"
  shows "clock_inv lt (clock_next lt i s)"
proof (cases "pc s i")
  case (Copy t)
  have "t \<noteq> 0 \<Longrightarrow> Some (c_tm s) = lt t"
    using clock_inv_holder (3) [OF inv, of i] clock_inv_pc [OF inv, of i] Copy by auto
  then show ?thesis
    using Copy by (simp add: clock_next_def clock_inv_inside(1) [OF inv])
next
  case (Spin2 t r)
  then show ?thesis
    using clock_inv_pc [OF inv, of i] by (cases "lt t") (simp_all add: clock_next_def clock_inv_lock [OF inv])
next
  case (Store t tm)
  then show ?thesis
    using clock_inv_store [OF inv Store] by (simp add: clock_next_def)
next
  case (Store2 t tm)
  then show ?thesis
    using clock_inv_store2 [OF inv Store2] by (simp add: clock_next_def)
qed (use inv clock_inv_pc [OF inv, of i] in
     \<open>simp_all add: clock_next_def clock_inv_outside clock_inv_lock clock_inv_inside\<close>)

lemma clock_inv_step: "clock_step lt s s' \<Longrightarrow> clock_inv lt s \<Longrightarrow> clock_inv lt s'"
  by (induction rule: clock_step.induct) (simp_all add: clock_inv_next clock_inv_outside)

lemma clock_reach_inv: "clock_reach lt zero s \<Longrightarrow> clock_inv lt s"
  by (induction rule: clock_reach.induct) (auto intro: clock_inv_start clock_inv_step)

lemmas clock_run = clock_next_def spin_try_def spin_unlock_def compare_and_swap_def eval_nat_numeral

section \<open>The theorem\<close>

text \<open>
  C29. Threads that call \<^verbatim>\<open>_tlog_localtime\<close> at the same time: in every reachable state a thread that has its answer has the one \<^verbatim>\<open>localtime_r\<close>
  gives, except for the time 0, which is the initial value of \<^verbatim>\<open>last_time\<close>; two threads are never between lock and unlock together;
  and a try of the spin lock fails only while another thread is between lock and unlock.
\<close>

theorem tlog_localtime_threads:
  assumes "clock_reach lt zero s"
  shows "(\<forall>i t r. pc s i = Got t r \<and> t \<noteq> 0 \<longrightarrow> r = lt t) \<and>
    (\<forall>i j. holds_lock (pc s i) \<and> holds_lock (pc s j) \<longrightarrow> i = j) \<and>
    (fst (compare_and_swap 0 1 s) \<longleftrightarrow> (\<forall>j. \<not> holds_lock (pc s j)))"
proof (intro conjI allI impI)
  note inv = clock_reach_inv [OF assms]
  show "r = lt t" if "pc s i = Got t r \<and> t \<noteq> 0" for i t r
    using clock_inv_pc [OF inv, of i] that by simp
  show "i = j" if "holds_lock (pc s i) \<and> holds_lock (pc s j)" for i j
    using clock_inv_excl [OF inv] that by blast
  show "fst (compare_and_swap 0 1 s) \<longleftrightarrow> (\<forall>j. \<not> holds_lock (pc s j))"
    using inv by (simp add: clock_inv_def compare_and_swap_def)
qed

text \<open>The sequential model of the log files is this code run by one thread without interruption.\<close>

lemma clock_alone:
  assumes "lock s = 0" "pc s i = Spin t" "c_time s = last_time w" "c_tm s = last_tm w"
    and "tlog_localtime env t w = (r, w')"
  shows "\<exists>n \<le> 7. (clock_next (e_localtime env) i ^^ n) s =
           s\<lparr>c_time := last_time w', c_tm := last_tm w', pc := (pc s)(i := Got t r)\<rparr>"
proof -
  consider "t = last_time w" | tm where "t \<noteq> last_time w" "e_localtime env t = Some tm"
    | "t \<noteq> last_time w" "e_localtime env t = None"
    by (cases "e_localtime env t") auto
  then show ?thesis
  proof cases
    case 1
    then show ?thesis
      using assms by (intro exI [of _ 4]) (auto simp: clock_run tlog_localtime_def)
  next
    case 2
    then have "r = Some tm" "w' = w\<lparr>last_time := t, last_tm := tm\<rparr>"
      using assms (5) by (simp_all add: tlog_localtime_def)
    with 2 show ?thesis
      using assms (1-4) by (intro exI [of _ 7]) (simp add: clock_run)
  next
    case 3
    then show ?thesis
      using assms by (intro exI [of _ 5]) (auto simp: clock_run tlog_localtime_def)
  qed
qed

lemma clock_reach_calls: "clock_reach lt zero s \<Longrightarrow> pc s i = Idle \<Longrightarrow> clock_reach lt zero (go s i (Spin t))"
  by (rule clock_reach.step [OF _ clock_step.call])

lemma clock_reach_runs: "clock_reach lt zero s \<Longrightarrow> clock_reach lt zero (fold (clock_next lt) is s)"
  by (induction "is" arbitrary: s) (auto intro: clock_reach.step clock_step.run)

text \<open>Three threads ask for the same time; the first two miss and fill the cache, the third finds the time there.\<close>

definition demo_clock :: clock where
  "demo_clock = fold (clock_next (\<lambda>t. Some (demo_tm\<lparr>tm_sec := nat t\<rparr>))) [0, 0, 1, 0, 1, 0, 0, 0, 0, 1, 1, 1, 1, 1, 2, 2, 2, 2]
     (go (go (go (clock_start demo_tm) 0 (Spin 5)) 1 (Spin 5)) 2 (Spin 5))"

theorem tlog_localtime_threads_witness:
  "pc demo_clock 2 = Got 5 (Some (demo_tm\<lparr>tm_sec := 5\<rparr>)) \<and> fst (compare_and_swap 0 1 demo_clock)"
proof -
  have "clock_reach (\<lambda>t. Some (demo_tm\<lparr>tm_sec := nat t\<rparr>)) demo_tm demo_clock"
    unfolding demo_clock_def by (intro clock_reach_runs clock_reach_calls clock_reach.start) (simp_all add: clock_start_def)
  note result = tlog_localtime_threads [OF this]
  have "\<exists>r. pc demo_clock 2 = Got 5 r" "lock demo_clock = 0"
    by (simp_all add: demo_clock_def clock_run clock_start_def)
  then obtain r where r: "pc demo_clock 2 = Got 5 r" and "lock demo_clock = 0"
    by blast
  then have "fst (compare_and_swap 0 1 demo_clock)"
    by (simp add: compare_and_swap_def)
  moreover have "r = Some (demo_tm\<lparr>tm_sec := 5\<rparr>)"
    using result [THEN conjunct1, rule_format, of 2 5 r] r by simp
  ultimately show ?thesis
    using r by simp
qed

end
