(* ===== verification/Spec2Isabelle.thy ===== *)
theory Spec2Isabelle
  imports Growbuffer Mem_Quota Roundtrip Dispatch Daemon Ct_Options Tlog_Disk Tlog_Init Tlog_Clock Tlog_Fd
begin

text \<open>
  Verification of Estuary, the copytool of Lustre HSM for S3. The kernel's HSM coordinator hands the tool
  lists of actions (archive, restore, remove, cancel); the daemon starts a thread per action; an action
  copies a file to an S3 store or back with libs3 and tells the coordinator the outcome. All files named below
  are under \<^verbatim>\<open>src/src/\<close>.

  \<^bold>\<open>Parts and how they interact.\<close>
  \<^verbatim>\<open>main\<close> (\<^verbatim>\<open>lhsmtool_s3.c\<close>) opens the log, reads options and configuration and calls \<^verbatim>\<open>ct_run\<close>
  (\<^verbatim>\<open>ct_common.c\<close>), which receives action lists and starts workers under a semaphore. A worker runs
  \<^verbatim>\<open>ct_process_item\<close>, which calls \<^verbatim>\<open>ct_archive\<close>, \<^verbatim>\<open>ct_restore\<close> or \<^verbatim>\<open>ct_remove\<close>. A small file is read into
  memory taken from the quota (\<^verbatim>\<open>mem_quota.c\<close>) and put as one object; a big one is a multipart upload whose
  commit document is built in a growbuffer (\<^verbatim>\<open>growbuffer.c\<close>). libs3 calls back into \<^verbatim>\<open>s3_callback.c\<close>. Everything
  logs through \<^verbatim>\<open>tlog.c\<close>, whose own thread writes the lines to rotating files.

  \<^bold>\<open>Theories.\<close>
  \<^item> \<open>Estuary_Prelude\<close>: machine words, C strings, cutting lists into parts, the retry loops
    (\<^verbatim>\<open>should_retry\<close>, the resend loops), and the interfaces: the locales \<open>byte_source\<close> and \<open>live_source\<close> (something a
    client pulls bytes from) and \<open>kept\<close> (a relation that operations keep).
  \<^item> \<open>Growbuffer\<close>: \<^verbatim>\<open>growbuffer.c\<close> over an explicit heap; append, read and destroy never fault on a ring, append adds
    to the back, read takes from the front, destroy frees every block once; it is a \<open>live_source\<close>. Append
    after a partial read of the last block overwrites unread bytes.
  \<^item> \<open>Mem_Quota\<close>: \<^verbatim>\<open>mem_quota.c\<close> as a step relation over any number of threads; exact accounting, mutual exclusion, no
    stall while \<^verbatim>\<open>malloc\<close> succeeds, a reachable stall once it fails.
  \<^item> \<open>Ct_World\<close>: the files, the coordinator, the store and the clock. Answers of the outside are arbitrary functions of the
    history, and every interaction is an event of it.
  \<^item> \<open>S3_Callback\<close>: the callbacks of \<^verbatim>\<open>s3_callback.c\<close>; the upload callbacks are byte sources, so the body libs3 gets
    is the intended data whatever buffer sizes it picks.
  \<^item> \<open>Ct_Common\<close>, \<open>Lhsm_Util\<close>: names, messages to the coordinator, begin and end of an action; object names,
    checks on a source file, part size.
  \<^item> \<open>Archive_Small\<close>, \<open>Archive_Big\<close>, \<open>Archive\<close>: \<^verbatim>\<open>ct_archive_data\<close>, \<^verbatim>\<open>ct_archive_data_big\<close>, \<^verbatim>\<open>ct_archive\<close>. What the
    completion reports as success is in the store, with the exceptions the theorem states.
  \<^item> \<open>Restore\<close>: \<^verbatim>\<open>get_s3_object\<close>, \<^verbatim>\<open>ct_restore\<close>, \<^verbatim>\<open>ct_remove\<close>, \<^verbatim>\<open>ct_cancel\<close>. The range loop ends; a restore reported as a
    success has left exactly the object in the file.
  \<^item> \<open>S3_Store\<close>, \<open>Roundtrip\<close>: which object the store holds after a history of requests, and the round trip of a file through
    archive and restore: what comes back is what was archived.
  \<^item> \<open>Dispatch\<close>: \<^verbatim>\<open>ct_process_item\<close> and the allocations of \<^verbatim>\<open>ct_process_item_async\<close>.
  \<^item> \<open>Daemon\<close>: \<^verbatim>\<open>ct_run\<close>, \<^verbatim>\<open>ct_request_ctl\<close>, the end of \<^verbatim>\<open>ct_thread\<close> and the signal handler as a transition system; bound on
    the workers, items in order, clean shutdown, and the ways in which it goes wrong.
  \<^item> \<open>Ct_Options\<close>: \<^verbatim>\<open>ct_parseopts\<close> and \<^verbatim>\<open>main\<close>.
  \<^item> \<open>Tlog_Ring\<close>, \<open>Tlog_Work\<close>: the ring buffer of \<^verbatim>\<open>tlog.c\<close> and its threads (\<^verbatim>\<open>_tlog_vprintf\<close>, \<^verbatim>\<open>_tlog_work\<close>); in every interleaving
    they refine a queue of bytes. A wake-up can be lost; a line of full length can be lost.
  \<^item> \<open>Tlog_Line\<close>: levels, prefix, cutting of long messages, printing before the log is open, the ring of a new log; the
    queue theorem holds of the copytool's own log.
  \<^item> \<open>Tlog_Archive\<close>, \<open>Tlog_File\<close>: the log files: local time cache, archive names, removal of old logs, lock file, archiving,
    writing. Bytes in a log file never change, the size that is kept is right, a full file is moved to a free name
    and the newest \<^verbatim>\<open>logcount\<close> archives stay; modes are set as \<^verbatim>\<open>tlog_set_permission\<close> asks.
  \<^item> \<open>Tlog_Disk\<close>: the ring and the files together: what the threads log is in the files, in order and without a gap,
    whatever becomes of the archiving.
  \<^item> \<open>Tlog_Segment\<close>: lines in segment mode, packed with a header into the ring and unpacked by the worker: a round trip.
  \<^item> \<open>Tlog_List\<close>: the list of logs in a heap: the worker's choice of the next log (\<^verbatim>\<open>_tlog_work\<close>, \<^verbatim>\<open>_tlog_next_log\<close>,
    \<^verbatim>\<open>_tlog_wait_pids\<close>), closing (\<^verbatim>\<open>_tlog_close\<close>), the waiting of a forked child for gzip. No log with data is passed over; a
    log that is not the first is used after it has been freed.
  \<^item> \<open>Tlog_Init\<close>: \<^verbatim>\<open>tlog_open\<close>, \<^verbatim>\<open>tlog_init\<close>, \<^verbatim>\<open>tlog_exit\<close>, the settings, the choice of the output function and the fork handlers with
    their mutex. Nothing is left allocated by a failed start or by the end; a fork after a second start blocks.
  \<^item> \<open>Tlog_Clock\<close>: the cache of \<^verbatim>\<open>_tlog_localtime\<close> and its spin lock under any interleaving of threads.
  \<^item> \<open>Tlog_Fd\<close>: the closing of descriptors in the process that becomes gzip.

  \<^bold>\<open>How the code is represented.\<close>
  Structs are records, enums datatypes, sizes that can wrap are 64-bit words, return codes are \<open>int\<close>. A function
  that can fault (an access outside an array, a use of freed memory) returns an option, \<open>None\<close> being the fault, and the
  theorems prove that it does not occur or when it does. Code run by one thread is a function from state to result and
  state; code run by several threads is cut at the points where others can run (locks, waits) into steps. Loops are
  recursive functions with termination proofs: the growbuffer loops by the bytes or blocks left, the retry loops by
  their counters, the range loop of a restore by the ranges and retries left, the search for a free archive name by
  the finitely many names in use. Walks through the list of logs follow pointers in a heap and are partial functions into
  option, where \<open>None\<close> is a fault or a loop that does not end; that they return is proved for a heap that holds a list
  (\<open>logs_at\<close>). There is no fuel; where a loop of the code may run on (waiting threads) it is a step
  relation and the theorems speak of reachable states.

  \<^bold>\<open>Parameters.\<close>
  liblustreapi, libs3, libconfig, \<^verbatim>\<open>getopt_long\<close>, the operating system's answers and \<^verbatim>\<open>localtime_r\<close> are arguments: records of
  functions whose values are arbitrary. Where a theorem needs them to behave (\<open>calls_ok\<close> for the log files), the
  hypothesis states it and a witness shows that it can hold.

  \<^bold>\<open>Not modelled.\<close>
  Logging calls inside the copytool's functions, \<^verbatim>\<open>usage\<close>, \<^verbatim>\<open>ct_opt_dump\<close> and \<^verbatim>\<open>ct_dumpopts\<close> (they only print);
  \<^verbatim>\<open>quota_mem_destroy\<close>; the memory of entity tags and upload ids; failures of the small allocations the code does not
  check; \<^verbatim>\<open>get_s3_object\<close> without ranges (compiled out). Of \<^verbatim>\<open>tlog.c\<close>: gzip itself,
  the initialisation of mutexes and conditions, and what the application does in the output
  functions it registers. Other processes that rename a log file are allowed for by the inode model of the files but
  no theorem speaks of them.
\<close>

end
